(* ===== verification/VC_Prelude.thy ===== *)
theory VC_Prelude
  imports Complex_Main "HOL-Library.Word" "HOL-Library.Multiset"
begin

text \<open>
  Prelude of the development: the machine types the sources use, the
  collections of simplification rules that the component theories fill, and
  the generic facts on lists, options, powers of two and 64-bit words that
  several components share.

  A C++ \<open>std::string\<close> is a sequence of bytes, which is what HOL's
  \<^typ>\<open>string\<close> is. \<open>std::uint64_t\<close> is a 64-bit word. \<open>std::size_t\<close>
  counters (sizes, byte totals, indices) are natural numbers; the places where
  the width of \<open>size_t\<close> is visible (masks, shifts, rounding to a power of two)
  go through \<open>u64\<close>.
\<close>

unbundle bit_operations_syntax

type_synonym u64 = "64 word"

named_theorems vc_simps \<open>unfolding rules of operations whose bodies are case splits\<close>
named_theorems vc_inv \<open>preservation of component invariants\<close>

section \<open>Lists and options\<close>

definition head_opt :: "'a list \<Rightarrow> 'a option" where
  "head_opt xs = (case xs of [] \<Rightarrow> None | x # _ \<Rightarrow> Some x)"

definition last_opt :: "'a list \<Rightarrow> 'a option" where
  "last_opt xs = (if xs = [] then None else Some (last xs))"

lemma head_opt_simps [simp]:
  "head_opt [] = None" "head_opt (x # xs) = Some x"
  by (simp_all add: head_opt_def)

lemma last_opt_simps [simp]:
  "last_opt [] = None" "last_opt (xs @ [x]) = Some x"
  "last_opt (x # y # ys) = last_opt (y # ys)" "last_opt [x] = Some x"
  by (simp_all add: last_opt_def)

lemma head_opt_eq_None [simp]: "head_opt xs = None \<longleftrightarrow> xs = []"
  by (cases xs) auto

lemma last_opt_eq_None [simp]: "last_opt xs = None \<longleftrightarrow> xs = []"
  by (simp add: last_opt_def)

lemma last_opt_append_Cons [simp]: "last_opt (xs @ y # ys) = last_opt (y # ys)"
  by (simp add: last_opt_def)

lemma head_opt_append: "head_opt (xs @ ys) = (if xs = [] then head_opt ys else head_opt xs)"
  by (cases xs) auto

lemma last_opt_SomeD: "last_opt xs = Some x \<Longrightarrow> x \<in> set xs"
  by (auto simp: last_opt_def split: if_splits)

lemma head_opt_SomeD: "head_opt xs = Some x \<Longrightarrow> x \<in> set xs"
  by (cases xs) auto

lemma filter_neq_distinct_remove1:
  "distinct xs \<Longrightarrow> filter (\<lambda>y. y \<noteq> x) xs = remove1 x xs"
  by (simp add: distinct_remove1_removeAll removeAll_filter_not_eq eq_commute)

lemma sum_list_filter_split:
  "sum_list (map f xs) = sum_list (map f (filter P xs)) + sum_list (map f (filter (\<lambda>x. \<not> P x) xs))"
  for f :: "'a \<Rightarrow> nat"
  by (induction xs) auto

lemma length_filter_split:
  "length xs = length (filter P xs) + length (filter (\<lambda>x. \<not> P x) xs)"
  by (induction xs) auto

lemma sum_list_map_remove1_nat:
  "x \<in> set xs \<Longrightarrow> sum_list (map f (remove1 x xs)) = sum_list (map f xs) - (f x :: nat)"
  using sum_list_map_remove1 [of x xs f] by simp

section \<open>Updating one bucket of an array of chains\<close>

lemma concat_list_update_split:
  "i < length xss \<Longrightarrow>
   concat (xss[i := ys]) = concat (take i xss) @ ys @ concat (drop (Suc i) xss)"
  by (simp add: upd_conv_take_nth_drop)

lemma concat_split_nth:
  "i < length xss \<Longrightarrow>
   concat xss = concat (take i xss) @ xss ! i @ concat (drop (Suc i) xss)"
  by (metis concat.simps(2) concat_append id_take_nth_drop)

lemma mset_concat_update:
  assumes "i < length bs"
  shows "mset (concat (bs[i := c])) + mset (bs ! i) = mset (concat bs) + mset c"
  using assms by (simp add: concat_list_update_split concat_split_nth [OF assms])

lemma concat_distinct_nth:
  assumes "distinct (concat xss)" "i < length xss" "j < length xss" "x \<in> set (xss ! i)" "x \<in> set (xss ! j)"
  shows "i = j"
proof -
  have "False" if "i < j" "j < length xss" "x \<in> set (xss ! i)" "x \<in> set (xss ! j)" for i j
  proof -
    have "xss ! i \<in> set (take j xss)" using that(1,2) by (metis in_set_conv_nth length_take min_less_iff_conj nth_take order.strict_trans)
    then have "x \<in> set (concat (take j xss))" using that(3) by auto
    with assms(1) that(4) show False unfolding concat_split_nth [OF that(2)] by auto
  qed
  with assms(2-5) show ?thesis by (meson linorder_neqE_nat)
qed

section \<open>Powers of two and masks\<close>

definition is_pow2 :: "nat \<Rightarrow> bool" where
  "is_pow2 n \<longleftrightarrow> (\<exists>k. n = 2 ^ k)"

lemma is_pow2_I [intro, simp]: "is_pow2 (2 ^ k)"
  by (auto simp: is_pow2_def)

lemma is_pow2_1 [simp]: "is_pow2 1" "is_pow2 (Suc 0)"
  using is_pow2_I [of 0] by simp_all

lemma is_pow2_double: "is_pow2 n \<Longrightarrow> is_pow2 (2 * n)"
  by (auto simp: is_pow2_def simp flip: power_Suc)

lemma is_pow2_pos: "is_pow2 n \<Longrightarrow> 0 < n"
  by (auto simp: is_pow2_def)

text \<open>
  Masking with \<open>n - 1\<close> is the remainder modulo \<open>n\<close> when \<open>n\<close> is a power of two,
  whatever its size: a count that does not fit 64 bits turns into the all-ones mask.
\<close>

lemma mask_pow2_eq_mod:
  assumes "is_pow2 n"
  shows "unat (h AND (of_nat n - 1) :: u64) = unat h mod n"
proof -
  from assms obtain k where n: "n = 2 ^ k" by (auto simp: is_pow2_def)
  have m: "(of_nat n - 1 :: u64) = mask k"
    by (simp add: n mask_eq_decr_exp)
  have "unat (h AND mask k) = unat (take_bit k h)"
    by (simp add: take_bit_eq_mask)
  also have "\<dots> = take_bit k (unat h)"
    by (simp add: unsigned_take_bit_eq)
  finally show ?thesis
    unfolding m by (simp add: n take_bit_eq_mod)
qed

lemma mask_pow2_less:
  "is_pow2 n \<Longrightarrow> unat (h AND (of_nat n - 1) :: u64) < n"
  by (simp add: mask_pow2_eq_mod is_pow2_pos)

end
