(* ===== verification/VC_Entry.thy ===== *)
theory VC_Entry
  imports VC_Prelude
begin

text \<open>
  One stored record (include/Entry.h): a key, a value and an optional
  expiration. A \<open>Clock::time_point\<close> of \<open>std::chrono::steady_clock\<close> is its count of
  nanoseconds since the clock's origin, an integer; the clock itself is read by
  the callers, which hand the instant over as \<open>now\<close>.
\<close>

type_synonym time_point = int

record entry =
  e_key :: string
  e_value :: string
  e_expiration :: "time_point option"

definition Entry :: "string \<Rightarrow> string \<Rightarrow> entry" where
  "Entry k v = \<lparr>e_key = k, e_value = v, e_expiration = None\<rparr>"

definition hasExpiration :: "entry \<Rightarrow> bool" where
  "hasExpiration e \<longleftrightarrow> e_expiration e \<noteq> None"

definition isExpiredAt :: "time_point \<Rightarrow> entry \<Rightarrow> bool" where
  "isExpiredAt now e = (case e_expiration e of None \<Rightarrow> False | Some t \<Rightarrow> t \<le> now)"

lemma Entry_sel [simp]:
  "e_key (Entry k v) = k" "e_value (Entry k v) = v" "e_expiration (Entry k v) = None"
  by (simp_all add: Entry_def)

lemma hasExpiration_Entry [simp]: "\<not> hasExpiration (Entry k v)"
  by (simp add: hasExpiration_def)

lemma isExpiredAt_Entry [simp]: "\<not> isExpiredAt now (Entry k v)"
  by (simp add: isExpiredAt_def)

lemma isExpiredAt_mono: "isExpiredAt now e \<Longrightarrow> now \<le> later \<Longrightarrow> isExpiredAt later e"
  by (auto simp: isExpiredAt_def split: option.splits)

lemma isExpiredAt_None [simp]: "e_expiration e = None \<Longrightarrow> \<not> isExpiredAt now e"
  by (simp add: isExpiredAt_def)

lemma isExpiredAt_upd [simp]:
  "isExpiredAt now (e\<lparr>e_expiration := Some t\<rparr>) \<longleftrightarrow> t \<le> now"
  by (simp add: isExpiredAt_def)

end
