(* ===== verification/VC_Recency.thy ===== *)
theory VC_Recency
  imports VC_Prelude
begin

text \<open>
  The recency list of a hash table (the \<open>lruPrev\<close>/\<open>lruNext\<close> fields of
  \<open>HashTable::Node\<close>, \<open>lruHead_\<close>, \<open>lruTail_\<close>, and \<open>lruPushFront\<close>, \<open>lruUnlink\<close>,
  \<open>lruClear\<close> in src/HashTable.cpp): a doubly linked list that runs through the
  nodes by raw pointers.

  Pointers are addresses, the null pointer is \<^const>\<open>None\<close>, and the two link
  fields are two functions of the address of the node (one heap per field). The
  operations are the pointer assignments of the source, in its order.
  \<open>lru_rel s xs\<close> says that the pointers of \<open>s\<close> represent the list \<open>xs\<close> of
  addresses, most recently used first; the operations then implement consing
  and removal, which is the contract \<open>recency_list\<close> that the hash table relies on.
\<close>

type_synonym addr = nat

record lru =
  lruHead :: "addr option"
  lruTail :: "addr option"
  lruPrev :: "addr \<Rightarrow> addr option"
  lruNext :: "addr \<Rightarrow> addr option"

definition lruEmpty :: lru where
  "lruEmpty = \<lparr>lruHead = None, lruTail = None, lruPrev = (\<lambda>_. None), lruNext = (\<lambda>_. None)\<rparr>"

text \<open>A fresh node starts with both link fields null.\<close>

definition lruInit :: "addr \<Rightarrow> lru \<Rightarrow> lru" where
  "lruInit node s = s\<lparr>lruPrev := (lruPrev s)(node := None), lruNext := (lruNext s)(node := None)\<rparr>"

definition lruPushFront :: "addr \<Rightarrow> lru \<Rightarrow> lru" where
  "lruPushFront node s =
     (let s1 = s\<lparr>lruPrev := (lruPrev s)(node := None)\<rparr>;
          s2 = s1\<lparr>lruNext := (lruNext s1)(node := lruHead s1)\<rparr>;
          s3 = (case lruHead s2 of
                  None \<Rightarrow> s2
                | Some h \<Rightarrow> s2\<lparr>lruPrev := (lruPrev s2)(h := Some node)\<rparr>);
          s4 = s3\<lparr>lruHead := Some node\<rparr>
      in if lruTail s4 = None then s4\<lparr>lruTail := Some node\<rparr> else s4)"

definition lruUnlink :: "addr \<Rightarrow> lru \<Rightarrow> lru" where
  "lruUnlink node s =
     (let s1 = (case lruPrev s node of
                  Some p \<Rightarrow> s\<lparr>lruNext := (lruNext s)(p := lruNext s node)\<rparr>
                | None \<Rightarrow> if lruHead s = Some node then s\<lparr>lruHead := lruNext s node\<rparr> else s);
          s2 = (case lruNext s1 node of
                  Some n \<Rightarrow> s1\<lparr>lruPrev := (lruPrev s1)(n := lruPrev s1 node)\<rparr>
                | None \<Rightarrow> if lruTail s1 = Some node then s1\<lparr>lruTail := lruPrev s1 node\<rparr> else s1);
          s3 = s2\<lparr>lruPrev := (lruPrev s2)(node := None)\<rparr>
      in s3\<lparr>lruNext := (lruNext s3)(node := None)\<rparr>)"

definition lruClear :: "lru \<Rightarrow> lru" where
  "lruClear s = s\<lparr>lruHead := None, lruTail := None\<rparr>"

text \<open>The addresses met by following \<open>lruNext\<close> from a pointer, at most \<open>n\<close> of them.\<close>

fun lru_walk :: "nat \<Rightarrow> lru \<Rightarrow> addr option \<Rightarrow> addr list" where
  "lru_walk 0 s p = []"
| "lru_walk (Suc n) s None = []"
| "lru_walk (Suc n) s (Some a) = a # lru_walk n s (lruNext s a)"

section \<open>What the pointers represent\<close>

definition hd_or :: "'a option \<Rightarrow> 'a list \<Rightarrow> 'a option" where
  "hd_or q xs = (if xs = [] then q else Some (hd xs))"

definition last_or :: "'a option \<Rightarrow> 'a list \<Rightarrow> 'a option" where
  "last_or p xs = (if xs = [] then p else Some (last xs))"

lemma hd_or_simps [simp]: "hd_or q [] = q" "hd_or q (x # xs) = Some x"
  by (simp_all add: hd_or_def)

lemma last_or_simps [simp]: "last_or p [] = p" "last_or p (x # xs) = last_or (Some x) xs"
  by (simp_all add: last_or_def)

lemma hd_or_append: "hd_or q (xs @ ys) = hd_or (hd_or q ys) xs"
  by (simp add: hd_or_def)

lemma last_or_append: "last_or p (xs @ ys) = last_or (last_or p xs) ys"
  by (simp add: last_or_def)

lemma hd_or_None: "hd_or None xs = head_opt xs"
  by (cases xs) auto

lemma last_or_None: "last_or None xs = last_opt xs"
  by (simp add: last_or_def last_opt_def)

text \<open>
  \<open>lru_seg s p xs q\<close>: the nodes \<open>xs\<close> are linked to each other in this order, the
  first of them back to \<open>p\<close> and the last of them on to \<open>q\<close>.
\<close>

fun lru_seg :: "lru \<Rightarrow> addr option \<Rightarrow> addr list \<Rightarrow> addr option \<Rightarrow> bool" where
  "lru_seg s p [] q = True"
| "lru_seg s p (x # xs) q \<longleftrightarrow>
     lruPrev s x = p \<and> lruNext s x = hd_or q xs \<and> lru_seg s (Some x) xs q"

definition lru_rel :: "lru \<Rightarrow> addr list \<Rightarrow> bool" where
  "lru_rel s xs \<longleftrightarrow> distinct xs \<and> lruHead s = head_opt xs \<and> lruTail s = last_opt xs \<and>
     lru_seg s None xs None"

lemma lru_seg_append:
  "lru_seg s p (xs @ ys) q \<longleftrightarrow> lru_seg s p xs (hd_or q ys) \<and> lru_seg s (last_or p xs) ys q"
  by (induction xs arbitrary: p) (auto simp: hd_or_append)

lemma lru_seg_cong:
  "(\<And>x. x \<in> set xs \<Longrightarrow> lruPrev s x = lruPrev s' x \<and> lruNext s x = lruNext s' x) \<Longrightarrow>
   lru_seg s p xs q = lru_seg s' p xs q"
  by (induction xs arbitrary: p) auto

lemma lru_seg_set_last:
  assumes "lru_seg s p xs q" "distinct xs"
    and "\<And>x. x \<in> set xs \<Longrightarrow> lruPrev s' x = lruPrev s x"
    and "\<And>x. x \<in> set xs \<Longrightarrow> lruNext s' x = (if Some x = last_or None xs then q' else lruNext s x)"
  shows "lru_seg s' p xs q'"
  using assms
proof (induction xs arbitrary: p)
  case (Cons x xs)
  show ?case
  proof (cases xs)
    case Nil
    with Cons.prems show ?thesis by simp
  next
    case (Cons z zs)
    then have "Some x \<noteq> last_or None xs" "last_or None (x # xs) = last_or None xs"
      using Cons.prems(2) by (auto simp: last_or_def split: if_splits)
    with Cons.prems Cons.IH [of "Some x"] Cons show ?thesis by auto
  qed
qed simp

lemma lru_seg_set_first:
  assumes "lru_seg s p xs q" "distinct xs"
    and "\<And>x. x \<in> set xs \<Longrightarrow> lruNext s' x = lruNext s x"
    and "\<And>x. x \<in> set xs \<Longrightarrow> lruPrev s' x = (if Some x = hd_or None xs then p' else lruPrev s x)"
  shows "lru_seg s' p' xs q"
proof (cases xs)
  case (Cons x ys)
  then have "lru_seg s' (Some x) ys q = lru_seg s (Some x) ys q"
    using assms by (intro lru_seg_cong) auto
  with assms Cons show ?thesis by auto
qed simp

lemma lru_walk_seg:
  "lru_seg s p xs None \<Longrightarrow> length xs \<le> n \<Longrightarrow> lru_walk n s (head_opt xs) = xs"
proof (induction xs arbitrary: p n)
  case Nil
  then show ?case by (cases n) auto
next
  case (Cons x xs)
  then show ?case by (cases n) (auto simp: hd_or_None)
qed

text \<open>Walking from the head recovers the represented list, so the list is unique.\<close>

lemma lru_walk_rel:
  "lru_rel s xs \<Longrightarrow> length xs \<le> n \<Longrightarrow> lru_walk n s (lruHead s) = xs"
  using lru_walk_seg by (auto simp: lru_rel_def)

lemma lru_rel_unique: "lru_rel s xs \<Longrightarrow> lru_rel s ys \<Longrightarrow> xs = ys"
  by (metis lru_walk_rel nat_le_linear)

lemma lru_rel_distinct: "lru_rel s xs \<Longrightarrow> distinct xs"
  by (simp add: lru_rel_def)

section \<open>The operations implement list operations\<close>

lemma lru_rel_empty: "lru_rel lruEmpty []"
  by (simp add: lru_rel_def lruEmpty_def)

lemma lru_rel_clear: "lru_rel (lruClear s) []"
  by (simp add: lru_rel_def lruClear_def)

lemma lru_rel_init: "lru_rel s xs \<Longrightarrow> a \<notin> set xs \<Longrightarrow> lru_rel (lruInit a s) xs"
proof -
  assume "lru_rel s xs" "a \<notin> set xs"
  moreover from \<open>a \<notin> set xs\<close> have "lru_seg (lruInit a s) None xs None = lru_seg s None xs None"
    by (intro lru_seg_cong) (auto simp: lruInit_def)
  ultimately show ?thesis by (simp add: lru_rel_def) (simp add: lruInit_def)
qed

lemma lru_rel_push:
  assumes "lru_rel s xs" "a \<notin> set xs"
  shows "lru_rel (lruPushFront a s) (a # xs)"
proof (cases xs)
  case Nil
  with assms show ?thesis by (simp add: lru_rel_def lruPushFront_def Let_def)
next
  case (Cons h ys)
  let ?s' = "lruPushFront a s"
  have ne: "h \<noteq> a" "a \<notin> set ys" using assms Cons by auto
  have "lru_seg ?s' (Some h) ys None = lru_seg s (Some h) ys None"
    using assms Cons ne
    by (intro lru_seg_cong) (auto simp: lru_rel_def lruPushFront_def Let_def)
  with assms Cons ne show ?thesis
    by (auto simp: lru_rel_def lruPushFront_def Let_def)
qed

lemma lru_rel_unlink_split:
  assumes "lru_rel s (as @ a # bs)"
  shows "lru_rel (lruUnlink a s) (as @ bs)"
proof -
  let ?s' = "lruUnlink a s"
  have d: "distinct as" "distinct bs" "a \<notin> set as" "a \<notin> set bs" "set as \<inter> set bs = {}"
    using assms by (auto simp: lru_rel_def)
  have links: "lruPrev s a = last_or None as" "lruNext s a = hd_or None bs"
    and ends: "lruHead s = hd_or (Some a) as" "lruTail s = last_or (Some a) bs"
    and seg: "lru_seg s None as (Some a)" "lru_seg s (Some a) bs None"
    using assms
    by (auto simp: lru_rel_def lru_seg_append hd_or_append last_or_append
        simp flip: hd_or_None last_or_None)
  have last_as: "\<And>p. last_or None as = Some p \<Longrightarrow> p \<in> set as"
    and hd_bs: "\<And>n. hd_or None bs = Some n \<Longrightarrow> n \<in> set bs"
    by (auto simp: last_or_def hd_or_def split: if_splits)
  have nxt: "lruNext ?s' x = (if Some x = last_or None as then hd_or None bs
      else if x = a then None else lruNext s x)" for x
    using d last_as hd_bs
    by (auto simp: lruUnlink_def Let_def links ends split: option.splits)
  have prv: "lruPrev ?s' x = (if Some x = hd_or None bs then last_or None as
      else if x = a then None else lruPrev s x)" for x
    using d last_as hd_bs
    by (auto simp: lruUnlink_def Let_def links ends split: option.splits)
  have "lru_seg ?s' None as (hd_or None bs)"
    using seg(1) d(1) by (rule lru_seg_set_last) (use d in \<open>auto simp: nxt prv dest: hd_bs [OF sym]\<close>)
  moreover have "lru_seg ?s' (last_or None as) bs None"
    using seg(2) d(2) by (rule lru_seg_set_first) (use d in \<open>auto simp: nxt prv dest: last_as [OF sym]\<close>)
  moreover have "lruHead ?s' = hd_or None (as @ bs)"
    using d by (auto simp: lruUnlink_def Let_def links ends hd_or_def last_or_def)
  moreover have "lruTail ?s' = last_or None (as @ bs)"
    using d last_as by (auto simp: lruUnlink_def Let_def links ends hd_or_def last_or_def)
  ultimately show ?thesis
    using d by (simp add: lru_rel_def lru_seg_append hd_or_None last_or_None)
qed

lemma lru_rel_unlink:
  assumes "lru_rel s xs" "a \<in> set xs"
  shows "lru_rel (lruUnlink a s) (remove1 a xs)"
proof -
  from assms(2) obtain as bs where xs: "xs = as @ a # bs" "a \<notin> set as"
    by (auto dest: split_list_first)
  then show ?thesis
    using lru_rel_unlink_split [of s as a bs] assms(1) by (simp add: remove1_append)
qed

text \<open>
  The contract the hash table uses: a representation relation, and three
  operations that implement the empty list, consing and removal.
\<close>

locale recency_list =
  fixes rel :: "'s \<Rightarrow> addr list \<Rightarrow> bool"
    and push :: "addr \<Rightarrow> 's \<Rightarrow> 's"
    and unlink :: "addr \<Rightarrow> 's \<Rightarrow> 's"
  assumes rel_distinct: "rel s xs \<Longrightarrow> distinct xs"
    and rel_push: "rel s xs \<Longrightarrow> a \<notin> set xs \<Longrightarrow> rel (push a s) (a # xs)"
    and rel_unlink: "rel s xs \<Longrightarrow> a \<in> set xs \<Longrightarrow> rel (unlink a s) (remove1 a xs)"
begin

lemma rel_promote:
  assumes "rel s xs" "a \<in> set xs"
  shows "rel (push a (unlink a s)) (a # remove1 a xs)"
  using assms by (intro rel_push rel_unlink) (auto dest: rel_distinct)

lemma rel_unlink_all:
  assumes "rel s xs" "distinct as" "set as \<subseteq> set xs"
  shows "rel (fold unlink as s) (filter (\<lambda>x. x \<notin> set as) xs)"
  using assms
proof (induction as arbitrary: s xs)
  case (Cons a as)
  have "rel (unlink a s) (remove1 a xs)"
    using Cons.prems by (intro rel_unlink) auto
  moreover have "set as \<subseteq> set (remove1 a xs)"
    using Cons.prems rel_distinct [OF Cons.prems(1)] by auto
  ultimately have "rel (fold unlink as (unlink a s)) (filter (\<lambda>x. x \<notin> set as) (remove1 a xs))"
    using Cons.prems by (intro Cons.IH) auto
  moreover have "filter (\<lambda>x. x \<notin> set as) (remove1 a xs) = filter (\<lambda>x. x \<notin> set (a # as)) xs"
    using rel_distinct [OF Cons.prems(1)]
    by (simp flip: filter_neq_distinct_remove1)
  ultimately show ?case by simp
qed simp

end

interpretation dll: recency_list lru_rel lruPushFront lruUnlink
  by unfold_locales (auto simp: lru_rel_distinct lru_rel_push lru_rel_unlink)

end
