(* ===== verification/VC_HashTable.thy ===== *)
theory VC_HashTable
  imports VC_Entry VC_Recency
begin

text \<open>
  The hash table of include/HashTable.h and src/HashTable.cpp: an array of
  collision chains, a running size and byte total, and the recency list.

  A node is owned by exactly one \<open>unique_ptr\<close>, the bucket slot or the \<open>next\<close>
  field of its predecessor, so a chain is a list of nodes and the array a list of
  chains. A node carries its address, since the recency list refers to nodes by
  raw pointer; its link fields are kept in the per-field heaps of \<^typ>\<open>lru\<close>.
  An operation takes the table and returns it updated, with its result first.
  A pointer returned by \<open>find\<close> is the entry it points to; the two assignments
  the callers make through it are \<open>ht_set_expiration\<close>.
\<close>

section \<open>Hashing and rounding\<close>

definition kFnvOffsetBasis :: u64 where
  "kFnvOffsetBasis = 0xcbf29ce484222325"

definition kFnvPrime :: u64 where
  "kFnvPrime = 0x100000001b3"

definition kAllocationSlack :: nat where
  "kAllocationSlack = 48"

definition kDefaultBucketCount :: nat where
  "kDefaultBucketCount = 16"

text \<open>
  \<open>static constexpr double kMaxLoadFactor\<close>: three quarters, exactly representable.
  The counts it is compared with are exact as doubles below \<open>2 ^ 53\<close>, so the
  comparison is the one on rationals.
\<close>

definition kMaxLoadFactor :: rat where
  "kMaxLoadFactor = 3 / 4"

text \<open>
  \<open>sizeof(Node)\<close> and \<open>sizeof(std::unique_ptr<Node>)\<close> on LP64 with libstdc++: two
  32-byte strings, a 16-byte optional, three pointers and a \<open>size_t\<close>. No proof
  unfolds the first.
\<close>

definition sizeof_Node :: nat where
  "sizeof_Node = 112"

definition sizeof_ptr :: nat where
  "sizeof_ptr = 8"

definition fnv_step :: "u64 \<Rightarrow> char \<Rightarrow> u64" where
  "fnv_step hash ch = (hash XOR of_char ch) * kFnvPrime"

definition hashKey :: "string \<Rightarrow> u64" where
  "hashKey key =
     (let h0 = foldl fnv_step kFnvOffsetBasis key;
          h1 = h0 XOR drop_bit 33 h0;
          h2 = h1 * 0xff51afd7ed558ccd;
          h3 = h2 XOR drop_bit 33 h2;
          h4 = h3 * 0xc4ceb9fe1a85ec53
      in h4 XOR drop_bit 33 h4)"

definition roundUpToPowerOfTwo :: "u64 \<Rightarrow> u64" where
  "roundUpToPowerOfTwo n =
     (if n \<le> 1 then 1
      else let n0 = n - 1;
               n1 = n0 OR drop_bit 1 n0;
               n2 = n1 OR drop_bit 2 n1;
               n3 = n2 OR drop_bit 4 n2;
               n4 = n3 OR drop_bit 8 n3;
               n5 = n4 OR drop_bit 16 n4;
               n6 = n5 OR drop_bit 32 n5
           in n6 + 1)"

definition footprintEstimate :: "string \<Rightarrow> string \<Rightarrow> nat" where
  "footprintEstimate key val = sizeof_Node + kAllocationSlack + length key + length val"

section \<open>State\<close>

record node =
  n_addr :: addr
  n_entry :: entry
  n_footprint :: nat

record hash_table =
  ht_buckets :: "node list list"
  ht_size :: nat
  ht_entryBytes :: nat
  ht_lru :: lru

abbreviation n_key :: "node \<Rightarrow> string" where
  "n_key n \<equiv> e_key (n_entry n)"

abbreviation ht_nodes :: "hash_table \<Rightarrow> node list" where
  "ht_nodes t \<equiv> concat (ht_buckets t)"

definition HashTable :: "nat \<Rightarrow> hash_table" where
  "HashTable initialBucketCount =
     \<lparr>ht_buckets = replicate (unat (roundUpToPowerOfTwo (of_nat initialBucketCount))) [],
      ht_size = 0, ht_entryBytes = 0, ht_lru = lruEmpty\<rparr>"

text \<open>
  The address \<open>make_unique\<close> returns is one no live node has; the model takes the
  successor of the largest live address, so addresses of dead nodes are reused.
\<close>

definition fresh_addr :: "hash_table \<Rightarrow> addr" where
  "fresh_addr t = Suc (foldr max (map n_addr (ht_nodes t)) 0)"

text \<open>The node a raw pointer points to; \<^const>\<open>None\<close> is a dangling pointer.\<close>

definition node_at :: "hash_table \<Rightarrow> addr \<Rightarrow> node option" where
  "node_at t a = List.find (\<lambda>n. n_addr n = a) (ht_nodes t)"

section \<open>Lookup\<close>

definition bucketIndex :: "nat \<Rightarrow> string \<Rightarrow> nat" where
  "bucketIndex buckets key = unat (hashKey key AND (of_nat buckets - 1))"

definition bucketIndexFor :: "hash_table \<Rightarrow> string \<Rightarrow> nat" where
  "bucketIndexFor t key = bucketIndex (length (ht_buckets t)) key"

definition ht_findNode :: "string \<Rightarrow> hash_table \<Rightarrow> node option" where
  "ht_findNode key t =
     (if ht_buckets t = [] then None
      else List.find (\<lambda>n. n_key n = key) (ht_buckets t ! bucketIndexFor t key))"

definition ht_find :: "string \<Rightarrow> hash_table \<Rightarrow> entry option" where
  "ht_find key t =
     (if ht_buckets t = [] then None
      else map_option n_entry
        (List.find (\<lambda>n. n_key n = key) (ht_buckets t ! bucketIndexFor t key)))"

definition ht_get :: "string \<Rightarrow> hash_table \<Rightarrow> string option" where
  "ht_get key t = map_option e_value (ht_find key t)"

definition ht_contains :: "string \<Rightarrow> hash_table \<Rightarrow> bool" where
  "ht_contains key t \<longleftrightarrow> ht_find key t \<noteq> None"

section \<open>Growth\<close>

definition over_load :: "nat \<Rightarrow> nat \<Rightarrow> bool" where
  "over_load sz buckets \<longleftrightarrow> rat_of_nat sz > rat_of_nat buckets * kMaxLoadFactor"

text \<open>The doubling loop of \<open>resize\<close>. It does not return from 0 when \<open>sz > 0\<close>.\<close>

partial_function (option) resize_target :: "nat \<Rightarrow> nat \<Rightarrow> nat option" where
  "resize_target sz target =
     (if over_load sz target then resize_target sz (target * 2) else Some target)"

declare resize_target.simps [code]

definition rehash_node :: "nat \<Rightarrow> node \<Rightarrow> node list list \<Rightarrow> node list list" where
  "rehash_node target n bs =
     (let index = bucketIndex target (n_key n) in bs[index := n # bs ! index])"

definition ht_resize :: "nat \<Rightarrow> hash_table \<Rightarrow> hash_table option" where
  "ht_resize newBucketCount t =
     (case resize_target (ht_size t) (unat (roundUpToPowerOfTwo (of_nat newBucketCount))) of
        None \<Rightarrow> None
      | Some target \<Rightarrow>
          Some (if target = length (ht_buckets t) then t
                else t\<lparr>ht_buckets := fold (rehash_node target) (ht_nodes t) (replicate target [])\<rparr>))"

text \<open>
  \<open>resize\<close> returns on the argument it gets here; the branch for a call that does
  not return is never taken on a well-formed table.
\<close>

definition ht_growIfNeeded :: "hash_table \<Rightarrow> hash_table" where
  "ht_growIfNeeded t =
     (if over_load (ht_size t) (length (ht_buckets t))
      then (case ht_resize (length (ht_buckets t) * 2) t of Some t' \<Rightarrow> t' | None \<Rightarrow> t)
      else t)"

section \<open>Insertion\<close>

fun chain_update :: "string \<Rightarrow> (node \<Rightarrow> node) \<Rightarrow> node list \<Rightarrow> node list" where
  "chain_update key f [] = []"
| "chain_update key f (n # ns) = (if n_key n = key then f n # ns else n # chain_update key f ns)"

definition ht_put :: "string \<Rightarrow> string \<Rightarrow> hash_table \<Rightarrow> bool \<times> hash_table" where
  "ht_put key val t =
     (let t0 = (if ht_buckets t = []
                then t\<lparr>ht_buckets := replicate kDefaultBucketCount []\<rparr> else t);
          index = bucketIndexFor t0 key;
          chain = ht_buckets t0 ! index;
          updated = footprintEstimate key val
      in case List.find (\<lambda>n. n_key n = key) chain of
           Some n \<Rightarrow>
             (False,
              t0\<lparr>ht_buckets := (ht_buckets t0)[index := chain_update key
                   (\<lambda>n. n\<lparr>n_entry := (n_entry n)\<lparr>e_value := val, e_expiration := None\<rparr>,
                           n_footprint := updated\<rparr>) chain],
                 ht_entryBytes := ht_entryBytes t0 - n_footprint n + updated,
                 ht_lru := lruPushFront (n_addr n) (lruUnlink (n_addr n) (ht_lru t0))\<rparr>)
         | None \<Rightarrow>
             (let a = fresh_addr t0;
                  n = \<lparr>n_addr = a, n_entry = Entry key val, n_footprint = updated\<rparr>
              in (True,
                  ht_growIfNeeded
                   (t0\<lparr>ht_buckets := (ht_buckets t0)[index := n # chain],
                       ht_size := Suc (ht_size t0),
                       ht_entryBytes := ht_entryBytes t0 + n_footprint n,
                       ht_lru := lruPushFront a (lruInit a (ht_lru t0))\<rparr>))))"

text \<open>\<open>find(key)->expiration = x\<close>, the assignment Database makes through the pointer.\<close>

definition ht_set_expiration :: "string \<Rightarrow> time_point option \<Rightarrow> hash_table \<Rightarrow> hash_table" where
  "ht_set_expiration key x t =
     (if ht_buckets t = [] then t
      else let index = bucketIndexFor t key in
        t\<lparr>ht_buckets := (ht_buckets t)[index := chain_update key
             (\<lambda>n. n\<lparr>n_entry := (n_entry n)\<lparr>e_expiration := x\<rparr>\<rparr>) (ht_buckets t ! index)]\<rparr>)"

section \<open>Removal\<close>

text \<open>What \<open>remove\<close> and \<open>removeIf\<close> do once the victim is spliced out of its chain.\<close>

definition discard_node :: "node \<Rightarrow> hash_table \<Rightarrow> hash_table" where
  "discard_node n t =
     t\<lparr>ht_size := ht_size t - 1, ht_entryBytes := ht_entryBytes t - n_footprint n,
       ht_lru := lruUnlink (n_addr n) (ht_lru t)\<rparr>"

fun chain_remove :: "string \<Rightarrow> node list \<Rightarrow> node list" where
  "chain_remove key [] = []"
| "chain_remove key (n # ns) = (if n_key n = key then ns else n # chain_remove key ns)"

definition ht_remove :: "string \<Rightarrow> hash_table \<Rightarrow> bool \<times> hash_table" where
  "ht_remove key t =
     (if ht_buckets t = [] then (False, t)
      else let index = bucketIndexFor t key; chain = ht_buckets t ! index in
        case List.find (\<lambda>n. n_key n = key) chain of
          None \<Rightarrow> (False, t)
        | Some victim \<Rightarrow>
            (True, discard_node victim
                     (t\<lparr>ht_buckets := (ht_buckets t)[index := chain_remove key chain]\<rparr>)))"

definition ht_clear :: "hash_table \<Rightarrow> hash_table" where
  "ht_clear t =
     t\<lparr>ht_lru := lruClear (ht_lru t), ht_buckets := map (\<lambda>_. []) (ht_buckets t),
       ht_size := 0, ht_entryBytes := 0\<rparr>"

fun removeIf_chain ::
  "(entry \<Rightarrow> bool) \<Rightarrow> node list \<Rightarrow> hash_table \<Rightarrow> node list \<times> nat \<times> hash_table" where
  "removeIf_chain P [] t = ([], 0, t)"
| "removeIf_chain P (n # ns) t =
     (if P (n_entry n)
      then (case removeIf_chain P ns (discard_node n t) of (ns', r, t') \<Rightarrow> (ns', Suc r, t'))
      else (case removeIf_chain P ns t of (ns', r, t') \<Rightarrow> (n # ns', r, t')))"

fun removeIf_scan :: "(entry \<Rightarrow> bool) \<Rightarrow> nat list \<Rightarrow> hash_table \<Rightarrow> nat \<times> hash_table" where
  "removeIf_scan P [] t = (0, t)"
| "removeIf_scan P (i # is) t =
     (case removeIf_chain P (ht_buckets t ! i) t of (chain, r, t1) \<Rightarrow>
        (case removeIf_scan P is (t1\<lparr>ht_buckets := (ht_buckets t1)[i := chain]\<rparr>) of
           (r', t2) \<Rightarrow> (r + r', t2)))"

definition scan_range :: "nat \<Rightarrow> nat \<Rightarrow> nat \<Rightarrow> nat list" where
  "scan_range firstBucket toScan tot = map (\<lambda>offset. (firstBucket + offset) mod tot) [0..<toScan]"

definition ht_removeIf ::
  "nat \<Rightarrow> nat \<Rightarrow> (entry \<Rightarrow> bool) \<Rightarrow> hash_table \<Rightarrow> nat \<times> hash_table" where
  "ht_removeIf firstBucket bucketsToScan P t =
     (if ht_buckets t = [] \<or> bucketsToScan = 0 then (0, t)
      else let tot = length (ht_buckets t); toScan = min bucketsToScan tot
           in removeIf_scan P (scan_range firstBucket toScan tot) t)"

section \<open>Recency and eviction\<close>

definition ht_touch :: "string \<Rightarrow> hash_table \<Rightarrow> bool \<times> hash_table" where
  "ht_touch key t =
     (case ht_findNode key t of
        None \<Rightarrow> (False, t)
      | Some n \<Rightarrow>
          if lruHead (ht_lru t) = Some (n_addr n) then (True, t)
          else (True, t\<lparr>ht_lru := lruPushFront (n_addr n) (lruUnlink (n_addr n) (ht_lru t))\<rparr>))"

text \<open>A dangling tail pointer, excluded by the invariant, reads as an empty list.\<close>

definition ht_leastRecentKey :: "hash_table \<Rightarrow> string option" where
  "ht_leastRecentKey t =
     (case lruTail (ht_lru t) of None \<Rightarrow> None | Some a \<Rightarrow> map_option n_key (node_at t a))"

definition ht_mostRecentKey :: "hash_table \<Rightarrow> string option" where
  "ht_mostRecentKey t =
     (case lruHead (ht_lru t) of None \<Rightarrow> None | Some a \<Rightarrow> map_option n_key (node_at t a))"

definition ht_evictOldest :: "hash_table \<Rightarrow> string option \<times> hash_table" where
  "ht_evictOldest t =
     (case lruTail (ht_lru t) of
        None \<Rightarrow> (None, t)
      | Some a \<Rightarrow>
          (case node_at t a of
             None \<Rightarrow> (None, t)
           | Some n \<Rightarrow> (Some (n_key n), snd (ht_remove (n_key n) t))))"

section \<open>Observers\<close>

definition ht_memoryUsage :: "hash_table \<Rightarrow> nat" where
  "ht_memoryUsage t = ht_entryBytes t + length (ht_buckets t) * sizeof_ptr"

definition ht_keys :: "hash_table \<Rightarrow> string list" where
  "ht_keys t = map n_key (ht_nodes t)"

definition ht_keysWhere :: "(entry \<Rightarrow> bool) \<Rightarrow> hash_table \<Rightarrow> string list" where
  "ht_keysWhere P t = map n_key (filter (\<lambda>n. P (n_entry n)) (ht_nodes t))"

definition ht_entriesWhere :: "(entry \<Rightarrow> bool) \<Rightarrow> hash_table \<Rightarrow> entry list" where
  "ht_entriesWhere P t = map n_entry (filter (\<lambda>n. P (n_entry n)) (ht_nodes t))"

definition ht_loadFactor :: "hash_table \<Rightarrow> rat" where
  "ht_loadFactor t =
     (if ht_buckets t = [] then 0
      else rat_of_nat (ht_size t) / rat_of_nat (length (ht_buckets t)))"

definition ht_longestChain :: "hash_table \<Rightarrow> nat" where
  "ht_longestChain t = foldl (\<lambda>longest head. max longest (length head)) 0 (ht_buckets t)"

section \<open>Moving a table\<close>

definition ht_emptied :: "hash_table \<Rightarrow> hash_table" where
  "ht_emptied other =
     other\<lparr>ht_buckets := [], ht_size := 0, ht_entryBytes := 0, ht_lru := lruClear (ht_lru other)\<rparr>"

definition HashTable_move :: "hash_table \<Rightarrow> hash_table \<times> hash_table" where
  "HashTable_move other =
     (\<lparr>ht_buckets = ht_buckets other, ht_size = ht_size other,
       ht_entryBytes = ht_entryBytes other, ht_lru = ht_lru other\<rparr>,
      ht_emptied other)"

definition ht_move_assign :: "hash_table \<Rightarrow> hash_table \<Rightarrow> hash_table \<times> hash_table" where
  "ht_move_assign this other =
     ((ht_clear this)\<lparr>ht_buckets := ht_buckets other, ht_size := ht_size other,
        ht_entryBytes := ht_entryBytes other, ht_lru := ht_lru other\<rparr>,
      ht_emptied other)"

end
