(* ===== verification/VC_Rounding.thy ===== *)
theory VC_Rounding
  imports VC_HashTable
begin

text \<open>
  The bit-smearing \<open>HashTable::roundUpToPowerOfTwo\<close> against its specification, the
  least power of two that is not below the argument, and the masking of
  \<open>bucketIndexFor\<close> against the remainder.
\<close>

section \<open>Smearing the top bit downwards\<close>

definition smeared :: "nat \<Rightarrow> u64 \<Rightarrow> u64 \<Rightarrow> bool" where
  "smeared w m x \<longleftrightarrow> (\<forall>i. bit x i \<longleftrightarrow> (\<exists>d<w. bit m (i + d)))"

lemma smeared_1: "smeared 1 m m"
  by (simp add: smeared_def)

lemma smeared_double:
  assumes "smeared w m x" "w' = w + w"
  shows "smeared w' m (x OR drop_bit w x)"
proof -
  have "(\<exists>d<w. bit m (i + d)) \<or> (\<exists>d<w. bit m (w + i + d)) \<longleftrightarrow> (\<exists>d<w + w. bit m (i + d))"
    (is "?L \<longleftrightarrow> ?R") for i
  proof
    assume ?L
    then consider d where "d < w" "bit m (i + d)" | d where "d < w" "bit m (i + (w + d))"
      by (auto simp: ac_simps)
    then show ?R
    proof cases
      case 2
      then show ?thesis by (intro exI [of _ "w + d"]) simp
    qed (use trans_less_add1 in blast)
  next
    assume ?R
    then obtain d where d: "d < w + w" "bit m (i + d)" by auto
    show ?L
    proof (cases "d < w")
      case False
      with d have "d - w < w" "bit m (w + i + (d - w))" by auto
      then show ?thesis by blast
    qed (use d in auto)
  qed
  with assms show ?thesis
    by (simp add: smeared_def bit_or_iff bit_drop_bit_eq add.commute)
qed

text \<open>Smearing over the whole width leaves the mask of the bit length of the argument.\<close>

lemma smeared_mask:
  assumes "smeared 64 m x" "2 ^ k \<le> unat m" "unat m < 2 ^ Suc k"
  shows "x = mask (Suc k)"
proof (rule bit_word_eqI)
  have k: "k < 64"
  proof (rule ccontr)
    assume "\<not> k < 64"
    then have "(2::nat) ^ 64 \<le> 2 ^ k" by (intro power_increasing) auto
    moreover have "unat m < 2 ^ 64" using unsigned_less [of m] by simp
    ultimately show False using assms(2) by linarith
  qed
  have high: "\<not> bit m j" if "k < j" for j
  proof -
    have "unat m < 2 ^ j"
      using assms(3) that by (meson Suc_leI less_le_trans one_le_numeral power_increasing)
    then have "\<not> bit (unat m) j" by (simp add: bit_iff_odd)
    then show ?thesis by (auto simp: bit_unsigned_iff dest: bit_imp_le_length)
  qed
  have top: "bit m k"
  proof -
    have "unat m div 2 ^ k = 1"
      using assms(2,3) by (intro div_nat_eqI) auto
    then have "bit (unat m) k" by (simp add: bit_iff_odd)
    then show ?thesis by (simp add: bit_unsigned_iff)
  qed
  fix i
  show "bit x i \<longleftrightarrow> bit (mask (Suc k) :: u64) i"
  proof (cases "i \<le> k")
    case True
    then have "bit x i" using top k assms(1)
      by (auto simp: smeared_def intro!: exI [of _ "k - i"])
    with True k show ?thesis by (simp add: bit_mask_iff)
  next
    case False
    then show ?thesis using high assms(1)
      by (auto simp: smeared_def bit_mask_iff)
  qed
qed

lemma roundUp_smeared:
  "1 < n \<Longrightarrow> \<exists>x. smeared 64 (n - 1) x \<and> roundUpToPowerOfTwo n = x + 1"
proof -
  assume "1 < n"
  let ?f = "\<lambda>w x. x OR drop_bit w x :: u64"
  let ?x = "?f 32 (?f 16 (?f 8 (?f 4 (?f 2 (?f 1 (n - 1))))))"
  have "smeared 2 (n - 1) (?f 1 (n - 1))"
    by (rule smeared_double [OF smeared_1]) simp
  then have "smeared 4 (n - 1) (?f 2 (?f 1 (n - 1)))"
    by (rule smeared_double) simp
  then have "smeared 8 (n - 1) (?f 4 (?f 2 (?f 1 (n - 1))))"
    by (rule smeared_double) simp
  then have "smeared 16 (n - 1) (?f 8 (?f 4 (?f 2 (?f 1 (n - 1)))))"
    by (rule smeared_double) simp
  then have "smeared 32 (n - 1) (?f 16 (?f 8 (?f 4 (?f 2 (?f 1 (n - 1))))))"
    by (rule smeared_double) simp
  then have "smeared 64 (n - 1) ?x"
    by (rule smeared_double) simp
  with \<open>1 < n\<close> show ?thesis
    by (intro exI [of _ ?x]) (auto simp add: roundUpToPowerOfTwo_def Let_def)
qed

lemma pow2_bracket: "0 < m \<Longrightarrow> \<exists>k. 2 ^ k \<le> m \<and> m < (2::nat) ^ Suc k"
  using ex_power_ivl1 [of 2 m] by auto

lemma roundUp_bracket:
  assumes "1 < n"
  obtains k where "2 ^ k < unat n" "unat n \<le> 2 ^ Suc k" "roundUpToPowerOfTwo n = 2 ^ Suc k"
proof -
  have m: "unat (n - 1) = unat n - 1"
    using unat_sub [of 1 n] assms by simp
  then have "0 < unat (n - 1)" using assms by (simp add: word_less_nat_alt)
  then obtain k where k: "2 ^ k \<le> unat (n - 1)" "unat (n - 1) < 2 ^ Suc k"
    using pow2_bracket by blast
  obtain x where x: "smeared 64 (n - 1) x" "roundUpToPowerOfTwo n = x + 1"
    using roundUp_smeared [OF assms] by auto
  then have "roundUpToPowerOfTwo n = 2 ^ Suc k"
    using smeared_mask [OF x(1) k] by (simp add: mask_eq_decr_exp)
  moreover have "2 ^ k < unat n" "unat n \<le> 2 ^ Suc k"
    using k m assms by (auto simp: word_less_nat_alt)
  ultimately show thesis by (intro that)
qed

lemma roundUp_le1: "n \<le> 1 \<Longrightarrow> roundUpToPowerOfTwo n = 1"
  by (simp add: roundUpToPowerOfTwo_def)

lemma unat_pow2: "unat (2 ^ k :: u64) = 2 ^ k" if "k < 64"
proof -
  have "(2::nat) ^ k < 2 ^ 64" using that by (intro power_strict_increasing) auto
  then have "unat (of_nat (2 ^ k) :: u64) = 2 ^ k"
    unfolding unat_of_nat by simp
  then show ?thesis by simp
qed

lemma pow2_le_iff: "(2::nat) ^ i \<le> 2 ^ j \<longleftrightarrow> i \<le> j"
  by simp

lemma roundUp_least:
  assumes "unat n \<le> 2 ^ 63"
  shows "is_pow2 (unat (roundUpToPowerOfTwo n)) \<and> unat n \<le> unat (roundUpToPowerOfTwo n) \<and>
    (\<forall>p. is_pow2 p \<and> unat n \<le> p \<longrightarrow> unat (roundUpToPowerOfTwo n) \<le> p)"
proof (cases "n \<le> 1")
  case True
  then have "unat n \<le> 1" by (simp add: word_le_nat_alt)
  with True show ?thesis by (auto simp: roundUp_le1 dest: is_pow2_pos)
next
  case False
  then obtain k where k: "2 ^ k < unat n" "unat n \<le> 2 ^ Suc k"
      "roundUpToPowerOfTwo n = 2 ^ Suc k"
    using roundUp_bracket [of n] by (auto simp: not_le)
  have "(2::nat) ^ k < 2 ^ 63" using k(1) assms by linarith
  then have "k < 63" by (rule power_less_imp_less_exp [rotated]) simp
  then have u: "unat (roundUpToPowerOfTwo n) = 2 ^ Suc k"
    using unat_pow2 [of "Suc k"] k(3) by simp
  have "2 ^ Suc k \<le> p" if p: "is_pow2 p" "unat n \<le> p" for p
  proof -
    from p(1) obtain j where j: "p = 2 ^ j" by (auto simp: is_pow2_def)
    with k(1) p(2) have "(2::nat) ^ k < 2 ^ j" by linarith
    then have "k < j" by (rule power_less_imp_less_exp [rotated]) simp
    then show ?thesis unfolding j pow2_le_iff by simp
  qed
  with k(2) u show ?thesis by (metis is_pow2_I)
qed

lemma roundUp_overflow: "2 ^ 63 < unat n \<Longrightarrow> roundUpToPowerOfTwo n = 0"
proof -
  assume n: "2 ^ 63 < unat n"
  then have "1 < n" by (simp add: word_less_nat_alt)
  then obtain k where k: "2 ^ k < unat n" "unat n \<le> 2 ^ Suc k"
      "roundUpToPowerOfTwo n = 2 ^ Suc k"
    using roundUp_bracket [of n] by blast
  have "(2::nat) ^ 63 < 2 ^ Suc k" using n k(2) by linarith
  then have "63 < Suc k" by (rule power_less_imp_less_exp [rotated]) simp
  then have "(2 ^ Suc k :: u64) = 0" unfolding exp_eq_zero_iff by simp
  then show ?thesis using k(3) by simp
qed

text \<open>Rounding what the table itself asks for never yields zero buckets.\<close>

lemma roundUp_pow2:
  "is_pow2 (unat (roundUpToPowerOfTwo (of_nat (2 ^ k))))"
proof (cases "k < 64")
  case True
  then have "(2::nat) ^ k \<le> 2 ^ 63" by (intro power_increasing) auto
  moreover have "unat (of_nat (2 ^ k) :: u64) = 2 ^ k"
    using unat_pow2 [OF True] by simp
  ultimately show ?thesis using roundUp_least [of "of_nat (2 ^ k)"] by auto
next
  case False
  then have "(of_nat (2 ^ k) :: u64) = 0" by simp
  then show ?thesis by (simp only: roundUp_le1 word_zero_le unat_1 is_pow2_1)
qed

section \<open>Bucket selection\<close>

lemma bucketIndex_mod: "is_pow2 n \<Longrightarrow> bucketIndex n key = unat (hashKey key) mod n"
  by (simp add: bucketIndex_def mask_pow2_eq_mod)

lemma bucketIndex_less: "is_pow2 n \<Longrightarrow> bucketIndex n key < n"
  by (simp add: bucketIndex_def mask_pow2_less)

end
