(* ===== verification/VC_HashTable_Inv.thy ===== *)
theory VC_HashTable_Inv
  imports VC_Rounding
begin

text \<open>
  The representation invariant of the hash table and what every operation does
  to it. \<open>ht_rep t ns\<close> says that the table \<open>t\<close> is well formed and that its nodes,
  listed from the most to the least recently used, are \<open>ns\<close>. Every operation is
  shown to implement a list operation on \<open>ns\<close>.
\<close>

section \<open>Invariant\<close>

definition chains_ok :: "node list list \<Rightarrow> bool" where
  "chains_ok bs \<longleftrightarrow>
     (\<forall>i<length bs. \<forall>n\<in>set (bs ! i). bucketIndex (length bs) (n_key n) = i)"

definition ht_rep :: "hash_table \<Rightarrow> node list \<Rightarrow> bool" where
  "ht_rep t ns \<longleftrightarrow>
     (ht_buckets t = [] \<or> is_pow2 (length (ht_buckets t))) \<and>
     chains_ok (ht_buckets t) \<and>
     mset (ht_nodes t) = mset ns \<and>
     distinct (map n_key ns) \<and>
     ht_size t = length ns \<and>
     (\<forall>n\<in>set ns. n_footprint n = footprintEstimate (n_key n) (e_value (n_entry n))) \<and>
     ht_entryBytes t = sum_list (map n_footprint ns) \<and>
     lru_rel (ht_lru t) (map n_addr ns) \<and>
     \<not> over_load (ht_size t) (length (ht_buckets t))"

definition ht_inv :: "hash_table \<Rightarrow> bool" where
  "ht_inv t \<longleftrightarrow> (\<exists>ns. ht_rep t ns)"

text \<open>
  The abstract content of a table: its entries, most recently used first, found
  by walking the recency list from its head.
\<close>

definition ht_abs :: "hash_table \<Rightarrow> entry list" where
  "ht_abs t = map (\<lambda>a. n_entry (the (node_at t a)))
     (lru_walk (ht_size t) (ht_lru t) (lruHead (ht_lru t)))"

lemma over_load_iff: "over_load sz n \<longleftrightarrow> 3 * n < 4 * sz"
proof -
  have "over_load sz n \<longleftrightarrow> rat_of_nat (3 * n) < rat_of_nat (4 * sz)"
    by (auto simp: over_load_def kMaxLoadFactor_def field_simps)
  then show ?thesis by (simp only: of_nat_less_iff)
qed

lemma ht_repD:
  assumes "ht_rep t ns"
  shows "set (ht_nodes t) = set ns" "length (ht_nodes t) = length ns"
    and "distinct (map n_key ns)" "distinct (map n_addr ns)" "distinct ns"
    and "ht_size t = length ns" "ht_entryBytes t = sum_list (map n_footprint ns)"
    and "lru_rel (ht_lru t) (map n_addr ns)" "chains_ok (ht_buckets t)"
    and "mset (ht_nodes t) = mset ns" "\<not> over_load (ht_size t) (length (ht_buckets t))"
proof -
  have m: "mset (ht_nodes t) = mset ns" using assms by (simp add: ht_rep_def)
  show "set (ht_nodes t) = set ns" "length (ht_nodes t) = length ns"
    using mset_eq_setD [OF m] mset_eq_length [OF m] by simp_all
  show "distinct (map n_addr ns)"
    using assms by (auto simp: ht_rep_def dest: lru_rel_distinct)
qed (use assms in \<open>auto simp: ht_rep_def distinct_map\<close>)

lemma find_the_one:
  assumes "x \<in> set xs" "P x" "\<And>y. y \<in> set xs \<Longrightarrow> P y \<Longrightarrow> y = x"
  shows "List.find P xs = Some x"
proof (cases "List.find P xs")
  case None
  with assms(1,2) show ?thesis by (auto simp: find_None_iff)
next
  case (Some y)
  then have "y \<in> set xs" "P y" by (auto simp: find_Some_iff)
  then have "y = x" by (rule assms(3))
  with Some show ?thesis by simp
qed

lemma find_unique:
  assumes "distinct (map f xs)" "x \<in> set xs"
  shows "List.find (\<lambda>y. f y = f x) xs = Some x"
  using assms by (intro find_the_one) (auto simp: distinct_map inj_on_def)

lemma find_unique_mset:
  assumes "mset xs = mset ys" "distinct (map f ys)"
  shows "List.find (\<lambda>y. f y = k) xs = List.find (\<lambda>y. f y = k) ys"
proof (cases "\<exists>x\<in>set ys. f x = k")
  case True
  then obtain x where x: "x \<in> set ys" "k = f x" by auto
  have "inj_on f (set ys)" "set xs = set ys"
    using assms mset_eq_setD [OF assms(1)] by (simp_all add: distinct_map)
  then have "List.find (\<lambda>y. f y = f x) xs = Some x"
    using x by (intro find_the_one) (auto simp: inj_on_def)
  then show ?thesis using find_unique [OF assms(2) x(1)] x(2) by simp
next
  case False
  then have "List.find (\<lambda>y. f y = k) xs = None" "List.find (\<lambda>y. f y = k) ys = None"
    using mset_eq_setD [OF assms(1)] by (auto simp: find_None_iff)
  then show ?thesis by simp
qed

lemma node_at_rep:
  assumes "ht_rep t ns" "n \<in> set ns"
  shows "node_at t (n_addr n) = Some n"
  using assms find_unique_mset [of "ht_nodes t" ns n_addr "n_addr n"] find_unique [of n_addr ns n]
  by (simp add: node_at_def ht_repD)

lemma ht_abs_rep: "ht_rep t ns \<Longrightarrow> ht_abs t = map n_entry ns"
proof -
  assume rep: "ht_rep t ns"
  then have "lru_walk (ht_size t) (ht_lru t) (lruHead (ht_lru t)) = map n_addr ns"
    by (intro lru_walk_rel) (auto simp: ht_repD)
  with rep show ?thesis by (simp add: ht_abs_def node_at_rep)
qed

lemma ht_invE:
  assumes "ht_inv t"
  obtains ns where "ht_rep t ns" "ht_abs t = map n_entry ns"
  using assms by (auto simp: ht_inv_def ht_abs_rep)

lemma ht_rep_inv: "ht_rep t ns \<Longrightarrow> ht_inv t"
  by (auto simp: ht_inv_def)

section \<open>Lookup\<close>

lemma in_chain:
  assumes "chains_ok bs" "is_pow2 (length bs)" "n \<in> set (concat bs)"
  shows "n \<in> set (bs ! bucketIndex (length bs) (n_key n))"
proof -
  from assms(3) obtain i where "i < length bs" "n \<in> set (bs ! i)"
    by (auto simp: in_set_conv_nth [of _ bs])
  with assms(1) show ?thesis by (auto simp: chains_ok_def)
qed

lemma chain_in_nodes: "i < length bs \<Longrightarrow> n \<in> set (bs ! i) \<Longrightarrow> n \<in> set (concat bs)"
  by (auto intro: nth_mem)

lemma find_chain:
  assumes rep: "ht_rep t ns" and ne: "ht_buckets t \<noteq> []"
  shows "List.find (\<lambda>n. n_key n = k) (ht_buckets t ! bucketIndexFor t k) =
    List.find (\<lambda>n. n_key n = k) ns"
proof -
  let ?c = "ht_buckets t ! bucketIndexFor t k"
  have pow2: "is_pow2 (length (ht_buckets t))" using rep ne by (simp add: ht_rep_def)
  then have i: "bucketIndexFor t k < length (ht_buckets t)"
    by (simp add: bucketIndexFor_def bucketIndex_less)
  have sub: "set ?c \<subseteq> set ns"
    using chain_in_nodes [OF i] ht_repD(1) [OF rep] by blast
  show ?thesis
  proof (cases "\<exists>n\<in>set ns. n_key n = k")
    case True
    then obtain n where n: "n \<in> set ns" "n_key n = k" by auto
    then have inc: "n \<in> set ?c"
      using in_chain [OF ht_repD(9) [OF rep] pow2, of n] ht_repD(1) [OF rep]
      by (auto simp: bucketIndexFor_def)
    have "n' = n" if "n' \<in> set ?c" "n_key n' = k" for n'
      using that n sub ht_repD(3) [OF rep] by (auto simp: distinct_map inj_on_def)
    then have "List.find (\<lambda>n. n_key n = k) ?c = Some n"
      using inc n(2) by (intro find_the_one)
    then show ?thesis using find_unique [OF ht_repD(3) [OF rep] n(1)] n(2) by simp
  next
    case False
    with sub have "List.find (\<lambda>n. n_key n = k) ?c = None" "List.find (\<lambda>n. n_key n = k) ns = None"
      by (auto simp: find_None_iff)
    then show ?thesis by simp
  qed
qed

lemma rep_empty_buckets: "ht_rep t ns \<Longrightarrow> ht_buckets t = [] \<Longrightarrow> ns = []"
  using ht_repD(2) by fastforce

lemma ht_findNode_rep: "ht_rep t ns \<Longrightarrow> ht_findNode k t = List.find (\<lambda>n. n_key n = k) ns"
  by (cases "ht_buckets t = []") (auto simp: ht_findNode_def find_chain dest: rep_empty_buckets)

lemma ht_find_rep:
  "ht_rep t ns \<Longrightarrow> ht_find k t = map_option n_entry (List.find (\<lambda>n. n_key n = k) ns)"
  by (cases "ht_buckets t = []") (auto simp: ht_find_def find_chain dest: rep_empty_buckets)

lemma find_map: "List.find P (map f xs) = map_option f (List.find (P \<circ> f) xs)"
  by (induction xs) auto

text \<open>A lookup is the search for the key in the abstract entry list.\<close>

lemma ht_find_abs: "ht_inv t \<Longrightarrow> ht_find k t = List.find (\<lambda>e. e_key e = k) (ht_abs t)"
  by (auto elim!: ht_invE simp: ht_find_rep find_map comp_def)

end
