(* ===== verification/VC_HashTable_Ops.thy ===== *)
theory VC_HashTable_Ops
  imports VC_HashTable_Inv
begin

text \<open>
  Every operation of the hash table on the representation: growth, insertion,
  assignment through \<open>find\<close>, removal, sweeping, promotion and eviction.
\<close>

section \<open>Chains\<close>

lemma chains_ok_update:
  assumes "chains_ok bs" "\<And>n. n \<in> set c \<Longrightarrow> bucketIndex (length bs) (n_key n) = i"
  shows "chains_ok (bs[i := c])"
  unfolding chains_ok_def
proof (intro allI impI ballI)
  fix j n assume "j < length (bs[i := c])" "n \<in> set (bs[i := c] ! j)"
  with assms show "bucketIndex (length (bs[i := c])) (n_key n) = j"
    by (cases "i = j") (auto simp: chains_ok_def)
qed

lemma find_SomeE:
  assumes "List.find (\<lambda>n. f n = k) ns = Some n" "distinct (map f ns)"
  obtains as bs where "ns = as @ n # bs" "f n = k" "filter (\<lambda>m. f m \<noteq> k) ns = as @ bs"
proof -
  from assms(1) have n: "n \<in> set ns" "f n = k" by (auto simp: find_Some_iff)
  then obtain as bs where ns: "ns = as @ n # bs" by (auto dest: split_list)
  with assms(2) n have "k \<notin> f ` set as" "k \<notin> f ` set bs" by auto
  then have "filter (\<lambda>m. f m \<noteq> k) as = as" "filter (\<lambda>m. f m \<noteq> k) bs = bs"
    by (auto simp: filter_id_conv)
  with ns n show thesis by (intro that [of as bs]) auto
qed

lemma mset_chain_update:
  "List.find (\<lambda>n. n_key n = k) c = Some n \<Longrightarrow>
   mset (chain_update k f c) + {#n#} = mset c + {#f n#}"
  by (induction c) (auto split: if_splits simp: add_mset_commute)

lemma set_chain_update: "set (chain_update k f c) \<subseteq> set c \<union> f ` {n \<in> set c. n_key n = k}"
  by (induction c) auto

lemma mset_chain_remove:
  "List.find (\<lambda>n. n_key n = k) c = Some n \<Longrightarrow> mset (chain_remove k c) + {#n#} = mset c"
  by (induction c) (auto split: if_splits simp: add_mset_commute)

lemma set_chain_remove: "set (chain_remove k c) \<subseteq> set c"
  by (induction c) auto

lemma chains_okD: "chains_ok bs \<Longrightarrow> i < length bs \<Longrightarrow> n \<in> set (bs ! i) \<Longrightarrow>
  bucketIndex (length bs) (n_key n) = i"
  by (simp add: chains_ok_def)

text \<open>The bucket of a key: in range, and searching it is searching the representation.\<close>

lemma rep_bucket:
  assumes "ht_rep t ns" "ht_buckets t \<noteq> []"
  shows "bucketIndexFor t k < length (ht_buckets t)" "is_pow2 (length (ht_buckets t))"
  using assms by (auto simp: ht_rep_def bucketIndexFor_def bucketIndex_less)

lemma rep_key_inj:
  assumes "ht_rep t ns" "m \<in> set ns" "n \<in> set ns" "n_key m = n_key n"
  shows "m = n"
proof -
  have "inj_on n_key (set ns)" using ht_repD(3) [OF assms(1)] by (simp add: distinct_map)
  from inj_onD [OF this assms(4,2,3)] show ?thesis .
qed

section \<open>Construction and growth\<close>

lemma lru_rel_Nil_rep:
  assumes "bs = [] \<or> is_pow2 (length bs)" "concat bs = []" "lru_rel s []"
  shows "ht_rep \<lparr>ht_buckets = bs, ht_size = 0, ht_entryBytes = 0, ht_lru = s\<rparr> []"
proof -
  have "bs ! i = []" if "i < length bs" for i
    using assms(2) nth_mem [OF that] by simp
  then have "chains_ok bs" by (simp add: chains_ok_def)
  with assms show ?thesis by (simp add: ht_rep_def over_load_iff)
qed

lemma HashTable_rep: "ht_rep (HashTable n) []"
proof -
  let ?r = "unat (roundUpToPowerOfTwo (of_nat n))"
  have "?r = 0 \<or> is_pow2 ?r"
    using roundUp_least [of "of_nat n"] roundUp_overflow [of "of_nat n"]
    by (cases "unat (of_nat n :: u64) \<le> 2 ^ 63") (simp_all add: not_le)
  then show ?thesis
    unfolding HashTable_def by (intro lru_rel_Nil_rep) (auto simp: lru_rel_empty)
qed

lemma resize_target_returns:
  assumes "is_pow2 target"
  shows "\<exists>r. resize_target sz target = Some r \<and> is_pow2 r \<and> target \<le> r \<and> \<not> over_load sz r"
  using assms
proof (induction "4 * sz - 3 * target" arbitrary: target rule: less_induct)
  case less
  show ?case
  proof (cases "over_load sz target")
    case True
    then have "4 * sz - 3 * (target * 2) < 4 * sz - 3 * target"
      using is_pow2_pos [OF less.prems] by (simp add: over_load_iff)
    moreover have "is_pow2 (target * 2)"
      using is_pow2_double [OF less.prems] by (simp add: mult.commute)
    ultimately obtain r where "resize_target sz (target * 2) = Some r" "is_pow2 r"
        "target * 2 \<le> r" "\<not> over_load sz r"
      using less.hyps by blast
    with True show ?thesis by (auto simp: resize_target.simps [of sz target])
  next
    case False
    with less.prems show ?thesis by (auto simp: resize_target.simps [of sz target])
  qed
qed

text \<open>From zero buckets the loop never ends: doubling zero makes no progress.\<close>

lemma resize_target_zero:
  assumes "0 < sz"
  shows "resize_target sz 0 = None"
proof (rule ccontr)
  assume "resize_target sz 0 \<noteq> None"
  then obtain r where ret: "resize_target sz 0 = Some r" by auto
  have "\<not> (target = 0 \<and> 0 < s)" if "resize_target s target = Some r" for s target r
  proof (rule resize_target.raw_induct [where P = "\<lambda>s target r. \<not> (target = 0 \<and> 0 < s)", OF _ that])
    fix f s target r
    assume IH: "\<And>s target r. f s target = Some r \<Longrightarrow> \<not> (target = 0 \<and> 0 < s)"
      and eq: "(if over_load s target then f s (target * 2) else Some target) = Some r"
    show "\<not> (target = 0 \<and> 0 < (s::nat))"
    proof
      assume "target = 0 \<and> 0 < s"
      with eq IH [of s 0 r] show False by (simp add: over_load_iff)
    qed
  qed
  from this [OF ret] assms show False by simp
qed

lemma rehash_fold:
  assumes "is_pow2 target" "length bs = target" "chains_ok bs"
  shows "length (fold (rehash_node target) ns bs) = target \<and>
    chains_ok (fold (rehash_node target) ns bs) \<and>
    mset (concat (fold (rehash_node target) ns bs)) = mset ns + mset (concat bs)"
  using assms(2,3)
proof (induction ns arbitrary: bs)
  case (Cons n ns)
  let ?i = "bucketIndex target (n_key n)"
  have i: "?i < length bs" using bucketIndex_less [OF assms(1)] Cons.prems by simp
  have "chains_ok (bs[?i := n # bs ! ?i])"
    using Cons.prems i by (intro chains_ok_update) (auto simp: chains_okD)
  moreover have "mset (concat (bs[?i := n # bs ! ?i])) = add_mset n (mset (concat bs))"
    using mset_concat_update [OF i, of "n # bs ! ?i"] by simp
  ultimately show ?case
    using Cons.IH [of "bs[?i := n # bs ! ?i]"] Cons.prems
    by (simp add: rehash_node_def Let_def)
qed simp

lemma chains_ok_replicate: "chains_ok (replicate n [])"
  by (simp add: chains_ok_def)

text \<open>
  What holds in the middle of an insertion, before the load factor is restored.
\<close>

definition ht_rep_load :: "hash_table \<Rightarrow> node list \<Rightarrow> bool" where
  "ht_rep_load t ns \<longleftrightarrow>
     is_pow2 (length (ht_buckets t)) \<and> chains_ok (ht_buckets t) \<and>
     mset (ht_nodes t) = mset ns \<and> distinct (map n_key ns) \<and> ht_size t = length ns \<and>
     (\<forall>n\<in>set ns. n_footprint n = footprintEstimate (n_key n) (e_value (n_entry n))) \<and>
     ht_entryBytes t = sum_list (map n_footprint ns) \<and>
     lru_rel (ht_lru t) (map n_addr ns)"

lemma ht_resize_rep:
  assumes "ht_rep_load t ns" "is_pow2 (unat (roundUpToPowerOfTwo (of_nat n)))"
  shows "\<exists>t'. ht_resize n t = Some t' \<and> ht_rep t' ns \<and> ht_lru t' = ht_lru t \<and>
    unat (roundUpToPowerOfTwo (of_nat n)) \<le> length (ht_buckets t')"
proof -
  let ?r = "unat (roundUpToPowerOfTwo (of_nat n))"
  obtain target where target: "resize_target (ht_size t) ?r = Some target"
      "is_pow2 target" "?r \<le> target" "\<not> over_load (ht_size t) target"
    using resize_target_returns [OF assms(2)] by blast
  show ?thesis
  proof (cases "target = length (ht_buckets t)")
    case True
    with target assms(1) show ?thesis
      by (auto simp: ht_resize_def ht_rep_def ht_rep_load_def)
  next
    case False
    have "chains_ok (replicate target [])" by (rule chains_ok_replicate)
    with target assms(1) False
      rehash_fold [OF target(2), of "replicate target []" "ht_nodes t"]
    show ?thesis by (simp add: ht_resize_def ht_rep_def ht_rep_load_def)
  qed
qed

lemma roundUp_double_pow2:
  "is_pow2 n \<Longrightarrow> is_pow2 (unat (roundUpToPowerOfTwo (of_nat (n * 2))))"
  by (metis is_pow2_def is_pow2_double mult.commute roundUp_pow2)

lemma ht_growIfNeeded_rep:
  assumes "ht_rep_load t ns"
  shows "ht_rep (ht_growIfNeeded t) ns" "ht_lru (ht_growIfNeeded t) = ht_lru t"
proof -
  have "is_pow2 (unat (roundUpToPowerOfTwo (of_nat (length (ht_buckets t) * 2))))"
    using assms by (intro roundUp_double_pow2) (simp add: ht_rep_load_def)
  then obtain t' where "ht_resize (length (ht_buckets t) * 2) t = Some t'" "ht_rep t' ns"
      "ht_lru t' = ht_lru t"
    using ht_resize_rep [OF assms] by blast
  then show "ht_rep (ht_growIfNeeded t) ns" "ht_lru (ht_growIfNeeded t) = ht_lru t"
    using assms by (auto simp: ht_growIfNeeded_def ht_rep_def ht_rep_load_def)
qed

section \<open>Insertion\<close>

lemma foldr_max_ge: "x \<in> set xs \<Longrightarrow> x \<le> foldr max xs (0::nat)"
  by (induction xs) auto

lemma fresh_addr_rep: "ht_rep t ns \<Longrightarrow> fresh_addr t \<notin> n_addr ` set ns"
proof
  assume "ht_rep t ns" "fresh_addr t \<in> n_addr ` set ns"
  then have "fresh_addr t \<in> set (map n_addr (ht_nodes t))"
    unfolding set_map by (simp only: ht_repD(1))
  from foldr_max_ge [OF this] show False by (simp add: fresh_addr_def)
qed

text \<open>A table that lost its bucket array gets the default one first.\<close>

definition with_buckets :: "hash_table \<Rightarrow> hash_table" where
  "with_buckets t =
     (if ht_buckets t = [] then t\<lparr>ht_buckets := replicate kDefaultBucketCount []\<rparr> else t)"

lemma with_buckets_rep:
  assumes "ht_rep t ns"
  shows "ht_rep (with_buckets t) ns" "ht_buckets (with_buckets t) \<noteq> []"
proof -
  have "is_pow2 kDefaultBucketCount"
    using is_pow2_I [of 4] by (simp add: kDefaultBucketCount_def)
  moreover have "kDefaultBucketCount \<noteq> 0" by (simp add: kDefaultBucketCount_def)
  ultimately show "ht_rep (with_buckets t) ns" "ht_buckets (with_buckets t) \<noteq> []"
    using assms rep_empty_buckets [OF assms]
    by (auto simp: ht_rep_def with_buckets_def chains_ok_replicate over_load_iff)
qed

text \<open>Replacing one node of a chain, at the same address and under the same key.\<close>

lemma chain_update_rep:
  assumes rep: "ht_rep t (as @ n # bs)" and ne: "ht_buckets t \<noteq> []"
    and f: "n_key (f n) = n_key n"
  shows "let i = bucketIndexFor t (n_key n);
             bkts = (ht_buckets t)[i := chain_update (n_key n) f (ht_buckets t ! i)]
         in length bkts = length (ht_buckets t) \<and> chains_ok bkts \<and>
            mset (concat bkts) = mset (as @ f n # bs)"
proof -
  let ?i = "bucketIndexFor t (n_key n)"
  let ?c = "ht_buckets t ! ?i"
  have i: "?i < length (ht_buckets t)" using rep_bucket [OF rep ne] by simp
  have find: "List.find (\<lambda>m. n_key m = n_key n) ?c = Some n"
    using find_chain [OF rep ne] find_unique [OF ht_repD(3) [OF rep], of n] by simp
  have only: "m = n" if "m \<in> set ?c" "n_key m = n_key n" for m
    using that chain_in_nodes [OF i, of m] rep_key_inj [OF rep, of m n]
    by (simp only: ht_repD(1) [OF rep]) simp
  have "chains_ok ((ht_buckets t)[?i := chain_update (n_key n) f ?c])"
    using ht_repD(9) [OF rep]
  proof (rule chains_ok_update)
    fix m assume "m \<in> set (chain_update (n_key n) f ?c)"
    with set_chain_update [of "n_key n" f ?c] only
    have "m \<in> set ?c \<or> n_key m = n_key n" using f by auto
    then show "bucketIndex (length (ht_buckets t)) (n_key m) = ?i"
      using chains_okD [OF ht_repD(9) [OF rep] i] by (auto simp: bucketIndexFor_def)
  qed
  moreover have "mset (concat ((ht_buckets t)[?i := chain_update (n_key n) f ?c])) + {#n#} =
      mset (as @ f n # bs) + {#n#}"
  proof -
    have "mset (concat ((ht_buckets t)[?i := chain_update (n_key n) f ?c])) + mset ?c + {#n#} =
        mset (ht_nodes t) + (mset (chain_update (n_key n) f ?c) + {#n#})"
      using mset_concat_update [OF i] by simp
    also have "\<dots> = mset (as @ f n # bs) + {#n#} + mset ?c"
      using mset_chain_update [OF find, of f] ht_repD(10) [OF rep] by simp
    finally show ?thesis by simp
  qed
  ultimately show ?thesis by (simp add: Let_def)
qed

lemma ht_put_hit:
  assumes rep: "ht_rep t (as @ n # bs)" and k: "n_key n = k"
  shows "\<exists>t' n'. ht_put k v t = (False, t') \<and> ht_rep t' (n' # as @ bs) \<and> n_entry n' = Entry k v"
proof -
  define t0 where "t0 = with_buckets t"
  have rep0: "ht_rep t0 (as @ n # bs)" and ne: "ht_buckets t0 \<noteq> []"
    using with_buckets_rep [OF rep] by (simp_all add: t0_def)
  let ?i = "bucketIndexFor t0 k"
  let ?f = "\<lambda>n. n\<lparr>n_entry := (n_entry n)\<lparr>e_value := v, e_expiration := None\<rparr>,
                 n_footprint := footprintEstimate k v\<rparr>"
  have find: "List.find (\<lambda>m. n_key m = k) (ht_buckets t0 ! ?i) = Some n"
    using find_chain [OF rep0 ne, of k] find_unique [OF ht_repD(3) [OF rep0], of n] k by simp
  define t' where "t' = t0\<lparr>ht_buckets := (ht_buckets t0)[?i := chain_update k ?f (ht_buckets t0 ! ?i)],
     ht_entryBytes := ht_entryBytes t0 - n_footprint n + footprintEstimate k v,
     ht_lru := lruPushFront (n_addr n) (lruUnlink (n_addr n) (ht_lru t0))\<rparr>"
  have "ht_put k v t = (False, t')"
    using find by (simp add: ht_put_def t'_def Let_def flip: with_buckets_def t0_def)
  moreover have "lru_rel (ht_lru t') (map n_addr (?f n # as @ bs))"
    using ht_repD(8) [OF rep0] lru_rel_unlink_split [of _ "map n_addr as" "n_addr n" "map n_addr bs"]
      ht_repD(4) [OF rep0]
    by (auto simp: t'_def intro!: lru_rel_push)
  moreover have "mset (concat (ht_buckets t')) = mset (as @ ?f n # bs)"
    "chains_ok (ht_buckets t')" "length (ht_buckets t') = length (ht_buckets t0)"
    using chain_update_rep [OF rep0 ne, of ?f] k by (simp_all add: t'_def Let_def)
  moreover have "n_entry (?f n) = Entry k v"
    using k by (simp add: Entry_def)
  ultimately show ?thesis
    using rep0 k by (intro exI [of _ t'] exI [of _ "?f n"]) (auto simp: ht_rep_def t'_def)
qed

lemma ht_put_miss:
  assumes rep: "ht_rep t ns" and k: "k \<notin> n_key ` set ns"
  shows "\<exists>t' n'. ht_put k v t = (True, t') \<and> ht_rep t' (n' # ns) \<and> n_entry n' = Entry k v"
proof -
  define t0 where "t0 = with_buckets t"
  have rep0: "ht_rep t0 ns" and ne: "ht_buckets t0 \<noteq> []"
    using with_buckets_rep [OF rep] by (simp_all add: t0_def)
  let ?i = "bucketIndexFor t0 k"
  let ?c = "ht_buckets t0 ! ?i"
  note i = rep_bucket(1) [OF rep0 ne, of k] rep_bucket(2) [OF rep0 ne]
  define a where "a = fresh_addr t0"
  define n where "n = \<lparr>n_addr = a, n_entry = Entry k v, n_footprint = footprintEstimate k v\<rparr>"
  define t1 where "t1 = t0\<lparr>ht_buckets := (ht_buckets t0)[?i := n # ?c],
     ht_size := Suc (ht_size t0), ht_entryBytes := ht_entryBytes t0 + n_footprint n,
     ht_lru := lruPushFront a (lruInit a (ht_lru t0))\<rparr>"
  have "List.find (\<lambda>m. n_key m = k) ?c = None"
    using find_chain [OF rep0 ne, of k] k by (auto simp: find_None_iff)
  then have put: "ht_put k v t = (True, ht_growIfNeeded t1)"
    by (simp add: ht_put_def t1_def n_def a_def Let_def flip: with_buckets_def t0_def)
  have "a \<notin> set (map n_addr ns)" using fresh_addr_rep [OF rep0] by (simp add: a_def)
  then have "lru_rel (ht_lru t1) (map n_addr (n # ns))"
    using ht_repD(8) [OF rep0] by (simp add: t1_def n_def lru_rel_push lru_rel_init)
  moreover have "chains_ok (ht_buckets t1)"
    using ht_repD(9) [OF rep0] i
    by (auto simp: t1_def n_def bucketIndexFor_def chains_okD intro!: chains_ok_update)
  moreover have "mset (ht_nodes t1) = mset (n # ns)"
    using mset_concat_update [OF i(1), of "n # ?c"] ht_repD(10) [OF rep0] by (simp add: t1_def)
  moreover have "distinct (map n_key (n # ns))"
    using k ht_repD(3) [OF rep0] by (simp add: n_def)
  ultimately have "ht_rep_load t1 (n # ns)"
    using rep0 i(2) by (auto simp: ht_rep_load_def ht_rep_def t1_def n_def)
  then have "ht_rep (ht_growIfNeeded t1) (n # ns)" by (rule ht_growIfNeeded_rep)
  with put show ?thesis by (auto simp: n_def)
qed

lemma ht_set_expiration_rep:
  assumes rep: "ht_rep t (as @ n # bs)"
  shows "ht_rep (ht_set_expiration (n_key n) x t)
    (as @ n\<lparr>n_entry := (n_entry n)\<lparr>e_expiration := x\<rparr>\<rparr> # bs)"
proof -
  have ne: "ht_buckets t \<noteq> []" using rep_empty_buckets [OF rep] by auto
  let ?f = "\<lambda>n. n\<lparr>n_entry := (n_entry n)\<lparr>e_expiration := x\<rparr>\<rparr>"
  show ?thesis
    using chain_update_rep [OF rep ne, of ?f] rep ne
    by (auto simp: ht_rep_def ht_set_expiration_def Let_def)
qed

section \<open>Removal\<close>

lemma discard_rep_lru:
  assumes "lru_rel s (map n_addr (as @ n # bs))"
  shows "lru_rel (lruUnlink (n_addr n) s) (map n_addr (as @ bs))"
  using lru_rel_unlink_split [of s "map n_addr as" "n_addr n" "map n_addr bs"] assms by simp

lemma over_load_mono: "\<not> over_load sz n \<Longrightarrow> sz' \<le> sz \<Longrightarrow> \<not> over_load sz' n"
  by (simp add: over_load_iff)

lemma ht_remove_hit:
  assumes rep: "ht_rep t (as @ n # bs)"
  shows "\<exists>t'. ht_remove (n_key n) t = (True, t') \<and> ht_rep t' (as @ bs) \<and>
    length (ht_buckets t') = length (ht_buckets t)"
proof -
  have ne: "ht_buckets t \<noteq> []" using rep_empty_buckets [OF rep] by auto
  let ?i = "bucketIndexFor t (n_key n)"
  let ?c = "ht_buckets t ! ?i"
  note i = rep_bucket(1) [OF rep ne, of "n_key n"] rep_bucket(2) [OF rep ne]
  have find: "List.find (\<lambda>m. n_key m = n_key n) ?c = Some n"
    using find_chain [OF rep ne, of "n_key n"] find_unique [OF ht_repD(3) [OF rep], of n] by simp
  define t' where "t' = discard_node n (t\<lparr>ht_buckets := (ht_buckets t)[?i := chain_remove (n_key n) ?c]\<rparr>)"
  have "mset (ht_nodes t') + {#n#} = mset (as @ bs) + {#n#}"
  proof -
    have "mset (ht_nodes t') + {#n#} + mset ?c =
        mset (ht_nodes t) + (mset (chain_remove (n_key n) ?c) + {#n#})"
      using mset_concat_update [OF i(1), of "chain_remove (n_key n) ?c"]
      by (simp add: t'_def discard_node_def)
    also have "\<dots> = mset (as @ bs) + {#n#} + mset ?c"
      using mset_chain_remove [OF find] ht_repD(10) [OF rep] by simp
    finally show ?thesis by simp
  qed
  moreover have "chains_ok (ht_buckets t')"
    using ht_repD(9) [OF rep] i set_chain_remove [of "n_key n" ?c]
    by (auto simp: t'_def discard_node_def chains_okD intro!: chains_ok_update)
  moreover have "lru_rel (ht_lru t') (map n_addr (as @ bs))"
    using discard_rep_lru ht_repD(8) [OF rep] by (simp add: t'_def discard_node_def)
  moreover have "ht_remove (n_key n) t = (True, t')"
    using ne find by (simp add: ht_remove_def t'_def Let_def)
  ultimately show ?thesis
    using rep i by (intro exI [of _ t'])
      (auto simp: ht_rep_def t'_def discard_node_def over_load_iff)
qed

lemma ht_remove_miss:
  assumes rep: "ht_rep t ns" and k: "k \<notin> n_key ` set ns"
  shows "ht_remove k t = (False, t)"
proof (cases "ht_buckets t = []")
  case False
  then have "List.find (\<lambda>m. n_key m = k) (ht_buckets t ! bucketIndexFor t k) = None"
    using find_chain [OF rep, of k] k by (auto simp: find_None_iff)
  then show ?thesis by (simp add: ht_remove_def Let_def)
qed (simp add: ht_remove_def)

lemma ht_clear_rep: "ht_rep t ns \<Longrightarrow> ht_rep (ht_clear t) []"
  by (auto simp: ht_rep_def ht_clear_def chains_ok_def over_load_iff lru_rel_clear)

lemma ht_emptied_rep: "ht_rep (ht_emptied t) []"
  by (simp add: ht_rep_def ht_emptied_def chains_ok_def over_load_iff lru_rel_clear)

end
