(* ===== verification/VC_HashTable_Correct.thy ===== *)
theory VC_HashTable_Correct
  imports VC_HashTable_Ops
begin

text \<open>
  The hash table implements an LRU cache: a list of entries with distinct keys,
  most recently used first. The abstract operations are list functions; each
  concrete operation is shown to commute with the abstraction \<^const>\<open>ht_abs\<close> and
  to keep the invariant \<^const>\<open>ht_inv\<close>. The contract is the locale \<open>lru_table\<close>,
  which Database relies on, interpreted here on the hash table.
\<close>

section \<open>Sweeping\<close>

lemma removeIf_chain_eq:
  "removeIf_chain P c t =
     (filter (\<lambda>n. \<not> P (n_entry n)) c, length (filter (\<lambda>n. P (n_entry n)) c),
      fold discard_node (filter (\<lambda>n. P (n_entry n)) c) t)"
  by (induction P c t rule: removeIf_chain.induct) auto

lemma fold_discard:
  "fold discard_node ms t =
     t\<lparr>ht_size := ht_size t - length ms,
       ht_entryBytes := ht_entryBytes t - sum_list (map n_footprint ms),
       ht_lru := fold lruUnlink (map n_addr ms) (ht_lru t)\<rparr>"
  by (induction ms arbitrary: t) (auto simp: discard_node_def)

lemma sum_list_mset_cong: "mset xs = mset ys \<Longrightarrow> sum_list (map f xs) = sum_list (map f ys)"
  for f :: "'a \<Rightarrow> nat"
  by (metis mset_map sum_mset_sum_list)

text \<open>Sweeping bucket \<open>i\<close> takes the swept nodes of its chain from the nodes of the table.\<close>

lemma sweep_bucket_nodes:
  fixes P :: "entry \<Rightarrow> bool"
  assumes rep: "ht_rep t ns" and i: "i < length (ht_buckets t)"
  defines "c \<equiv> ht_buckets t ! i"
  defines "Q \<equiv> \<lambda>n. P (n_entry n) \<and> bucketIndex (length (ht_buckets t)) (n_key n) = i"
  shows "set (filter (\<lambda>n. P (n_entry n)) c) = set (filter Q ns)" and "distinct c"
    and "mset (filter (\<lambda>n. P (n_entry n)) c) = mset (filter Q ns)"
    and "mset (concat ((ht_buckets t)[i := filter (\<lambda>n. \<not> P (n_entry n)) c])) = mset (filter (\<lambda>n. \<not> Q n) ns)"
proof -
  let ?ms = "filter (\<lambda>n. P (n_entry n)) c"
  let ?bs = "(ht_buckets t)[i := filter (\<lambda>n. \<not> P (n_entry n)) c]"
  have ne: "ht_buckets t \<noteq> []" using i by auto
  have inc: "n \<in> set c \<longleftrightarrow> bucketIndex (length (ht_buckets t)) (n_key n) = i" if "n \<in> set ns" for n
    using that in_chain [OF ht_repD(9) [OF rep] rep_bucket(2) [OF rep ne], of n]
      chains_okD [OF ht_repD(9) [OF rep] i, of n] ht_repD(1) [OF rep] by (auto simp: c_def)
  have csub: "n \<in> set ns" if "n \<in> set c" for n
    using chain_in_nodes [OF i, of n] that unfolding c_def ht_repD(1) [OF rep] by simp
  have nodes: "mset (ht_nodes t) = mset ns" by (rule ht_repD(10) [OF rep])
  have "distinct (ht_nodes t)" using ht_repD(5) [OF rep] mset_eq_imp_distinct_iff [OF nodes] by simp
  then show dc: "distinct c" using i by (auto simp: c_def concat_split_nth)
  show set: "set ?ms = set (filter Q ns)" using inc csub by (auto simp: Q_def)
  then show ms: "mset ?ms = mset (filter Q ns)"
    using dc ht_repD(5) [OF rep] by (intro set_eq_iff_mset_eq_distinct [THEN iffD1]) auto
  have "mset (concat ?bs) + mset c + mset ?ms = mset (ht_nodes t) + mset c"
    using mset_concat_update [OF i, of "filter (\<lambda>n. \<not> P (n_entry n)) c"]
      multiset_partition [of "mset c" "\<lambda>n. P (n_entry n)"] by (simp add: c_def)
  then have "mset (concat ?bs) + mset ?ms = mset (filter (\<lambda>n. \<not> Q n) ns) + mset (filter Q ns)"
    using nodes multiset_partition [of "mset ns" Q] by simp
  then show "mset (concat ?bs) = mset (filter (\<lambda>n. \<not> Q n) ns)"
    unfolding ms by (simp only: add_right_cancel)
qed

text \<open>Unlinking the nodes that satisfy \<open>Q\<close> leaves the others in their order.\<close>

lemma unlink_swept:
  assumes "lru_rel l (map n_addr ns)" "distinct (map n_addr ns)" "distinct ms" "set ms = set (filter Q ns)"
  shows "lru_rel (fold lruUnlink (map n_addr ms) l) (map n_addr (filter (\<lambda>n. \<not> Q n) ns))"
proof -
  have inj: "inj_on n_addr (set ns)" using assms(2) by (simp add: distinct_map)
  have sub: "set ms \<subseteq> set ns" using assms(4) by auto
  have "lru_rel (fold lruUnlink (map n_addr ms) l) (filter (\<lambda>a. a \<notin> set (map n_addr ms)) (map n_addr ns))"
    using assms(1,3) sub inj by (intro dll.rel_unlink_all) (auto simp: distinct_map intro: inj_on_subset)
  moreover have "n_addr n \<notin> n_addr ` set ms \<longleftrightarrow> \<not> Q n" if "n \<in> set ns" for n
    using inj_on_image_mem_iff [OF inj that sub] that assms(4) by simp
  ultimately show ?thesis by (simp add: filter_map comp_def cong: filter_cong)
qed

lemma sweep_bucket_rep:
  fixes P :: "entry \<Rightarrow> bool"
  assumes rep: "ht_rep t ns" and i: "i < length (ht_buckets t)"
  defines "c \<equiv> ht_buckets t ! i"
  defines "Q \<equiv> \<lambda>n. P (n_entry n) \<and> bucketIndex (length (ht_buckets t)) (n_key n) = i"
  shows "ht_rep ((fold discard_node (filter (\<lambda>n. P (n_entry n)) c) t)
      \<lparr>ht_buckets := (ht_buckets t)[i := filter (\<lambda>n. \<not> P (n_entry n)) c]\<rparr>)
    (filter (\<lambda>n. \<not> Q n) ns)"
    and "length (filter (\<lambda>n. P (n_entry n)) c) = length (filter Q ns)"
proof -
  let ?ms = "filter (\<lambda>n. P (n_entry n)) c"
  let ?bs = "(ht_buckets t)[i := filter (\<lambda>n. \<not> P (n_entry n)) c]"
  have nodes: "set ?ms = set (filter Q ns)" "mset ?ms = mset (filter Q ns)" "mset (concat ?bs) = mset (filter (\<lambda>n. \<not> Q n) ns)"
    unfolding c_def Q_def by (rule sweep_bucket_nodes(1,3,4) [OF rep i])+
  note dc = sweep_bucket_nodes(2) [OF rep i, folded c_def]
  show len: "length ?ms = length (filter Q ns)" by (rule mset_eq_length [OF nodes(2)])
  have ok: "chains_ok ?bs"
    using ht_repD(9) [OF rep] i by (auto simp: c_def chains_okD intro!: chains_ok_update)
  have l: "lru_rel (fold lruUnlink (map n_addr ?ms) (ht_lru t)) (map n_addr (filter (\<lambda>n. \<not> Q n) ns))"
    by (rule unlink_swept [OF ht_repD(8) [OF rep] ht_repD(4) [OF rep] _ nodes(1)]) (simp add: dc)
  have sz: "ht_size t - length ?ms = length (filter (\<lambda>n. \<not> Q n) ns)"
    using length_filter_split [of ns Q] ht_repD(6) [OF rep] len by simp
  have bytes: "ht_entryBytes t - sum_list (map n_footprint ?ms) =
      sum_list (map n_footprint (filter (\<lambda>n. \<not> Q n) ns))"
    using sum_list_filter_split [of n_footprint ns Q] ht_repD(7) [OF rep]
      sum_list_mset_cong [OF nodes(2), of n_footprint] by simp
  have "\<not> over_load (length (filter (\<lambda>n. \<not> Q n) ns)) (length (ht_buckets t))"
    using over_load_mono [OF ht_repD(11) [OF rep]] sz by simp
  with rep ok nodes(3) l sz bytes show "ht_rep ((fold discard_node ?ms t)\<lparr>ht_buckets := ?bs\<rparr>)
    (filter (\<lambda>n. \<not> Q n) ns)"
    by (simp add: fold_discard ht_rep_def distinct_map_filter)
qed

lemma removeIf_scan_rep:
  fixes P :: "entry \<Rightarrow> bool"
  assumes "ht_rep t ns" "\<forall>i\<in>set is. i < length (ht_buckets t)"
  defines "Q \<equiv> \<lambda>n. P (n_entry n) \<and> bucketIndex (length (ht_buckets t)) (n_key n) \<in> set is"
  shows "\<exists>t'. removeIf_scan P is t = (length (filter Q ns), t') \<and>
    ht_rep t' (filter (\<lambda>n. \<not> Q n) ns) \<and> length (ht_buckets t') = length (ht_buckets t)"
  using assms(1,2) unfolding Q_def
proof (induction "is" arbitrary: t ns)
  case (Cons i "is")
  let ?Q = "\<lambda>n. P (n_entry n) \<and> bucketIndex (length (ht_buckets t)) (n_key n) = i"
  let ?R = "\<lambda>n. P (n_entry n) \<and> bucketIndex (length (ht_buckets t)) (n_key n) \<in> set is"
  let ?ms = "filter (\<lambda>n. P (n_entry n)) (ht_buckets t ! i)"
  let ?t1 = "(fold discard_node ?ms t)
    \<lparr>ht_buckets := (ht_buckets t)[i := filter (\<lambda>n. \<not> P (n_entry n)) (ht_buckets t ! i)]\<rparr>"
  have i: "i < length (ht_buckets t)" using Cons.prems by simp
  note step = sweep_bucket_rep [OF Cons.prems(1) i, of P]
  obtain t' where t': "removeIf_scan P is ?t1 = (length (filter ?R (filter (\<lambda>n. \<not> ?Q n) ns)), t')"
      "ht_rep t' (filter (\<lambda>n. \<not> ?R n) (filter (\<lambda>n. \<not> ?Q n) ns))"
      "length (ht_buckets t') = length (ht_buckets t)"
    using Cons.IH [OF step(1)] Cons.prems(2) by auto
  have count: "length (filter ?Q ns) + length (filter ?R (filter (\<lambda>n. \<not> ?Q n) ns)) =
      length (filter (\<lambda>n. P (n_entry n) \<and>
        bucketIndex (length (ht_buckets t)) (n_key n) \<in> set (i # is)) ns)"
    by (induction ns) auto
  have rest: "filter (\<lambda>n. \<not> ?R n) (filter (\<lambda>n. \<not> ?Q n) ns) = filter (\<lambda>n. \<not> (P (n_entry n) \<and>
        bucketIndex (length (ht_buckets t)) (n_key n) \<in> set (i # is))) ns"
    unfolding filter_filter by (rule filter_cong) auto
  have "ht_buckets (fold discard_node ?ms t) = ht_buckets t" by (simp add: fold_discard)
  then have "removeIf_scan P (i # is) t =
      (length (filter ?Q ns) + length (filter ?R (filter (\<lambda>n. \<not> ?Q n) ns)), t')"
    using t'(1) step(2) by (simp add: removeIf_chain_eq)
  then show ?case
    using t'(2,3) unfolding rest count by blast
qed simp

section \<open>The abstract LRU cache\<close>

definition lru_find :: "string \<Rightarrow> entry list \<Rightarrow> entry option" where
  "lru_find k es = List.find (\<lambda>e. e_key e = k) es"

definition lru_remove :: "string \<Rightarrow> entry list \<Rightarrow> entry list" where
  "lru_remove k es = filter (\<lambda>e. e_key e \<noteq> k) es"

definition lru_put :: "string \<Rightarrow> string \<Rightarrow> entry list \<Rightarrow> entry list" where
  "lru_put k v es = Entry k v # lru_remove k es"

definition lru_touch :: "string \<Rightarrow> entry list \<Rightarrow> entry list" where
  "lru_touch k es = (case lru_find k es of None \<Rightarrow> es | Some e \<Rightarrow> e # lru_remove k es)"

definition lru_set_expiration :: "string \<Rightarrow> time_point option \<Rightarrow> entry list \<Rightarrow> entry list" where
  "lru_set_expiration k x es = map (\<lambda>e. if e_key e = k then e\<lparr>e_expiration := x\<rparr> else e) es"

lemma lru_find_Nil [simp]: "lru_find k [] = None"
  by (simp add: lru_find_def)

lemma lru_find_Cons: "lru_find k (e # es) = (if e_key e = k then Some e else lru_find k es)"
  by (simp add: lru_find_def)

lemma lru_find_None: "lru_find k es = None \<longleftrightarrow> k \<notin> e_key ` set es"
  by (auto simp: lru_find_def find_None_iff)

lemma lru_find_SomeD: "lru_find k es = Some e \<Longrightarrow> e \<in> set es \<and> e_key e = k"
  by (auto simp: lru_find_def find_Some_iff)

lemma lru_find_mem:
  "distinct (map e_key es) \<Longrightarrow> e \<in> set es \<Longrightarrow> lru_find (e_key e) es = Some e"
  by (simp add: lru_find_def find_unique)

lemma lru_find_iff:
  "distinct (map e_key es) \<Longrightarrow> lru_find k es = Some e \<longleftrightarrow> e \<in> set es \<and> e_key e = k"
  using lru_find_SomeD lru_find_mem by metis

lemma lru_find_remove [simp]:
  "lru_find k (lru_remove k' es) = (if k = k' then None else lru_find k es)"
  by (induction es) (auto simp: lru_find_def lru_remove_def)

lemma lru_find_put [simp]:
  "lru_find k (lru_put k' v es) = (if k = k' then Some (Entry k v) else lru_find k es)"
  using lru_find_remove [of k k' es] by (auto simp: lru_put_def lru_find_def)

lemma lru_find_touch [simp]: "lru_find k (lru_touch k' es) = lru_find k es"
proof (cases "lru_find k' es")
  case (Some e)
  then have "e_key e = k'" by (simp add: lru_find_SomeD)
  with Some show ?thesis by (auto simp: lru_touch_def lru_find_Cons)
qed (simp add: lru_touch_def)

lemma lru_find_set_expiration [simp]:
  "lru_find k (lru_set_expiration k' x es) =
     (if k = k' then map_option (\<lambda>e. e\<lparr>e_expiration := x\<rparr>) (lru_find k es) else lru_find k es)"
  by (induction es) (auto simp: lru_find_def lru_set_expiration_def)

lemma lru_remove_absent: "lru_find k es = None \<Longrightarrow> lru_remove k es = es"
  by (auto simp: lru_find_None lru_remove_def filter_id_conv)

section \<open>Refinement of the operations\<close>

lemma ht_abs_distinct: "ht_inv t \<Longrightarrow> distinct (map e_key (ht_abs t))"
  by (auto elim!: ht_invE dest: ht_repD(3) simp: comp_def)

lemma ht_find_lru: "ht_inv t \<Longrightarrow> ht_find k t = lru_find k (ht_abs t)"
  by (simp add: lru_find_def ht_find_abs)

lemma HashTable_correct: "ht_inv (HashTable n)" "ht_abs (HashTable n) = []"
  using HashTable_rep [of n] ht_abs_rep [OF HashTable_rep [of n]] by (auto simp: ht_inv_def)

text \<open>Case analysis of a well-formed table on whether it holds a key.\<close>

lemma ht_key_cases:
  assumes "ht_inv t"
  obtains (miss) ns where "ht_rep t ns" "k \<notin> n_key ` set ns" "ht_abs t = map n_entry ns"
      "lru_find k (ht_abs t) = None"
  | (hit) as n bs where "ht_rep t (as @ n # bs)" "n_key n = k"
      "ht_abs t = map n_entry (as @ n # bs)"
      "lru_find k (ht_abs t) = Some (n_entry n)" "lru_remove k (ht_abs t) = map n_entry (as @ bs)"
proof -
  from assms obtain ns where ns: "ht_rep t ns" "ht_abs t = map n_entry ns" by (rule ht_invE)
  have f: "lru_find k (ht_abs t) = map_option n_entry (List.find (\<lambda>n. n_key n = k) ns)"
    using ht_find_lru [OF assms] ht_find_rep [OF ns(1)] by simp
  show thesis
  proof (cases "List.find (\<lambda>n. n_key n = k) ns")
    case None
    with ns f show ?thesis by (intro miss) (auto simp: find_None_iff)
  next
    case (Some n)
    then obtain as bs where *: "ns = as @ n # bs" "n_key n = k"
        "filter (\<lambda>m. n_key m \<noteq> k) ns = as @ bs"
      using ht_repD(3) [OF ns(1)] by (rule find_SomeE)
    have "lru_remove k (map n_entry ns) = map n_entry (as @ bs)"
      unfolding *(3) [symmetric] by (simp add: lru_remove_def filter_map comp_def)
    with ns f Some * show ?thesis by (intro hit [of as n bs]) auto
  qed
qed

lemma ht_put_correct:
  assumes "ht_inv t"
  shows "ht_inv (snd (ht_put k v t)) \<and> ht_abs (snd (ht_put k v t)) = lru_put k v (ht_abs t) \<and>
    fst (ht_put k v t) = (lru_find k (ht_abs t) = None)"
  using assms
proof (cases rule: ht_key_cases [where k = k])
  case (miss ns)
  from ht_put_miss [OF miss(1,2), of v] show ?thesis
    using miss by (auto simp: ht_rep_inv ht_abs_rep lru_put_def lru_remove_absent)
next
  case (hit as n bs)
  from ht_put_hit [OF hit(1,2), of v] show ?thesis
    using hit by (auto simp: ht_rep_inv ht_abs_rep lru_put_def)
qed

lemma ht_set_expiration_correct:
  assumes "ht_inv t" "lru_find k (ht_abs t) \<noteq> None"
  shows "ht_inv (ht_set_expiration k x t) \<and>
    ht_abs (ht_set_expiration k x t) = lru_set_expiration k x (ht_abs t)"
  using assms(1)
proof (cases rule: ht_key_cases [where k = k])
  case (hit as n bs)
  have "k \<notin> n_key ` set as" "k \<notin> n_key ` set bs"
    using ht_repD(3) [OF hit(1)] hit(2) by auto
  then have "lru_set_expiration k x (map n_entry as) = map n_entry as"
    "lru_set_expiration k x (map n_entry bs) = map n_entry bs"
    by (auto simp: lru_set_expiration_def)
  with ht_set_expiration_rep [OF hit(1), of x] hit show ?thesis
    by (auto simp: ht_rep_inv ht_abs_rep lru_set_expiration_def)
qed (use assms(2) in simp)

lemma ht_remove_correct:
  assumes "ht_inv t"
  shows "ht_inv (snd (ht_remove k t)) \<and> ht_abs (snd (ht_remove k t)) = lru_remove k (ht_abs t) \<and>
    fst (ht_remove k t) = (lru_find k (ht_abs t) \<noteq> None) \<and>
    length (ht_buckets (snd (ht_remove k t))) = length (ht_buckets t)"
  using assms
proof (cases rule: ht_key_cases [where k = k])
  case (miss ns)
  with ht_remove_miss [OF miss(1,2)] assms show ?thesis by (simp add: lru_remove_absent)
next
  case (hit as n bs)
  from ht_remove_hit [OF hit(1)] show ?thesis
    using hit by (auto simp: ht_rep_inv ht_abs_rep)
qed

lemma ht_touch_correct:
  assumes "ht_inv t"
  shows "ht_inv (snd (ht_touch k t)) \<and> ht_abs (snd (ht_touch k t)) = lru_touch k (ht_abs t) \<and>
    fst (ht_touch k t) = (lru_find k (ht_abs t) \<noteq> None) \<and>
    ht_buckets (snd (ht_touch k t)) = ht_buckets t \<and>
    ht_entryBytes (snd (ht_touch k t)) = ht_entryBytes t"
  using assms
proof (cases rule: ht_key_cases [where k = k])
  case (miss ns)
  then have "ht_findNode k t = None" by (auto simp: ht_findNode_rep find_None_iff)
  with miss assms show ?thesis by (simp add: ht_touch_def lru_touch_def)
next
  case (hit as n bs)
  have f: "ht_findNode k t = Some n"
    using ht_findNode_rep [OF hit(1)] find_unique [OF ht_repD(3) [OF hit(1)], of n] hit(2) by simp
  show ?thesis
  proof (cases "lruHead (ht_lru t) = Some (n_addr n)")
    case True
    then have "as = []"
      using ht_repD(4,8) [OF hit(1)] by (cases as) (auto simp: lru_rel_def)
    with True f hit assms show ?thesis by (simp add: ht_touch_def lru_touch_def)
  next
    case False
    let ?t = "t\<lparr>ht_lru := lruPushFront (n_addr n) (lruUnlink (n_addr n) (ht_lru t))\<rparr>"
    have "lru_rel (ht_lru ?t) (map n_addr (n # as @ bs))"
      using discard_rep_lru [OF ht_repD(8) [OF hit(1)]] ht_repD(4) [OF hit(1)]
      by (auto intro!: lru_rel_push)
    then have "ht_rep ?t (n # as @ bs)"
      using hit(1) by (auto simp: ht_rep_def)
    with False f hit show ?thesis
      by (auto simp: ht_touch_def lru_touch_def ht_rep_inv ht_abs_rep)
  qed
qed

lemma ht_rep_last:
  assumes "ht_rep t (ns @ [n])"
  shows "lruTail (ht_lru t) = Some (n_addr n)" "node_at t (n_addr n) = Some n"
  using ht_repD(8) [OF assms] node_at_rep [OF assms] by (simp_all add: lru_rel_def)

lemma ht_evictOldest_correct:
  assumes "ht_inv t"
  shows "ht_inv (snd (ht_evictOldest t)) \<and>
    ht_abs (snd (ht_evictOldest t)) = butlast (ht_abs t) \<and>
    fst (ht_evictOldest t) = map_option e_key (last_opt (ht_abs t)) \<and>
    length (ht_buckets (snd (ht_evictOldest t))) = length (ht_buckets t)"
proof -
  from assms obtain ns where ns: "ht_rep t ns" "ht_abs t = map n_entry ns" by (rule ht_invE)
  show ?thesis
  proof (cases ns rule: rev_cases)
    case Nil
    with ns ht_repD(8) [OF ns(1)] assms show ?thesis
      by (simp add: ht_evictOldest_def lru_rel_def)
  next
    case (snoc ms n)
    with ns have rep: "ht_rep t (ms @ [n])" by simp
    note tail = ht_rep_last [OF rep]
    obtain t' where "ht_remove (n_key n) t = (True, t')" "ht_rep t' ms"
        "length (ht_buckets t') = length (ht_buckets t)"
      using ht_remove_hit [of t ms n "[]"] rep by auto
    with tail ns snoc show ?thesis
      by (auto simp: ht_evictOldest_def ht_rep_inv ht_abs_rep)
  qed
qed

lemma ht_ends_correct:
  assumes "ht_inv t"
  shows "ht_mostRecentKey t = map_option e_key (head_opt (ht_abs t))"
    and "ht_leastRecentKey t = map_option e_key (last_opt (ht_abs t))"
proof -
  from assms obtain ns where ns: "ht_rep t ns" "ht_abs t = map n_entry ns" by (rule ht_invE)
  show "ht_mostRecentKey t = map_option e_key (head_opt (ht_abs t))"
    using ns ht_repD(8) [OF ns(1)] node_at_rep [OF ns(1)]
    by (cases ns) (auto simp: ht_mostRecentKey_def lru_rel_def)
  show "ht_leastRecentKey t = map_option e_key (last_opt (ht_abs t))"
    using ns ht_repD(8) [OF ns(1)] node_at_rep [OF ns(1)]
    by (cases ns rule: rev_cases) (auto simp: ht_leastRecentKey_def lru_rel_def)
qed

lemma ht_clear_correct: "ht_inv t \<Longrightarrow> ht_inv (ht_clear t) \<and> ht_abs (ht_clear t) = []"
  using ht_rep_inv ht_abs_rep ht_clear_rep by (metis ht_inv_def list.simps(8))

lemma ht_removeIf_correct:
  fixes P :: "entry \<Rightarrow> bool" and first n :: nat
  assumes "ht_inv t"
  defines "len \<equiv> length (ht_buckets t)"
  defines "swept \<equiv> \<lambda>e. P e \<and> bucketIndex len (e_key e) \<in> set (scan_range first (min n len) len)"
  shows "ht_inv (snd (ht_removeIf first n P t)) \<and>
    ht_abs (snd (ht_removeIf first n P t)) = filter (\<lambda>e. \<not> swept e) (ht_abs t) \<and>
    fst (ht_removeIf first n P t) = length (filter swept (ht_abs t)) \<and>
    length (ht_buckets (snd (ht_removeIf first n P t))) = len"
proof (cases "ht_buckets t = [] \<or> n = 0")
  case True
  then have "scan_range first (min n len) len = []"
    by (auto simp: scan_range_def len_def)
  with True assms(1) show ?thesis by (simp add: ht_removeIf_def swept_def len_def)
next
  case False
  from assms(1) obtain ns where ns: "ht_rep t ns" "ht_abs t = map n_entry ns" by (rule ht_invE)
  let ?is = "scan_range first (min n len) len"
  have "\<forall>i\<in>set ?is. i < length (ht_buckets t)"
    using False by (auto simp: scan_range_def len_def)
  from removeIf_scan_rep [OF ns(1) this, of P] False ns show ?thesis
    by (auto simp: ht_removeIf_def Let_def len_def swept_def ht_rep_inv ht_abs_rep filter_map comp_def)
qed

lemma ht_size_correct: "ht_inv t \<Longrightarrow> ht_size t = length (ht_abs t)"
  by (auto elim!: ht_invE dest: ht_repD(6))

text \<open>The byte total is the sum of the estimates of the stored entries.\<close>

definition entry_footprint :: "entry \<Rightarrow> nat" where
  "entry_footprint e = footprintEstimate (e_key e) (e_value e)"

lemma ht_entryBytes_correct:
  "ht_inv t \<Longrightarrow> ht_entryBytes t = sum_list (map entry_footprint (ht_abs t))"
proof (erule ht_invE)
  fix ns assume ns: "ht_rep t ns" "ht_abs t = map n_entry ns"
  then have "map n_footprint ns = map (entry_footprint \<circ> n_entry) ns"
    by (auto simp: ht_rep_def entry_footprint_def)
  with ns ht_repD(7) [OF ns(1)] show ?thesis by (simp only: map_map)
qed

lemma ht_nodes_entries:
  assumes "ht_inv t"
  shows "mset (map n_entry (ht_nodes t)) = mset (ht_abs t)"
  using assms by (metis ht_invE ht_repD(10) mset_map)

lemma ht_entriesWhere_correct:
  assumes "ht_inv t"
  shows "mset (ht_entriesWhere P t) = mset (filter P (ht_abs t))"
proof -
  have "ht_entriesWhere P t = filter P (map n_entry (ht_nodes t))"
    by (simp only: ht_entriesWhere_def filter_map comp_def)
  then show ?thesis using ht_nodes_entries [OF assms] by (simp only: mset_filter)
qed

lemma ht_keysWhere_correct:
  assumes "ht_inv t"
  shows "mset (ht_keysWhere P t) = mset (map e_key (filter P (ht_abs t)))"
proof -
  have "ht_keysWhere P t = map e_key (ht_entriesWhere P t)"
    by (simp add: ht_keysWhere_def ht_entriesWhere_def)
  then show ?thesis using ht_entriesWhere_correct [OF assms, of P] by (simp only: mset_map)
qed

text \<open>A scan of as many buckets as there are meets them all.\<close>

lemma scan_range_full: "0 < n \<Longrightarrow> set (scan_range first n n) = {..<n}"
proof -
  assume n: "0 < n"
  have "i \<in> (\<lambda>k. (first + k) mod n) ` {..<n}" if "i < n" for i
  proof (rule image_eqI)
    have "first + (i + (n - first mod n)) = i + n * (first div n + 1)"
      using mult_div_mod_eq [of n first] mod_less_divisor [OF n, of first]
      unfolding distrib_left by linarith
    then show "i = (first + (i + (n - first mod n)) mod n) mod n"
      using that by (simp only: mod_add_right_eq mod_mult_self2 mod_less)
  qed (use n in simp)
  with n show ?thesis by (auto simp: scan_range_def atLeast0LessThan)
qed

section \<open>The contract of a recency-ordered table\<close>

text \<open>
  What Database may assume of its storage: an invariant, an abstract entry list
  with distinct keys, and the effect of every operation on it.
\<close>

locale lru_table =
  fixes inv :: "'t \<Rightarrow> bool"
    and abs :: "'t \<Rightarrow> entry list"
    and find :: "string \<Rightarrow> 't \<Rightarrow> entry option"
    and put :: "string \<Rightarrow> string \<Rightarrow> 't \<Rightarrow> bool \<times> 't"
    and set_expiration :: "string \<Rightarrow> time_point option \<Rightarrow> 't \<Rightarrow> 't"
    and remove :: "string \<Rightarrow> 't \<Rightarrow> bool \<times> 't"
    and touch :: "string \<Rightarrow> 't \<Rightarrow> bool \<times> 't"
    and evict :: "'t \<Rightarrow> string option \<times> 't"
  assumes abs_distinct: "inv t \<Longrightarrow> distinct (map e_key (abs t))"
    and find_abs: "inv t \<Longrightarrow> find k t = lru_find k (abs t)"
    and put_inv: "inv t \<Longrightarrow> inv (snd (put k v t))"
    and put_abs: "inv t \<Longrightarrow> abs (snd (put k v t)) = lru_put k v (abs t)"
    and put_new: "inv t \<Longrightarrow> fst (put k v t) = (lru_find k (abs t) = None)"
    and set_expiration_inv:
      "inv t \<Longrightarrow> lru_find k (abs t) \<noteq> None \<Longrightarrow> inv (set_expiration k x t)"
    and set_expiration_abs:
      "inv t \<Longrightarrow> lru_find k (abs t) \<noteq> None \<Longrightarrow>
       abs (set_expiration k x t) = lru_set_expiration k x (abs t)"
    and remove_inv: "inv t \<Longrightarrow> inv (snd (remove k t))"
    and remove_abs: "inv t \<Longrightarrow> abs (snd (remove k t)) = lru_remove k (abs t)"
    and remove_found: "inv t \<Longrightarrow> fst (remove k t) = (lru_find k (abs t) \<noteq> None)"
    and touch_inv: "inv t \<Longrightarrow> inv (snd (touch k t))"
    and touch_abs: "inv t \<Longrightarrow> abs (snd (touch k t)) = lru_touch k (abs t)"
    and evict_inv: "inv t \<Longrightarrow> inv (snd (evict t))"
    and evict_abs: "inv t \<Longrightarrow> abs (snd (evict t)) = butlast (abs t)"
    and evict_key: "inv t \<Longrightarrow> fst (evict t) = map_option e_key (last_opt (abs t))"
begin

lemmas table_invs = put_inv remove_inv touch_inv evict_inv

lemma find_put: "inv t \<Longrightarrow> find k (snd (put k' v t)) = (if k = k' then Some (Entry k v) else find k t)"
  by (simp add: find_abs put_inv put_abs)

lemma find_remove: "inv t \<Longrightarrow> find k (snd (remove k' t)) = (if k = k' then None else find k t)"
  by (simp add: find_abs remove_inv remove_abs)

lemma find_touch: "inv t \<Longrightarrow> find k (snd (touch k' t)) = find k t"
  by (simp add: find_abs touch_inv touch_abs)

text \<open>Writing a value and then an expiration through the returned pointer.\<close>

lemma put_expiring:
  assumes "inv t"
  shows "inv (set_expiration k x (snd (put k v t)))"
    and "abs (set_expiration k x (snd (put k v t))) =
      (Entry k v)\<lparr>e_expiration := x\<rparr> # lru_remove k (abs t)"
proof -
  have f: "lru_find k (abs (snd (put k v t))) \<noteq> None"
    by (simp add: put_abs [OF assms])
  show "inv (set_expiration k x (snd (put k v t)))"
    by (intro set_expiration_inv put_inv assms f)
  have "map (\<lambda>e. if e_key e = k then e\<lparr>e_expiration := x\<rparr> else e) (lru_remove k (abs t)) =
      lru_remove k (abs t)"
    by (rule map_idI) (auto simp: lru_remove_def)
  then show "abs (set_expiration k x (snd (put k v t))) =
      (Entry k v)\<lparr>e_expiration := x\<rparr> # lru_remove k (abs t)"
    using set_expiration_abs [OF put_inv [OF assms] f]
    by (simp add: put_abs [OF assms] lru_put_def lru_set_expiration_def)
qed

text \<open>Iterated eviction drops least recently used entries only.\<close>

lemma evict_iterate:
  assumes "inv t"
  shows "inv (((\<lambda>t. snd (evict t)) ^^ n) t) \<and>
    abs (((\<lambda>t. snd (evict t)) ^^ n) t) = take (length (abs t) - n) (abs t)"
proof (induction n)
  case (Suc n)
  then have "abs (((\<lambda>t. snd (evict t)) ^^ Suc n) t) = butlast (take (length (abs t) - n) (abs t))"
    by (simp add: evict_abs)
  also have "\<dots> = take (length (abs t) - Suc n) (abs t)"
    by (simp add: butlast_take)
  finally show ?case using Suc by (simp add: evict_inv)
qed (simp add: assms)

end

interpretation ht: lru_table ht_inv ht_abs ht_find ht_put ht_set_expiration ht_remove ht_touch
    ht_evictOldest
  by unfold_locales
    (simp_all add: ht_abs_distinct ht_find_lru ht_put_correct ht_set_expiration_correct
      ht_remove_correct ht_touch_correct ht_evictOldest_correct)

end
