(* ===== verification/VC_HashTable_Props.thy ===== *)
theory VC_HashTable_Props
  imports VC_HashTable_Correct
begin

text \<open>
  The properties of the hash table as a component: any sequence of its mutating
  operations implements an abstract LRU cache, its observers read that cache,
  growing terminates and loses nothing, sweeps remove exactly what they should,
  and the bit-level helpers compute what the comments promise.
\<close>

section \<open>Sequences of operations\<close>

text \<open>
  The mutating member functions, and the pair of calls with which Database stores
  an expiring entry.
\<close>

datatype ht_op =
    Op_put string string
  | Op_put_expiring string string "time_point option"
  | Op_remove string
  | Op_touch string
  | Op_evictOldest
  | Op_sweep "entry \<Rightarrow> bool"
  | Op_clear
  | Op_resize nat

fun ht_apply :: "ht_op \<Rightarrow> hash_table \<Rightarrow> hash_table option" where
  "ht_apply (Op_put k v) t = Some (snd (ht_put k v t))"
| "ht_apply (Op_put_expiring k v x) t = Some (ht_set_expiration k x (snd (ht_put k v t)))"
| "ht_apply (Op_remove k) t = Some (snd (ht_remove k t))"
| "ht_apply (Op_touch k) t = Some (snd (ht_touch k t))"
| "ht_apply Op_evictOldest t = Some (snd (ht_evictOldest t))"
| "ht_apply (Op_sweep P) t = Some (snd (ht_removeIf 0 (length (ht_buckets t)) P t))"
| "ht_apply Op_clear t = Some (ht_clear t)"
| "ht_apply (Op_resize n) t = ht_resize n t"

fun ht_run :: "ht_op list \<Rightarrow> hash_table \<Rightarrow> hash_table option" where
  "ht_run [] t = Some t"
| "ht_run (oper # ops) t = (case ht_apply oper t of None \<Rightarrow> None | Some t' \<Rightarrow> ht_run ops t')"

text \<open>The same operations on the abstract cache, a list of entries with the most recent first.\<close>

fun lru_apply :: "ht_op \<Rightarrow> entry list \<Rightarrow> entry list" where
  "lru_apply (Op_put k v) es = lru_put k v es"
| "lru_apply (Op_put_expiring k v x) es = lru_set_expiration k x (lru_put k v es)"
| "lru_apply (Op_remove k) es = lru_remove k es"
| "lru_apply (Op_touch k) es = lru_touch k es"
| "lru_apply Op_evictOldest es = butlast es"
| "lru_apply (Op_sweep P) es = filter (\<lambda>e. \<not> P e) es"
| "lru_apply Op_clear es = []"
| "lru_apply (Op_resize n) es = es"

fun resizable :: "ht_op \<Rightarrow> bool" where
  "resizable (Op_resize n) \<longleftrightarrow> n \<le> 2 ^ 63"
| "resizable _ \<longleftrightarrow> True"

lemma ht_rep_rep_load: "ht_buckets t \<noteq> [] \<Longrightarrow> ht_rep t ns \<Longrightarrow> ht_rep_load t ns"
  by (simp add: ht_rep_def ht_rep_load_def)

lemma unat_of_nat_le_pow63: "n \<le> 2 ^ 63 \<Longrightarrow> unat (of_nat n :: u64) = n"
  unfolding unat_of_nat by simp

lemma ht_resize_no_buckets:
  assumes "ht_rep t ns" "ht_buckets t = []" "is_pow2 (unat (roundUpToPowerOfTwo (of_nat n)))"
  shows "\<exists>t'. ht_resize n t = Some t' \<and> ht_rep t' ns \<and>
    unat (roundUpToPowerOfTwo (of_nat n)) \<le> length (ht_buckets t')"
proof -
  let ?r = "unat (roundUpToPowerOfTwo (of_nat n))"
  have "ns = []" using assms(1,2) by (auto simp: ht_rep_def)
  moreover have "resize_target 0 ?r = Some ?r"
    by (subst resize_target.simps) (simp add: over_load_iff)
  ultimately show ?thesis
    using assms is_pow2_pos [OF assms(3)]
    by (auto simp: ht_resize_def ht_rep_def chains_ok_replicate over_load_iff)
qed

lemma ht_resize_correct:
  assumes "ht_inv t" "n \<le> 2 ^ 63"
  shows "\<exists>t'. ht_resize n t = Some t' \<and> ht_inv t' \<and> ht_abs t' = ht_abs t \<and> n \<le> length (ht_buckets t')"
proof -
  from assms(1) obtain ns where ns: "ht_rep t ns" "ht_abs t = map n_entry ns" by (rule ht_invE)
  have r: "is_pow2 (unat (roundUpToPowerOfTwo (of_nat n))) \<and>
      n \<le> unat (roundUpToPowerOfTwo (of_nat n))"
    using roundUp_least [of "of_nat n"] assms(2) unat_of_nat_le_pow63 [OF assms(2)] by simp
  have "\<exists>t'. ht_resize n t = Some t' \<and> ht_rep t' ns \<and>
      unat (roundUpToPowerOfTwo (of_nat n)) \<le> length (ht_buckets t')"
    using ht_resize_rep [OF ht_rep_rep_load [OF _ ns(1)], of n] ht_resize_no_buckets [OF ns(1), of n] r
    by (cases "ht_buckets t = []") auto
  then obtain t' where "ht_resize n t = Some t'" "ht_rep t' ns"
      "unat (roundUpToPowerOfTwo (of_nat n)) \<le> length (ht_buckets t')" by blast
  with r ns(2) show ?thesis
    by (intro exI [of _ t']) (auto simp: ht_rep_inv ht_abs_rep)
qed

lemma ht_resize_diverges:
  assumes "2 ^ 63 < n" "n < 2 ^ 64" "ht_size t \<noteq> 0"
  shows "ht_resize n t = None"
proof -
  have "unat (of_nat n :: u64) = n" unfolding unat_of_nat using assms(2) by simp
  then have "roundUpToPowerOfTwo (of_nat n) = 0" using assms(1) by (intro roundUp_overflow) simp
  then show ?thesis using assms(3) by (simp add: ht_resize_def resize_target_zero)
qed

lemma ht_sweep_correct:
  assumes "ht_inv t"
  shows "ht_inv (snd (ht_removeIf first (length (ht_buckets t)) P t))"
    and "ht_abs (snd (ht_removeIf first (length (ht_buckets t)) P t)) = filter (\<lambda>e. \<not> P e) (ht_abs t)"
proof -
  let ?len = "length (ht_buckets t)"
  note r = ht_removeIf_correct [OF assms, of first ?len P]
  show "ht_inv (snd (ht_removeIf first ?len P t))" using r by simp
  from assms obtain ns where ns: "ht_rep t ns" "ht_abs t = map n_entry ns" by (rule ht_invE)
  have "bucketIndex ?len (e_key e) \<in> set (scan_range first ?len ?len)" if "e \<in> set (ht_abs t)" for e
  proof -
    have "ht_buckets t \<noteq> []" using ns that by (auto simp: ht_rep_def)
    then show ?thesis
      using ns(1) bucketIndex_less [of ?len "e_key e"] scan_range_full [of ?len first]
      by (auto simp: ht_rep_def)
  qed
  then show "ht_abs (snd (ht_removeIf first ?len P t)) = filter (\<lambda>e. \<not> P e) (ht_abs t)"
    using r by (auto intro!: filter_cong)
qed

lemma ht_apply_correct:
  assumes "ht_inv t" "resizable oper"
  shows "\<exists>t'. ht_apply oper t = Some t' \<and> ht_inv t' \<and> ht_abs t' = lru_apply oper (ht_abs t)"
proof (cases oper)
  case (Op_put_expiring k v x)
  have "lru_find k (lru_put k v (ht_abs t)) \<noteq> None" by simp
  then show ?thesis
    using Op_put_expiring ht_put_correct [OF assms(1), of k v]
      ht_set_expiration_correct [of "snd (ht_put k v t)" k x] by simp
next
  case (Op_resize n)
  with assms ht_resize_correct [of t n] show ?thesis by auto
qed (use assms(1) ht_put_correct ht_remove_correct ht_touch_correct ht_evictOldest_correct
      ht_clear_correct ht_sweep_correct in simp_all)

lemma ht_run_correct:
  assumes "ht_inv t" "list_all resizable ops"
  shows "\<exists>t'. ht_run ops t = Some t' \<and> ht_inv t' \<and> ht_abs t' = fold lru_apply ops (ht_abs t)"
  using assms
proof (induction ops arbitrary: t)
  case (Cons oper ops)
  then obtain t' where "ht_apply oper t = Some t'" "ht_inv t'" "ht_abs t' = lru_apply oper (ht_abs t)"
    using ht_apply_correct [of t oper] by auto
  with Cons.IH [of t'] Cons.prems show ?case by simp
qed simp

section \<open>Properties\<close>

text \<open>
  C2. Refinement: any sequence of mutating operations on a newly constructed table
  returns, keeps the representation invariant, and leaves the entries, read by
  walking the recency pointers from the head, equal to those of an abstract LRU
  cache after the same operations. Resize arguments are at most \<open>2 ^ 63\<close>.
\<close>

theorem ht_run_refines_lru:
  assumes "list_all resizable ops"
  shows "\<exists>t. ht_run ops (HashTable n) = Some t \<and> ht_inv t \<and> ht_abs t = fold lru_apply ops []"
  using ht_run_correct [OF HashTable_correct(1) assms, of n] by (simp add: HashTable_correct(2))

theorem ht_run_refines_lru_witness:
  "\<exists>t. ht_run [Op_put ''a'' ''1'', Op_put ''b'' ''2'', Op_touch ''a'', Op_resize 64, Op_evictOldest]
      (HashTable 2) = Some t \<and> ht_inv t \<and> ht_abs t = [Entry ''a'' ''1'']"
  using ht_run_refines_lru [of "[Op_put ''a'' ''1'', Op_put ''b'' ''2'', Op_touch ''a'', Op_resize 64,
      Op_evictOldest]" 2]
  by (simp add: lru_put_def lru_remove_def lru_touch_def lru_find_def)

text \<open>
  C26. Every observer of a well-formed table reads the abstract cache: lookups find
  the entry of a key, the counters are the number of entries and the sum of their
  footprint estimates, the two ends are the most and the least recently used key,
  each key is listed once, and the load factor is at most three quarters.
\<close>

theorem ht_observers_correct:
  assumes "ht_inv t"
  shows "ht_find k t = lru_find k (ht_abs t) \<and>
    ht_get k t = map_option e_value (lru_find k (ht_abs t)) \<and>
    (ht_contains k t \<longleftrightarrow> k \<in> e_key ` set (ht_abs t)) \<and>
    ht_size t = length (ht_abs t) \<and>
    ht_memoryUsage t = sum_list (map entry_footprint (ht_abs t)) + length (ht_buckets t) * sizeof_ptr \<and>
    ht_mostRecentKey t = map_option e_key (head_opt (ht_abs t)) \<and>
    ht_leastRecentKey t = map_option e_key (last_opt (ht_abs t)) \<and>
    mset (ht_keys t) = mset (map e_key (ht_abs t)) \<and> distinct (ht_keys t) \<and>
    ht_loadFactor t \<le> kMaxLoadFactor"
proof -
  from assms obtain ns where ns: "ht_rep t ns" "ht_abs t = map n_entry ns" by (rule ht_invE)
  have keys: "mset (ht_keys t) = mset (map e_key (ht_abs t))"
    using ht_keysWhere_correct [OF assms, of "\<lambda>_. True"] by (simp add: ht_keys_def ht_keysWhere_def)
  moreover have "distinct (ht_keys t)"
    using keys ht_abs_distinct [OF assms] by (metis mset_eq_imp_distinct_iff)
  moreover have "ht_loadFactor t \<le> kMaxLoadFactor"
    using ht_repD(11) [OF ns(1)] ht_repD(6) [OF ns(1)]
    by (auto simp: ht_loadFactor_def over_load_def kMaxLoadFactor_def field_simps not_less)
  ultimately show ?thesis
    using ht_find_lru [OF assms] lru_find_None [of k "ht_abs t"] ht_ends_correct [OF assms]
      ht_size_correct [OF assms] ht_entryBytes_correct [OF assms]
    by (auto simp: ht_get_def ht_contains_def ht_memoryUsage_def)
qed

theorem ht_observers_correct_witness:
  "ht_size (snd (ht_put ''k'' ''v'' (HashTable 16))) = 1 \<and>
   ht_get ''k'' (snd (ht_put ''k'' ''v'' (HashTable 16))) = Some ''v'' \<and>
   ht_leastRecentKey (snd (ht_put ''k'' ''v'' (HashTable 16))) = Some ''k''"
proof -
  have "ht_inv (snd (ht_put ''k'' ''v'' (HashTable 16)))"
    "ht_abs (snd (ht_put ''k'' ''v'' (HashTable 16))) = [Entry ''k'' ''v'']"
    using ht_put_correct [OF HashTable_correct(1), of "''k''" "''v''" 16]
    by (simp_all add: HashTable_correct lru_put_def lru_remove_def)
  then show ?thesis using ht_observers_correct [of _ "''k''"] by (simp add: lru_find_def)
qed

text \<open>
  The results the operations report: \<open>put\<close> says whether the key was new, \<open>remove\<close>
  and \<open>touch\<close> whether it was there, \<open>evictOldest\<close> which key was least recently used
  (none exactly when the table is empty), and \<open>removeIf\<close> how many entries it dropped.
\<close>

theorem ht_results_correct:
  assumes "ht_inv t"
  shows "fst (ht_put k v t) = (ht_find k t = None) \<and>
    fst (ht_remove k t) = (ht_find k t \<noteq> None) \<and>
    fst (ht_touch k t) = (ht_find k t \<noteq> None) \<and>
    fst (ht_evictOldest t) = ht_leastRecentKey t \<and>
    (fst (ht_evictOldest t) = None \<longleftrightarrow> ht_size t = 0) \<and>
    fst (ht_removeIf first n P t) + ht_size (snd (ht_removeIf first n P t)) = ht_size t"
proof -
  let ?t = "snd (ht_removeIf first n P t)"
  have "fst (ht_removeIf first n P t) + length (ht_abs ?t) = length (ht_abs t)" "ht_inv ?t"
    using ht_removeIf_correct [OF assms, of first n P] by (simp_all only: sum_length_filter_compl)
  then show ?thesis
    using ht_find_lru [OF assms] ht_put_correct [OF assms] ht_remove_correct [OF assms]
      ht_touch_correct [OF assms] ht_evictOldest_correct [OF assms] ht_ends_correct(2) [OF assms]
      ht_size_correct [OF assms] ht_size_correct [of ?t]
    by simp
qed

theorem ht_results_correct_witness:
  "fst (ht_put ''k'' ''v'' (HashTable 16)) \<and> fst (ht_evictOldest (HashTable 16)) = None"
proof -
  have "ht_find ''k'' (HashTable 16) = None" "ht_size (HashTable 16) = 0"
    by (simp_all add: ht_find_lru ht_size_correct HashTable_correct)
  then show ?thesis
    using ht_results_correct [OF HashTable_correct(1), of "''k''" "''v''" 16 0 0 "\<lambda>_. True"] by auto
qed

text \<open>
  Resizing returns for every request up to \<open>2 ^ 63\<close> buckets, gives at least that
  many, and keeps all entries with their recency order.
\<close>

theorem ht_resize_returns:
  assumes "ht_inv t" "n \<le> 2 ^ 63"
  shows "\<exists>t'. ht_resize n t = Some t' \<and> ht_inv t' \<and> ht_abs t' = ht_abs t \<and>
    n \<le> length (ht_buckets t')"
  using assms by (rule ht_resize_correct)

theorem ht_resize_returns_witness:
  "\<exists>t'. ht_resize 100 (HashTable 1) = Some t' \<and> ht_inv t' \<and> ht_abs t' = [] \<and>
     100 \<le> length (ht_buckets t')"
  using ht_resize_returns [OF HashTable_correct(1), of 100 1] by (simp add: HashTable_correct)

text \<open>
  Above \<open>2 ^ 63\<close> the rounding overflows to zero and resizing a non-empty table does
  not return: the doubling loop starts at zero and never leaves it.
\<close>

theorem ht_resize_does_not_return:
  assumes "2 ^ 63 < n" "n < 2 ^ 64" "ht_size t \<noteq> 0"
  shows "ht_resize n t = None"
  using assms by (rule ht_resize_diverges)

theorem ht_resize_does_not_return_witness:
  "ht_resize (2 ^ 63 + 1) ((HashTable 1)\<lparr>ht_size := 1\<rparr>) = None"
  by (rule ht_resize_does_not_return) simp_all

text \<open>
  A partial sweep removes exactly the entries that satisfy the predicate and whose
  bucket is among the \<open>n\<close> buckets from \<open>first\<close> on, cyclically; everything else keeps its
  recency order, and the array keeps its length.
\<close>

theorem ht_removeIf_exact:
  assumes "ht_inv t" "ht_buckets t \<noteq> []"
  shows "ht_inv (snd (ht_removeIf first n P t)) \<and>
    ht_abs (snd (ht_removeIf first n P t)) =
      filter (\<lambda>e. \<not> (P e \<and> (\<exists>j<n. bucketIndexFor t (e_key e) = (first + j) mod length (ht_buckets t))))
        (ht_abs t) \<and>
    length (ht_buckets (snd (ht_removeIf first n P t))) = length (ht_buckets t)"
proof -
  let ?len = "length (ht_buckets t)"
  have "(\<exists>j<n. i = (first + j) mod ?len) \<longleftrightarrow> i \<in> set (scan_range first (min n ?len) ?len)"
    if "i < ?len" for i
  proof (cases "n \<le> ?len")
    case True
    then show ?thesis by (auto simp: scan_range_def min_def)
  next
    case False
    have "0 < ?len" using assms(2) by simp
    then have "i \<in> set (scan_range first ?len ?len)" using that by (simp only: scan_range_full lessThan_iff)
    with False show ?thesis by (auto simp: scan_range_def min_def) (metis less_trans not_le_imp_less)
  qed
  moreover have "bucketIndex ?len k < ?len" for k
    using assms by (auto simp: ht_inv_def ht_rep_def bucketIndex_less)
  ultimately show ?thesis
    using ht_removeIf_correct [OF assms(1), of first n P] by (simp add: bucketIndexFor_def)
qed

theorem ht_removeIf_exact_witness:
  "ht_inv (snd (ht_removeIf 3 2 (\<lambda>_. True) (HashTable 4))) \<and>
   length (ht_buckets (snd (ht_removeIf 3 2 (\<lambda>_. True) (HashTable 4)))) = 4"
proof -
  have "length (ht_buckets (HashTable 4)) = 4" by code_simp
  moreover from this have "ht_buckets (HashTable 4) \<noteq> []" by auto
  ultimately show ?thesis
    using ht_removeIf_exact [OF HashTable_correct(1), of 4 3 2 "\<lambda>_. True"] by simp
qed

text \<open>
  \<open>roundUpToPowerOfTwo\<close>, computed by smearing bits, is the least power of two at or
  above its argument up to \<open>2 ^ 63\<close>, and zero above.
\<close>

theorem roundUpToPowerOfTwo_correct:
  "if unat n \<le> 2 ^ 63
   then is_pow2 (unat (roundUpToPowerOfTwo n)) \<and> unat n \<le> unat (roundUpToPowerOfTwo n) \<and>
     {p. is_pow2 p \<and> unat n \<le> p} \<subseteq> {unat (roundUpToPowerOfTwo n)..}
   else roundUpToPowerOfTwo n = 0"
  using roundUp_least [of n] roundUp_overflow [of n] by (auto simp: not_le)

text \<open>
  Moving a table hands over the content and leaves the source empty, well formed and
  usable; move assignment additionally drops what the target held.
\<close>

theorem ht_move_correct:
  assumes "ht_inv other"
  shows "ht_inv (fst (HashTable_move other)) \<and> ht_abs (fst (HashTable_move other)) = ht_abs other \<and>
    ht_inv (snd (HashTable_move other)) \<and> ht_abs (snd (HashTable_move other)) = [] \<and>
    ht_abs (snd (ht_put k v (snd (HashTable_move other)))) = [Entry k v] \<and>
    fst (ht_move_assign this other) = other \<and>
    snd (ht_move_assign this other) = snd (HashTable_move other)"
proof -
  have "ht_inv (ht_emptied other)" "ht_abs (ht_emptied other) = []"
    using ht_rep_inv [OF ht_emptied_rep] ht_abs_rep [OF ht_emptied_rep] by simp_all
  moreover have "fst (HashTable_move other) = other" "fst (ht_move_assign this other) = other"
    by (simp_all add: HashTable_move_def ht_move_assign_def ht_clear_def)
  moreover have "snd (HashTable_move other) = ht_emptied other" "snd (ht_move_assign this other) = ht_emptied other"
    by (simp_all add: HashTable_move_def ht_move_assign_def)
  ultimately show ?thesis
    using assms ht_put_correct [of "ht_emptied other" k v] by (simp add: lru_put_def lru_remove_def)
qed

theorem ht_move_correct_witness:
  "ht_abs (snd (ht_put ''k'' ''v'' (snd (HashTable_move (HashTable 8))))) = [Entry ''k'' ''v'']"
  using ht_move_correct [OF HashTable_correct(1), of 8] by blast

end
