(* ===== verification/VC_Database.thy ===== *)
theory VC_Database
  imports VC_HashTable_Correct "HOL-Library.Monad_Syntax"
begin

text \<open>
  The database engine of include/Database.h and src/Database.cpp: the keyspace
  split over independently locked shards, expiry, and eviction under a memory
  limit. Each public method is one critical section per shard it visits, so it
  is modelled as a function of the database; methods that visit several shards
  read the clock once per shard, and take those readings as a function \<open>clk\<close> of
  the shard's position.
\<close>

datatype SetOutcome = Inserted | Updated | Rejected

record shard =
  sh_table :: hash_table
  sh_sweepCursor :: nat
  sh_evicted :: nat
  sh_maxMemoryBytes :: nat

record database =
  db_shards :: "shard list"
  db_shardMask :: u64
  db_shardShift :: nat
  db_maxMemoryBytes :: nat

section \<open>Construction\<close>

text \<open>
  The two loops of the anonymous namespace, on 64-bit words. The first does not
  return above \<open>2 ^ 63\<close>, where doubling wraps around to zero.
\<close>

partial_function (option) round_loop :: "u64 \<Rightarrow> u64 \<Rightarrow> u64 option" where
  "round_loop result n = (if result < n then round_loop (result * 2) n else Some result)"

definition db_roundUpToPowerOfTwo :: "u64 \<Rightarrow> u64 option" where
  "db_roundUpToPowerOfTwo n = round_loop 1 n"

partial_function (option) log2_loop :: "nat \<Rightarrow> u64 \<Rightarrow> nat option" where
  "log2_loop bits n = (if push_bit bits 1 < n then log2_loop (bits + 1) n else Some bits)"

definition log2OfPowerOfTwo :: "u64 \<Rightarrow> nat option" where
  "log2OfPowerOfTwo n = log2_loop 0 n"

declare round_loop.simps [code] log2_loop.simps [code]

definition Shard :: "nat \<Rightarrow> shard" where
  "Shard buckets =
     \<lparr>sh_table = HashTable buckets, sh_sweepCursor = 0, sh_evicted = 0, sh_maxMemoryBytes = 0\<rparr>"

definition kDefaultShardCount :: nat where
  "kDefaultShardCount = 64"

definition Database :: "nat \<Rightarrow> nat \<Rightarrow> database option" where
  "Database initialBucketCount shardCount = do {
     shards \<leftarrow> db_roundUpToPowerOfTwo (of_nat (max shardCount 1));
     let bucketsPerShard = max (initialBucketCount div unat shards) 1;
     let db = \<lparr>db_shards = replicate (unat shards) (Shard bucketsPerShard),
               db_shardMask = 0, db_shardShift = 0, db_maxMemoryBytes = 0\<rparr>;
     if shards > 1 then do {
       bits \<leftarrow> log2OfPowerOfTwo shards;
       Some (db\<lparr>db_shardMask := shards - 1, db_shardShift := 64 - bits\<rparr>)
     } else Some db
   }"

section \<open>Routing\<close>

definition shardIndexFor :: "database \<Rightarrow> string \<Rightarrow> nat" where
  "shardIndexFor db key =
     (if db_shardMask db = 0 then 0
      else unat (drop_bit (db_shardShift db) (hashKey key) AND db_shardMask db))"

definition shardFor :: "database \<Rightarrow> string \<Rightarrow> shard" where
  "shardFor db key = db_shards db ! shardIndexFor db key"

definition set_shardFor :: "database \<Rightarrow> string \<Rightarrow> shard \<Rightarrow> database" where
  "set_shardFor db key s = db\<lparr>db_shards := (db_shards db)[shardIndexFor db key := s]\<rparr>"

section \<open>Memory limit and eviction\<close>

definition fitsWithinLimit :: "database \<Rightarrow> string \<Rightarrow> string \<Rightarrow> bool" where
  "fitsWithinLimit db key val \<longleftrightarrow>
     (let limit = db_maxMemoryBytes db
      in if limit = 0 then True else footprintEstimate key val \<le> limit)"

text \<open>
  The loop of \<open>evictToFit\<close>. An iteration removes an entry, so as many iterations
  as there are entries are enough; that the loop has then stopped by its own
  condition is part of what is proved about it.
\<close>

fun evict_loop :: "nat \<Rightarrow> shard \<Rightarrow> shard" where
  "evict_loop 0 s = s"
| "evict_loop (Suc n) s =
     (if ht_memoryUsage (sh_table s) > sh_maxMemoryBytes s \<and> ht_size (sh_table s) > 1
      then (case ht_evictOldest (sh_table s) of
              (None, _) \<Rightarrow> s
            | (Some _, t) \<Rightarrow> evict_loop n (s\<lparr>sh_table := t, sh_evicted := Suc (sh_evicted s)\<rparr>))
      else s)"

definition evictToFit :: "shard \<Rightarrow> shard" where
  "evictToFit s = (if sh_maxMemoryBytes s = 0 then s else evict_loop (ht_size (sh_table s)) s)"

section \<open>Single-key operations\<close>

definition db_set :: "string \<Rightarrow> string \<Rightarrow> database \<Rightarrow> SetOutcome \<times> database" where
  "db_set key val db =
     (let s = shardFor db key in
      if \<not> fitsWithinLimit db key val then (Rejected, db)
      else (case ht_put key val (sh_table s) of
              (inserted, t) \<Rightarrow>
                (if inserted then Inserted else Updated,
                 set_shardFor db key (evictToFit (s\<lparr>sh_table := t\<rparr>)))))"

text \<open>A duration in seconds as steady-clock ticks (nanoseconds).\<close>

definition seconds :: "int \<Rightarrow> int" where
  "seconds n = n * 1000000000"

definition db_set_ttl ::
  "time_point \<Rightarrow> string \<Rightarrow> string \<Rightarrow> int \<Rightarrow> database \<Rightarrow> SetOutcome \<times> database" where
  "db_set_ttl now key val ttl db =
     (let s = shardFor db key in
      if \<not> fitsWithinLimit db key val then (Rejected, db)
      else (case ht_put key val (sh_table s) of
              (inserted, t) \<Rightarrow>
                (if inserted then Inserted else Updated,
                 set_shardFor db key (evictToFit
                   (s\<lparr>sh_table := ht_set_expiration key (Some (now + seconds ttl)) t\<rparr>)))))"

definition db_get :: "time_point \<Rightarrow> string \<Rightarrow> database \<Rightarrow> string option \<times> database" where
  "db_get now key db =
     (let s = shardFor db key in
      case ht_find key (sh_table s) of
        None \<Rightarrow> (None, db)
      | Some e \<Rightarrow>
          if isExpiredAt now e then (None, db)
          else (Some (e_value e),
                if sh_maxMemoryBytes s \<noteq> 0
                then set_shardFor db key (s\<lparr>sh_table := snd (ht_touch key (sh_table s))\<rparr>)
                else db))"

text \<open>\<open>std::chrono::ceil<seconds>\<close> of a duration in nanoseconds.\<close>

definition ceil_seconds :: "int \<Rightarrow> int" where
  "ceil_seconds d = - ((- d) div 1000000000)"

definition db_ttl :: "time_point \<Rightarrow> string \<Rightarrow> database \<Rightarrow> int option" where
  "db_ttl now key db =
     (case ht_find key (sh_table (shardFor db key)) of
        None \<Rightarrow> None
      | Some e \<Rightarrow>
          (case e_expiration e of
             None \<Rightarrow> None
           | Some t \<Rightarrow> if t - now \<le> 0 then None else Some (ceil_seconds (t - now))))"

definition db_del :: "time_point \<Rightarrow> string \<Rightarrow> database \<Rightarrow> bool \<times> database" where
  "db_del now key db =
     (let s = shardFor db key in
      case ht_find key (sh_table s) of
        None \<Rightarrow> (False, db)
      | Some e \<Rightarrow>
          (\<not> isExpiredAt now e,
           set_shardFor db key (s\<lparr>sh_table := snd (ht_remove key (sh_table s))\<rparr>)))"

definition db_exists :: "time_point \<Rightarrow> string \<Rightarrow> database \<Rightarrow> bool" where
  "db_exists now key db =
     (case ht_find key (sh_table (shardFor db key)) of
        None \<Rightarrow> False | Some e \<Rightarrow> \<not> isExpiredAt now e)"

section \<open>Whole-keyspace operations\<close>

fun keys_from :: "(nat \<Rightarrow> time_point) \<Rightarrow> nat \<Rightarrow> shard list \<Rightarrow> string list" where
  "keys_from clk i [] = []"
| "keys_from clk i (s # ss) =
     ht_keysWhere (\<lambda>e. \<not> isExpiredAt (clk i) e) (sh_table s) @ keys_from clk (Suc i) ss"

definition db_keys :: "(nat \<Rightarrow> time_point) \<Rightarrow> database \<Rightarrow> string list" where
  "db_keys clk db = keys_from clk 0 (db_shards db)"

definition db_size :: "database \<Rightarrow> nat" where
  "db_size db = foldl (\<lambda>total s. total + ht_size (sh_table s)) 0 (db_shards db)"

definition db_empty :: "database \<Rightarrow> bool" where
  "db_empty db \<longleftrightarrow> list_all (\<lambda>s. ht_size (sh_table s) = 0) (db_shards db)"

definition db_bucketCount :: "database \<Rightarrow> nat" where
  "db_bucketCount db = foldl (\<lambda>total s. total + length (ht_buckets (sh_table s))) 0 (db_shards db)"

definition db_memoryUsage :: "database \<Rightarrow> nat" where
  "db_memoryUsage db = foldl (\<lambda>total s. total + ht_memoryUsage (sh_table s)) 0 (db_shards db)"

definition db_evictedCount :: "database \<Rightarrow> nat" where
  "db_evictedCount db = foldl (\<lambda>total s. total + sh_evicted s) 0 (db_shards db)"

definition sweep_shard :: "time_point \<Rightarrow> nat \<Rightarrow> shard \<Rightarrow> nat \<times> shard" where
  "sweep_shard now perShard s =
     (let buckets = length (ht_buckets (sh_table s)) in
      if buckets = 0 then (0, s)
      else let cursor = (if sh_sweepCursor s \<ge> buckets then 0 else sh_sweepCursor s);
               scanned = min perShard buckets
           in case ht_removeIf cursor scanned (isExpiredAt now) (sh_table s) of
                (removed, t) \<Rightarrow>
                  (removed, s\<lparr>sh_table := t, sh_sweepCursor := (cursor + scanned) mod buckets\<rparr>))"

fun sweep_shards ::
  "(nat \<Rightarrow> time_point) \<Rightarrow> nat \<Rightarrow> nat \<Rightarrow> shard list \<Rightarrow> nat \<times> shard list" where
  "sweep_shards clk perShard i [] = (0, [])"
| "sweep_shards clk perShard i (s # ss) =
     (case sweep_shard (clk i) perShard s of
        (r, s') \<Rightarrow> (case sweep_shards clk perShard (Suc i) ss of (r', ss') \<Rightarrow> (r + r', s' # ss')))"

definition db_removeExpired ::
  "(nat \<Rightarrow> time_point) \<Rightarrow> nat \<Rightarrow> database \<Rightarrow> nat \<times> database" where
  "db_removeExpired clk maxBuckets db =
     (if maxBuckets = 0 then (0, db)
      else let perShard = max (maxBuckets div length (db_shards db)) 1 in
        case sweep_shards clk perShard 0 (db_shards db) of
          (removed, ss) \<Rightarrow> (removed, db\<lparr>db_shards := ss\<rparr>))"

fun snapshot_from :: "(nat \<Rightarrow> time_point) \<Rightarrow> nat \<Rightarrow> shard list \<Rightarrow> entry list" where
  "snapshot_from clk i [] = []"
| "snapshot_from clk i (s # ss) =
     ht_entriesWhere (\<lambda>e. \<not> isExpiredAt (clk i) e) (sh_table s) @ snapshot_from clk (Suc i) ss"

definition db_snapshot :: "(nat \<Rightarrow> time_point) \<Rightarrow> database \<Rightarrow> entry list" where
  "db_snapshot clk db = snapshot_from clk 0 (db_shards db)"

definition clear_shard :: "shard \<Rightarrow> shard" where
  "clear_shard s = s\<lparr>sh_table := ht_clear (sh_table s), sh_sweepCursor := 0\<rparr>"

definition db_clear :: "database \<Rightarrow> database" where
  "db_clear db = db\<lparr>db_shards := map clear_shard (db_shards db)\<rparr>"

definition restore_entry :: "entry \<Rightarrow> database \<Rightarrow> database" where
  "restore_entry e db =
     (let s = shardFor db (e_key e);
          t = snd (ht_put (e_key e) (e_value e) (sh_table s))
      in set_shardFor db (e_key e)
           (s\<lparr>sh_table := (if hasExpiration e
                           then ht_set_expiration (e_key e) (e_expiration e) t else t)\<rparr>))"

fun restore_loop :: "time_point \<Rightarrow> entry list \<Rightarrow> nat \<Rightarrow> database \<Rightarrow> nat \<times> database" where
  "restore_loop now [] stored db = (stored, db)"
| "restore_loop now (e # es) stored db =
     (if isExpiredAt now e then restore_loop now es stored db
      else restore_loop now es (Suc stored) (restore_entry e db))"

definition db_restore :: "time_point \<Rightarrow> entry list \<Rightarrow> database \<Rightarrow> nat \<times> database" where
  "db_restore now entries db =
     restore_loop now entries 0 (db\<lparr>db_shards := map clear_shard (db_shards db)\<rparr>)"

definition db_setMaxMemory :: "nat \<Rightarrow> database \<Rightarrow> database" where
  "db_setMaxMemory bytes db =
     (let perShard = (if bytes = 0 then 0 else max (bytes div length (db_shards db)) 1)
      in db\<lparr>db_shards := map (\<lambda>s. evictToFit (s\<lparr>sh_maxMemoryBytes := perShard\<rparr>)) (db_shards db),
            db_maxMemoryBytes := bytes\<rparr>)"

end
