(* ===== verification/VC_Database_Inv.thy ===== *)
theory VC_Database_Inv
  imports VC_Database
begin

text \<open>
  The invariant of the database (routing, well-formed shards, keys in the shard
  they hash to, memory slices), its establishment by the constructor, and the
  contract \<open>sharded\<close> that reduces a lookup after an update of one shard to
  lookups in that shard.
\<close>

section \<open>The constructor's loops\<close>

lemma pow2_word_double: "k < 63 \<Longrightarrow> (2 ^ k * 2 :: u64) = 2 ^ Suc k"
  by simp

lemma unat_pow2_le: "k \<le> 63 \<Longrightarrow> unat (2 ^ k :: u64) = 2 ^ k"
  by (simp add: unat_pow2)

lemma word_less_pow2: "k \<le> 63 \<Longrightarrow> (2 ^ k < n) = (2 ^ k < unat n)" for n :: u64
  by (simp add: word_less_nat_alt unat_pow2_le)

lemma round_loop_returns:
  assumes "j \<le> 63" "unat n \<le> 2 ^ 63"
  shows "\<exists>k. j \<le> k \<and> k \<le> 63 \<and> round_loop (2 ^ j) n = Some (2 ^ k) \<and> unat n \<le> 2 ^ k \<and>
    (j < k \<longrightarrow> 2 ^ (k - 1) < unat n)"
  using assms
proof (induction "63 - j" arbitrary: j rule: less_induct)
  case less
  show ?case
  proof (cases "2 ^ j < unat n")
    case True
    then have "(2::nat) ^ j < 2 ^ 63" using less.prems by linarith
    then have j: "j < 63" by (rule power_less_imp_less_exp [rotated]) simp
    then have lt: "63 - Suc j < 63 - j" by simp
    obtain k where k: "Suc j \<le> k" "k \<le> 63" "round_loop (2 ^ Suc j) n = Some (2 ^ k)"
        "unat n \<le> 2 ^ k" "Suc j < k \<longrightarrow> 2 ^ (k - 1) < unat n"
      using less.hyps [OF lt] less.prems j by auto
    have "round_loop (2 ^ j) n = Some (2 ^ k)"
      using True k(3) word_less_pow2 [of j n] less.prems
      by (subst round_loop.simps) (simp add: mult.commute)
    moreover have "2 ^ (k - 1) < unat n"
      using k True by (cases "k = Suc j") auto
    ultimately show ?thesis using k by (intro exI [of _ k]) auto
  next
    case False
    then have "round_loop (2 ^ j) n = Some (2 ^ j)"
      using word_less_pow2 [of j n] less.prems by (subst round_loop.simps) simp
    with False less.prems show ?thesis by (intro exI [of _ j]) auto
  qed
qed

lemma round_loop_diverges:
  assumes "2 ^ 63 < unat n"
  shows "round_loop 1 n = None"
proof (rule ccontr)
  assume "round_loop 1 n \<noteq> None"
  then obtain r where ret: "round_loop 1 n = Some r" by auto
  let ?P = "\<lambda>(x::u64) (n::u64) (r::u64). \<not> (2 ^ 63 < unat n \<and> (x = 0 \<or> (\<exists>k\<le>63. x = 2 ^ k)))"
  have "?P x n r" if "round_loop x n = Some r" for x n r
  proof (rule round_loop.raw_induct [where P = ?P, OF _ that])
    fix f and x n r :: u64
    assume IH: "\<And>x n r. f x n = Some r \<Longrightarrow> ?P x n r"
      and eq: "(if x < n then f (x * 2) n else Some x) = Some r"
    show "?P x n r"
    proof
      assume a: "2 ^ 63 < unat n \<and> (x = 0 \<or> (\<exists>k\<le>63. x = 2 ^ k))"
      have "x < n \<and> (x * 2 = 0 \<or> (\<exists>k\<le>63. x * 2 = 2 ^ k))"
      proof (cases "x = 0")
        case True
        with a show ?thesis by (simp add: word_less_nat_alt)
      next
        case False
        with a obtain k where k: "k \<le> 63" "x = 2 ^ k" by auto
        have "(2::nat) ^ k \<le> 2 ^ 63" using k by (intro power_increasing) auto
        then have "2 ^ k < unat n" using a by linarith
        then have "x < n" unfolding k(2) word_less_pow2 [OF k(1)] .
        moreover have "x * 2 = 0 \<or> (\<exists>k\<le>63. x * 2 = 2 ^ k)"
        proof (cases "k = 63")
          case True
          then show ?thesis using k by simp
        next
          case False
          with k show ?thesis by (intro disjI2 exI [of _ "Suc k"]) simp
        qed
        ultimately show ?thesis by blast
      qed
      with eq have "f (x * 2) n = Some r" by simp
      from IH [OF this] a \<open>x < n \<and> (x * 2 = 0 \<or> (\<exists>k\<le>63. x * 2 = 2 ^ k))\<close>
      show False by blast
    qed
  qed
  from this [OF ret] assms show False
    by (auto dest: spec [of _ 0])
qed

lemma log2_loop_returns:
  assumes "b \<le> k" "k \<le> 63"
  shows "log2_loop b (2 ^ k) = Some k"
  using assms
proof (induction "k - b" arbitrary: b rule: less_induct)
  case less
  have push: "push_bit b (1 :: u64) = 2 ^ b" by (simp add: push_bit_eq_mult)
  show ?case
  proof (cases "b = k")
    case True
    then show ?thesis by (subst log2_loop.simps) (simp add: push)
  next
    case False
    with less.prems have "(2::nat) ^ b < 2 ^ k" by (intro power_strict_increasing) auto
    then have "(2 ^ b :: u64) < 2 ^ k"
      using less.prems by (simp add: word_less_nat_alt unat_pow2_le)
    moreover have "log2_loop (b + 1) (2 ^ k) = Some k"
      using less.hyps [of "b + 1"] less.prems False by auto
    ultimately show ?thesis by (subst log2_loop.simps) (simp add: push)
  qed
qed

section \<open>Invariant\<close>

definition db_routing :: "database \<Rightarrow> nat \<Rightarrow> bool" where
  "db_routing db k \<longleftrightarrow> k \<le> 63 \<and> length (db_shards db) = 2 ^ k \<and>
     db_shardMask db = of_nat (2 ^ k) - 1 \<and> db_shardShift db = (if k = 0 then 0 else 64 - k)"

definition db_slice :: "database \<Rightarrow> nat" where
  "db_slice db =
     (if db_maxMemoryBytes db = 0 then 0
      else max (db_maxMemoryBytes db div length (db_shards db)) 1)"

definition shard_ok :: "database \<Rightarrow> nat \<Rightarrow> shard \<Rightarrow> bool" where
  "shard_ok db i s \<longleftrightarrow> ht_inv (sh_table s) \<and>
     (\<forall>e\<in>set (ht_abs (sh_table s)). shardIndexFor db (e_key e) = i) \<and>
     sh_maxMemoryBytes s = db_slice db"

definition db_inv :: "database \<Rightarrow> bool" where
  "db_inv db \<longleftrightarrow> (\<exists>k. db_routing db k) \<and>
     (\<forall>i<length (db_shards db). shard_ok db i (db_shards db ! i))"

definition db_lookup :: "database \<Rightarrow> string \<Rightarrow> entry option" where
  "db_lookup db key = ht_find key (sh_table (shardFor db key))"

lemma of_nat_pow2_eq_1: "k \<le> 63 \<Longrightarrow> (of_nat (2 ^ k) - 1 :: u64) = 0 \<longleftrightarrow> k = 0"
proof -
  assume k: "k \<le> 63"
  have "(of_nat (2 ^ k) - 1 :: u64) = 0 \<longleftrightarrow> (2 ^ k :: u64) = 1" by simp
  also have "\<dots> \<longleftrightarrow> unat (2 ^ k :: u64) = unat (1 :: u64)" by (metis word_unat_eq_iff)
  also have "\<dots> \<longleftrightarrow> (2::nat) ^ k = 1" by (simp only: unat_pow2_le [OF k] unat_1)
  finally show ?thesis by simp
qed

lemma shardIndexFor_less:
  assumes "db_routing db k"
  shows "shardIndexFor db key < 2 ^ k"
  using assms mask_pow2_less [of "2 ^ k"] by (simp add: shardIndexFor_def db_routing_def)

lemma shardFor_less: "db_inv db \<Longrightarrow> shardIndexFor db key < length (db_shards db)"
  using shardIndexFor_less by (auto simp: db_inv_def db_routing_def)

text \<open>The shard is selected by the topmost bits of the hash.\<close>

lemma shardIndexFor_high_bits:
  assumes "db_routing db k"
  shows "shardIndexFor db key = unat (hashKey key) div 2 ^ (64 - k)"
proof -
  have h: "unat (hashKey key) < 2 ^ 64" using unsigned_less [of "hashKey key"] by simp
  show ?thesis
  proof (cases "k = 0")
    case True
    with assms h show ?thesis by (simp add: shardIndexFor_def db_routing_def)
  next
    case False
    have k: "k \<le> 63" using assms by (simp add: db_routing_def)
    have "shardIndexFor db key = unat (drop_bit (64 - k) (hashKey key)) mod 2 ^ k"
      using assms False of_nat_pow2_eq_1 [OF k]
        mask_pow2_eq_mod [of "2 ^ k" "drop_bit (64 - k) (hashKey key)"]
      by (simp add: shardIndexFor_def db_routing_def)
    also have "unat (drop_bit (64 - k) (hashKey key)) = unat (hashKey key) div 2 ^ (64 - k)"
      using h by (simp add: unsigned_drop_bit_eq take_bit_nat_eq_self flip: drop_bit_eq_div)
    also have "\<dots> mod 2 ^ k = unat (hashKey key) div 2 ^ (64 - k)"
    proof (rule mod_less)
      have "unat (hashKey key) < 2 ^ k * 2 ^ (64 - k)"
        using h k by (simp flip: power_add)
      then show "unat (hashKey key) div 2 ^ (64 - k) < 2 ^ k"
        by (simp add: less_mult_imp_div_less)
    qed
    finally show ?thesis .
  qed
qed

section \<open>The constructor establishes the invariant\<close>

lemma Database_returns:
  assumes "n \<le> 2 ^ 63"
  shows "\<exists>db k. Database b n = Some db \<and> db_routing db k \<and> max n 1 \<le> 2 ^ k \<and>
    (0 < k \<longrightarrow> 2 ^ (k - 1) < max n 1) \<and> db_maxMemoryBytes db = 0 \<and>
    db_shards db = replicate (2 ^ k) (Shard (max (b div 2 ^ k) 1))"
proof -
  have u: "unat (of_nat (max n 1) :: u64) = max n 1"
    using assms unfolding unat_of_nat by simp
  then obtain k where k: "k \<le> 63" "round_loop (2 ^ 0) (of_nat (max n 1)) = Some (2 ^ k)"
      "max n 1 \<le> 2 ^ k" "0 < k \<longrightarrow> 2 ^ (k - 1) < max n 1"
    using round_loop_returns [of 0 "of_nat (max n 1)"] assms by auto
  have gt: "(2 ^ k > (1 :: u64)) \<longleftrightarrow> k \<noteq> 0"
    unfolding word_less_nat_alt unat_pow2_le [OF k(1)] unat_1
    using one_less_power [of "2 :: nat" k] by (cases "k = 0") auto
  show ?thesis
    using k gt log2_loop_returns [of 0 k]
    by (intro exI [of _ "\<lparr>db_shards = replicate (2 ^ k) (Shard (max (b div 2 ^ k) 1)),
          db_shardMask = 2 ^ k - 1, db_shardShift = (if k = 0 then 0 else 64 - k),
          db_maxMemoryBytes = 0\<rparr>"] exI [of _ k])
      (auto simp: Database_def db_roundUpToPowerOfTwo_def log2OfPowerOfTwo_def db_routing_def
        unat_pow2_le)
qed

lemma Shard_table [simp]:
  "ht_inv (sh_table (Shard b))" "ht_abs (sh_table (Shard b)) = []"
  "sh_maxMemoryBytes (Shard b) = 0" "sh_evicted (Shard b) = 0"
  by (simp_all add: Shard_def HashTable_correct)

lemma Database_inv:
  assumes "Database b n = Some db" "n \<le> 2 ^ 63"
  shows "db_inv db" "db_lookup db key = None" "db_maxMemoryBytes db = 0"
proof -
  obtain k where k: "db_routing db k" "db_maxMemoryBytes db = 0"
      "db_shards db = replicate (2 ^ k) (Shard (max (b div 2 ^ k) 1))"
    using Database_returns [OF assms(2), of b] assms(1) by auto
  then show "db_inv db"
    by (auto simp: db_inv_def shard_ok_def db_slice_def)
  show "db_lookup db key = None"
    using k shardIndexFor_less [OF k(1), of key]
    by (simp add: db_lookup_def shardFor_def ht_find_lru)
qed (use Database_returns [OF assms(2), of b] assms(1) in auto)

section \<open>Sharding\<close>

text \<open>
  A store split into parts by an index that depends on the key only. Updating the
  part of one key leaves lookups in the other parts alone.
\<close>

locale sharded =
  fixes wf :: "'d \<Rightarrow> bool"
    and parts :: "'d \<Rightarrow> 's list"
    and set_part :: "'d \<Rightarrow> string \<Rightarrow> 's \<Rightarrow> 'd"
    and idx :: "'d \<Rightarrow> string \<Rightarrow> nat"
    and look :: "string \<Rightarrow> 's \<Rightarrow> entry option"
  assumes idx_less: "wf d \<Longrightarrow> idx d k < length (parts d)"
    and parts_set: "parts (set_part d k s) = (parts d)[idx d k := s]"
    and idx_set: "idx (set_part d k s) k' = idx d k'"
begin

lemma part_same: "wf d \<Longrightarrow> parts (set_part d k s) ! idx (set_part d k s) k = s"
  by (simp add: parts_set idx_set idx_less)

lemma look_set_part:
  "wf d \<Longrightarrow> look k' (parts (set_part d k s) ! idx (set_part d k s) k') =
     (if idx d k' = idx d k then look k' s else look k' (parts d ! idx d k'))"
  by (simp add: parts_set idx_set idx_less nth_list_update eq_commute)

text \<open>A change of one key in its part is a change of one key in the whole store.\<close>

lemma look_point_update:
  assumes "wf d" "\<And>k'. look k' s = (if k' = k then r else look k' (parts d ! idx d k))"
  shows "look k' (parts (set_part d k s) ! idx (set_part d k s) k') =
    (if k' = k then r else look k' (parts d ! idx d k'))"
  using assms by (simp add: look_set_part)

lemma look_same_update:
  assumes "wf d" "\<And>k'. look k' s = look k' (parts d ! idx d k)"
  shows "look k' (parts (set_part d k s) ! idx (set_part d k s) k') = look k' (parts d ! idx d k')"
  using assms by (simp add: look_set_part)

end

lemma shardIndexFor_upd [simp]:
  "shardIndexFor (db\<lparr>db_shards := ss\<rparr>) = shardIndexFor db"
  "shardIndexFor (db\<lparr>db_maxMemoryBytes := m\<rparr>) = shardIndexFor db"
  by (simp_all add: fun_eq_iff shardIndexFor_def)

lemma set_shardFor_sel [simp]:
  "db_shards (set_shardFor db key s) = (db_shards db)[shardIndexFor db key := s]"
  "db_maxMemoryBytes (set_shardFor db key s) = db_maxMemoryBytes db"
  "shardIndexFor (set_shardFor db key s) = shardIndexFor db"
  by (simp_all add: set_shardFor_def)

interpretation dbs: sharded db_inv db_shards set_shardFor shardIndexFor
    "\<lambda>k s. ht_find k (sh_table s)"
  by unfold_locales (auto simp: shardFor_less)

lemma db_slice_set_shardFor [simp]: "db_slice (set_shardFor db key s) = db_slice db"
  by (simp add: db_slice_def)

lemma db_slice_shards: "length ss = length (db_shards db) \<Longrightarrow> db_slice (db\<lparr>db_shards := ss\<rparr>) = db_slice db"
  by (simp add: db_slice_def)

lemma shard_ok_cong:
  "shardIndexFor db' = shardIndexFor db \<Longrightarrow> db_slice db' = db_slice db \<Longrightarrow>
   shard_ok db' i s = shard_ok db i s"
  by (simp add: shard_ok_def)

lemma db_routing_shards:
  "length ss = length (db_shards db) \<Longrightarrow> db_routing (db\<lparr>db_shards := ss\<rparr>) k = db_routing db k"
  by (simp add: db_routing_def)

lemma db_inv_shards:
  assumes "db_inv db" "length ss = length (db_shards db)"
    and "\<And>i. i < length ss \<Longrightarrow> shard_ok db i (ss ! i)"
  shows "db_inv (db\<lparr>db_shards := ss\<rparr>)"
proof -
  have "shard_ok (db\<lparr>db_shards := ss\<rparr>) i s = shard_ok db i s" for i s
    using assms(2) by (intro shard_ok_cong db_slice_shards) simp_all
  with assms show ?thesis by (simp add: db_inv_def db_routing_shards)
qed

lemma db_inv_set_shardFor:
  assumes "db_inv db" "shard_ok db (shardIndexFor db key) s"
  shows "db_inv (set_shardFor db key s)"
proof -
  have "shard_ok db i ((db_shards db)[shardIndexFor db key := s] ! i)"
    if "i < length (db_shards db)" for i
    using assms that by (cases "i = shardIndexFor db key") (auto simp: db_inv_def)
  then show ?thesis
    unfolding set_shardFor_def using assms(1) by (intro db_inv_shards) simp_all
qed

lemma shardFor_ok: "db_inv db \<Longrightarrow> shard_ok db (shardIndexFor db key) (shardFor db key)"
  using shardFor_less by (simp add: db_inv_def shardFor_def)

lemma shardFor_table:
  assumes "db_inv db"
  shows "ht_inv (sh_table (shardFor db key))"
    and "sh_maxMemoryBytes (shardFor db key) = db_slice db"
  using shardFor_ok [OF assms, of key] by (simp_all add: shard_ok_def)

lemma db_slice_0: "db_slice db = 0 \<longleftrightarrow> db_maxMemoryBytes db = 0"
  by (simp add: db_slice_def)

text \<open>Lookups after a shard is replaced.\<close>

lemma db_lookup_set_shardFor_if:
  "db_inv db \<Longrightarrow> db_lookup (set_shardFor db key s) k =
     (if shardIndexFor db k = shardIndexFor db key then ht_find k (sh_table s) else db_lookup db k)"
  using dbs.look_set_part [of db k key s] by (simp add: db_lookup_def shardFor_def)

lemma db_lookup_same_shard:
  "shardIndexFor db k = shardIndexFor db key \<Longrightarrow>
   db_lookup db k = ht_find k (sh_table (shardFor db key))"
  by (simp add: db_lookup_def shardFor_def)

lemma db_lookup_set_shardFor:
  assumes "db_inv db" "\<And>k. ht_find k (sh_table s) =
    (if k = key then r else ht_find k (sh_table (shardFor db key)))"
  shows "db_lookup (set_shardFor db key s) = (db_lookup db)(key := r)"
  using dbs.look_point_update [of db s key r] assms
  by (auto simp: db_lookup_def shardFor_def fun_eq_iff)

lemma db_lookup_set_shardFor_same:
  assumes "db_inv db" "\<And>k. ht_find k (sh_table s) = ht_find k (sh_table (shardFor db key))"
  shows "db_lookup (set_shardFor db key s) = db_lookup db"
  using dbs.look_same_update [of db s key] assms
  by (auto simp: db_lookup_def shardFor_def fun_eq_iff)

section \<open>Eviction\<close>

text \<open>One iteration of the loop drops the least recently used entry.\<close>

lemma evict_loop_step:
  assumes "ht_inv (sh_table s)" "ht_size (sh_table s) \<le> Suc n"
    and "ht_memoryUsage (sh_table s) > sh_maxMemoryBytes s" "ht_size (sh_table s) > 1"
  obtains s1 where "evict_loop (Suc n) s = evict_loop n s1"
    "ht_inv (sh_table s1)" "ht_size (sh_table s1) \<le> n" "1 < length (ht_abs (sh_table s))"
    "ht_abs (sh_table s1) = take (length (ht_abs (sh_table s)) - 1) (ht_abs (sh_table s))"
    "sh_evicted s1 = Suc (sh_evicted s)" "sh_maxMemoryBytes s1 = sh_maxMemoryBytes s"
    "sh_sweepCursor s1 = sh_sweepCursor s"
    "length (ht_buckets (sh_table s1)) = length (ht_buckets (sh_table s))"
proof -
  let ?es = "ht_abs (sh_table s)"
  obtain r t where e: "ht_evictOldest (sh_table s) = (r, t)" by fastforce
  note ev = ht_evictOldest_correct [OF assms(1), unfolded e, simplified]
  have len: "1 < length ?es" using assms(4) ht_size_correct [OF assms(1)] by simp
  then obtain k where "r = Some k" using ev by (cases ?es rule: rev_cases) auto
  show thesis
  proof (rule that [of "s\<lparr>sh_table := t, sh_evicted := Suc (sh_evicted s)\<rparr>"])
    show "ht_size (sh_table (s\<lparr>sh_table := t, sh_evicted := Suc (sh_evicted s)\<rparr>)) \<le> n"
      using ev assms(2) ht_size_correct [OF assms(1)] ht_size_correct [of t] by simp
  qed (use assms(3,4) e \<open>r = Some k\<close> ev len in \<open>simp_all add: butlast_conv_take\<close>)
qed

lemma evict_loop_spec:
  assumes "ht_inv (sh_table s)" "ht_size (sh_table s) \<le> n"
  shows "ht_inv (sh_table (evict_loop n s)) \<and>
    (\<exists>m. ht_abs (sh_table (evict_loop n s)) =
           take (length (ht_abs (sh_table s)) - m) (ht_abs (sh_table s)) \<and>
         sh_evicted (evict_loop n s) = sh_evicted s + m \<and>
         (m = 0 \<or> m < length (ht_abs (sh_table s)))) \<and>
    sh_maxMemoryBytes (evict_loop n s) = sh_maxMemoryBytes s \<and>
    sh_sweepCursor (evict_loop n s) = sh_sweepCursor s \<and>
    length (ht_buckets (sh_table (evict_loop n s))) = length (ht_buckets (sh_table s)) \<and>
    (ht_memoryUsage (sh_table (evict_loop n s)) \<le> sh_maxMemoryBytes s \<or>
     length (ht_abs (sh_table (evict_loop n s))) \<le> 1)"
  using assms
proof (induction n arbitrary: s)
  case 0
  then show ?case by (auto simp: ht_size_correct intro!: exI [of _ 0])
next
  case (Suc n)
  show ?case
  proof (cases "ht_memoryUsage (sh_table s) > sh_maxMemoryBytes s \<and> ht_size (sh_table s) > 1")
    case True
    with Suc.prems obtain s1 where s1: "evict_loop (Suc n) s = evict_loop n s1"
        "ht_inv (sh_table s1)" "ht_size (sh_table s1) \<le> n" "1 < length (ht_abs (sh_table s))"
        "ht_abs (sh_table s1) = take (length (ht_abs (sh_table s)) - 1) (ht_abs (sh_table s))"
        "sh_evicted s1 = Suc (sh_evicted s)" "sh_maxMemoryBytes s1 = sh_maxMemoryBytes s"
        "sh_sweepCursor s1 = sh_sweepCursor s"
        "length (ht_buckets (sh_table s1)) = length (ht_buckets (sh_table s))"
      by (auto elim: evict_loop_step)
    note IH = Suc.IH [OF s1(2,3)]
    then obtain m where "ht_abs (sh_table (evict_loop n s1)) =
          take (length (ht_abs (sh_table s1)) - m) (ht_abs (sh_table s1))"
        "sh_evicted (evict_loop n s1) = sh_evicted s1 + m"
        "m = 0 \<or> m < length (ht_abs (sh_table s1))" by blast
    moreover have "length (ht_abs (sh_table s1)) = length (ht_abs (sh_table s)) - 1"
      using s1(5) by simp
    ultimately have "\<exists>m. ht_abs (sh_table (evict_loop n s1)) =
           take (length (ht_abs (sh_table s)) - m) (ht_abs (sh_table s)) \<and>
         sh_evicted (evict_loop n s1) = sh_evicted s + m \<and>
         (m = 0 \<or> m < length (ht_abs (sh_table s)))"
      using s1(4,5,6) by (intro exI [of _ "Suc m"]) (auto simp: min_def)
    with IH s1 show ?thesis by (simp del: evict_loop.simps)
  next
    case False
    then have "evict_loop (Suc n) s = s" by (simp only: evict_loop.simps if_False)
    with False Suc.prems show ?thesis by (auto simp: ht_size_correct intro!: exI [of _ 0])
  qed
qed

end
