(* ===== verification/VC_Database_Correct.thy ===== *)
theory VC_Database_Correct
  imports VC_Database_Inv
begin

text \<open>
  Correctness of the operations of the database: every one keeps \<^const>\<open>db_inv\<close>,
  and its effect is stated on the lookup function \<^const>\<open>db_lookup\<close> (which entry a
  key has, expired or not) and on the recency list of the shard concerned.
\<close>

section \<open>Eviction after a write\<close>

lemma evictToFit_correct:
  assumes "ht_inv (sh_table s)"
  shows "ht_inv (sh_table (evictToFit s))"
    and "\<exists>m. ht_abs (sh_table (evictToFit s)) =
           take (length (ht_abs (sh_table s)) - m) (ht_abs (sh_table s)) \<and>
         sh_evicted (evictToFit s) = sh_evicted s + m \<and>
         (m = 0 \<or> m < length (ht_abs (sh_table s)))"
    and "sh_maxMemoryBytes (evictToFit s) = sh_maxMemoryBytes s"
    and "sh_sweepCursor (evictToFit s) = sh_sweepCursor s"
    and "sh_maxMemoryBytes s = 0 \<Longrightarrow> evictToFit s = s"
    and "sh_maxMemoryBytes s \<noteq> 0 \<Longrightarrow>
      ht_memoryUsage (sh_table (evictToFit s)) \<le> sh_maxMemoryBytes s \<or>
      length (ht_abs (sh_table (evictToFit s))) \<le> 1"
  using evict_loop_spec [OF assms, of "ht_size (sh_table s)"]
  by (auto simp: evictToFit_def assms intro: exI [of _ 0])

lemma evictToFit_subset:
  "ht_inv (sh_table s) \<Longrightarrow> set (ht_abs (sh_table (evictToFit s))) \<subseteq> set (ht_abs (sh_table s))"
  using evictToFit_correct(2) by (metis set_take_subset)

lemma evictToFit_head:
  "ht_inv (sh_table s) \<Longrightarrow> ht_abs (sh_table s) = e # es \<Longrightarrow>
   \<exists>m. ht_abs (sh_table (evictToFit s)) = e # take m es"
  using evictToFit_correct(2) [of s] by (auto simp: take_Cons' intro: exI [of _ "length es"])

lemma lru_find_take: "lru_find k (take m es) \<in> {lru_find k es, None}"
  by (induction es arbitrary: m) (auto simp: lru_find_Cons take_Cons')

lemma lru_find_filter:
  "distinct (map e_key es) \<Longrightarrow> lru_find k (filter P es) =
     (case lru_find k es of None \<Rightarrow> None | Some e \<Rightarrow> if P e then Some e else None)"
proof (induction es)
  case (Cons a es)
  then show ?case
    using lru_find_None [of "e_key a" es] by (auto simp: lru_find_Cons split: option.splits)
qed simp

text \<open>
  A write stores an entry at the front of its shard's recency list and then evicts
  from the back: the entry itself always survives.
\<close>

lemma write_shard:
  assumes "db_inv db" "ht_inv t" "ht_abs t = e # lru_remove key (ht_abs (sh_table (shardFor db key)))"
    and "e_key e = key"
  defines "s' \<equiv> evictToFit ((shardFor db key)\<lparr>sh_table := t\<rparr>)"
  shows "shard_ok db (shardIndexFor db key) s'"
    and "ht_find key (sh_table s') = Some e"
    and "k \<noteq> key \<Longrightarrow> ht_find k (sh_table s') \<in> {ht_find k (sh_table (shardFor db key)), None}"
    and "db_maxMemoryBytes db = 0 \<Longrightarrow> s' = (shardFor db key)\<lparr>sh_table := t\<rparr>"
    and "db_maxMemoryBytes db \<noteq> 0 \<Longrightarrow>
      ht_memoryUsage (sh_table s') \<le> db_slice db \<or> ht_abs (sh_table s') = [e]"
proof -
  let ?s = "(shardFor db key)\<lparr>sh_table := t\<rparr>"
  let ?es = "ht_abs (sh_table (shardFor db key))"
  have inv: "ht_inv (sh_table ?s)" using assms by simp
  note ok = shardFor_ok [OF assms(1), of key] and ev = evictToFit_correct [OF inv]
  obtain m where m: "ht_abs (sh_table s') = e # take m (lru_remove key ?es)"
    using evictToFit_head [OF inv] assms(3) unfolding s'_def by fastforce
  have sub: "set (ht_abs (sh_table s')) \<subseteq> insert e (set ?es)"
    unfolding m by (auto simp: lru_remove_def dest: in_set_takeD)
  show "shard_ok db (shardIndexFor db key) s'"
    using ok sub ev(1,3) assms(4) by (auto simp: shard_ok_def s'_def)
  have inv': "ht_inv (sh_table s')" using ev(1) by (simp add: s'_def)
  show "ht_find key (sh_table s') = Some e"
    using m assms(4) by (simp add: ht_find_lru [OF inv'] lru_find_Cons)
  show "ht_find k (sh_table s') \<in> {ht_find k (sh_table (shardFor db key)), None}" if "k \<noteq> key"
    using m assms(4) that lru_find_take [of k m "lru_remove key ?es"] shardFor_table [OF assms(1)]
    by (auto simp: ht_find_lru [OF inv'] ht_find_lru lru_find_Cons)
  show "s' = ?s" if "db_maxMemoryBytes db = 0"
    using ev(5) that shardFor_table(2) [OF assms(1), of key] by (simp add: s'_def db_slice_def)
  show "ht_memoryUsage (sh_table s') \<le> db_slice db \<or> ht_abs (sh_table s') = [e]"
    if "db_maxMemoryBytes db \<noteq> 0"
    using ev(6) that m shardFor_table(2) [OF assms(1), of key] db_slice_0 [of db]
    by (auto simp: s'_def min_def split: if_splits)
qed

lemma db_write:
  assumes "db_inv db" "ht_inv t" "ht_abs t = e # lru_remove key (ht_abs (sh_table (shardFor db key)))"
    and "e_key e = key"
  defines "db' \<equiv> set_shardFor db key (evictToFit ((shardFor db key)\<lparr>sh_table := t\<rparr>))"
  shows "db_inv db'"
    and "db_lookup db' key = Some e"
    and "k \<noteq> key \<Longrightarrow> db_lookup db' k \<in> {db_lookup db k, None}"
    and "shardIndexFor db k \<noteq> shardIndexFor db key \<Longrightarrow> db_lookup db' k = db_lookup db k"
    and "db_maxMemoryBytes db = 0 \<Longrightarrow> db_lookup db' = (db_lookup db)(key \<mapsto> e)"
    and "db_maxMemoryBytes db \<noteq> 0 \<Longrightarrow>
      ht_memoryUsage (sh_table (shardFor db' key)) \<le> db_slice db \<or>
      ht_abs (sh_table (shardFor db' key)) = [e]"
proof -
  note w = write_shard [OF assms(1-4)]
  note look = db_lookup_set_shardFor_if [OF assms(1), of key]
  show "db_inv db'" unfolding db'_def using w(1) by (rule db_inv_set_shardFor [OF assms(1)])
  show "db_lookup db' key = Some e"
    using w(2) by (simp add: db'_def look)
  show "db_lookup db' k \<in> {db_lookup db k, None}" if "k \<noteq> key"
    using w(3) [OF that] db_lookup_same_shard [of db k key] by (auto simp: db'_def look)
  show "db_lookup db' k = db_lookup db k" if "shardIndexFor db k \<noteq> shardIndexFor db key"
    using that by (simp add: db'_def look)
  show "db_lookup db' = (db_lookup db)(key \<mapsto> e)" if "db_maxMemoryBytes db = 0"
    unfolding db'_def w(4) [OF that]
    using assms(2-4) shardFor_table(1) [OF assms(1), of key]
    by (intro db_lookup_set_shardFor [OF assms(1)]) (auto simp: ht_find_lru lru_find_Cons)
  show "ht_memoryUsage (sh_table (shardFor db' key)) \<le> db_slice db \<or>
      ht_abs (sh_table (shardFor db' key)) = [e]" if "db_maxMemoryBytes db \<noteq> 0"
    using w(5) [OF that] dbs.part_same [OF assms(1), of key]
    by (simp add: db'_def shardFor_def)
qed

section \<open>Single-key operations\<close>

text \<open>What a reader at time \<open>now\<close> sees: entries that have not expired.\<close>

definition db_live :: "time_point \<Rightarrow> database \<Rightarrow> string \<Rightarrow> entry option" where
  "db_live now db key =
     (case db_lookup db key of None \<Rightarrow> None | Some e \<Rightarrow> if isExpiredAt now e then None else Some e)"

text \<open>The two overloads of \<open>set\<close> as one write of an entry.\<close>

definition write_entry :: "string \<Rightarrow> string \<Rightarrow> time_point option \<Rightarrow> entry" where
  "write_entry key val x = (Entry key val)\<lparr>e_expiration := x\<rparr>"

lemma write_entry_sel [simp]:
  "e_key (write_entry k v x) = k" "e_value (write_entry k v x) = v"
  "e_expiration (write_entry k v x) = x" "write_entry k v None = Entry k v"
  by (simp_all add: write_entry_def Entry_def)

lemma db_set_cases:
  assumes "db_inv db"
  obtains (fits) t where "fitsWithinLimit db key val" "ht_inv t"
      "ht_abs t = Entry key val # lru_remove key (ht_abs (sh_table (shardFor db key)))"
      "db_set key val db =
         (if db_lookup db key = None then Inserted else Updated,
          set_shardFor db key (evictToFit ((shardFor db key)\<lparr>sh_table := t\<rparr>)))"
  | (rejected) "\<not> fitsWithinLimit db key val" "db_set key val db = (Rejected, db)"
proof (cases "fitsWithinLimit db key val")
  case True
  note inv = shardFor_table(1) [OF assms, of key]
  obtain b t where p: "ht_put key val (sh_table (shardFor db key)) = (b, t)" by fastforce
  show thesis
    using fits [of t] True p ht_put_correct [OF inv, of key val]
    by (auto simp: db_set_def db_lookup_def ht_find_lru [OF inv] lru_put_def)
qed (simp add: rejected db_set_def Let_def)

lemma db_set_ttl_cases:
  assumes "db_inv db"
  obtains (fits) t where "fitsWithinLimit db key val" "ht_inv t"
      "ht_abs t = write_entry key val (Some (now + seconds ttl)) #
         lru_remove key (ht_abs (sh_table (shardFor db key)))"
      "db_set_ttl now key val ttl db =
         (if db_lookup db key = None then Inserted else Updated,
          set_shardFor db key (evictToFit ((shardFor db key)\<lparr>sh_table := t\<rparr>)))"
  | (rejected) "\<not> fitsWithinLimit db key val" "db_set_ttl now key val ttl db = (Rejected, db)"
proof (cases "fitsWithinLimit db key val")
  case True
  note inv = shardFor_table(1) [OF assms, of key]
  obtain b t where p: "ht_put key val (sh_table (shardFor db key)) = (b, t)" by fastforce
  show thesis
    using fits [of "ht_set_expiration key (Some (now + seconds ttl)) t"] True p
      ht_put_correct [OF inv, of key val] ht.put_expiring [OF inv, of key _ val]
    by (auto simp: db_set_ttl_def db_lookup_def ht_find_lru [OF inv] write_entry_def)
qed (simp add: rejected db_set_ttl_def Let_def)

lemma db_set_inv:
  assumes "db_inv db"
  shows "db_inv (snd (db_set key val db))"
  using assms
proof (cases rule: db_set_cases [where key = key and val = val])
  case (fits t)
  from db_write(1) [OF assms fits(2,3)] fits(4) show ?thesis by simp
qed (simp add: assms)

lemma db_set_ttl_inv:
  assumes "db_inv db"
  shows "db_inv (snd (db_set_ttl now key val ttl db))"
  using assms
proof (cases rule: db_set_ttl_cases [where key = key and val = val and now = now and ttl = ttl])
  case (fits t)
  from db_write(1) [OF assms fits(2,3)] fits(4) show ?thesis by simp
qed (simp add: assms)

lemma db_touch_shard:
  fixes key :: string
  assumes "db_inv db"
  defines "db' \<equiv> set_shardFor db key ((shardFor db key)\<lparr>sh_table :=
      snd (ht_touch key (sh_table (shardFor db key)))\<rparr>)"
  shows "db_inv db'" "db_lookup db' = db_lookup db"
proof -
  note inv = shardFor_table(1) [OF assms(1), of key]
  note t = ht_touch_correct [OF inv, of key]
  have "set (lru_touch key es) \<subseteq> set es" for es
    by (auto simp: lru_touch_def lru_remove_def dest: lru_find_SomeD split: option.splits)
  then show "db_inv db'"
    unfolding db'_def using t shardFor_ok [OF assms(1), of key]
    by (intro db_inv_set_shardFor assms) (auto simp: shard_ok_def)
  show "db_lookup db' = db_lookup db"
    unfolding db'_def by (rule db_lookup_set_shardFor_same [OF assms(1)]) (simp add: ht.find_touch inv)
qed

lemma db_get_correct:
  assumes "db_inv db"
  shows "fst (db_get now key db) = map_option e_value (db_live now db key)"
    and "db_inv (snd (db_get now key db))"
    and "db_lookup (snd (db_get now key db)) = db_lookup db"
  using assms db_touch_shard [OF assms, of key]
  by (auto simp: db_get_def db_live_def db_lookup_def [of db key] Let_def split: option.splits)

lemma db_exists_correct: "db_exists now key db \<longleftrightarrow> db_live now db key \<noteq> None"
  by (auto simp: db_exists_def db_live_def db_lookup_def split: option.splits)

lemma db_ttl_correct:
  "db_ttl now key db =
     (case db_live now db key of
        None \<Rightarrow> None
      | Some e \<Rightarrow> map_option (\<lambda>t. ceil_seconds (t - now)) (e_expiration e))"
  by (auto simp: db_ttl_def db_live_def db_lookup_def isExpiredAt_def split: option.splits)

lemma db_remove_shard:
  fixes key :: string
  assumes "db_inv db"
  defines "db' \<equiv> set_shardFor db key ((shardFor db key)\<lparr>sh_table :=
      snd (ht_remove key (sh_table (shardFor db key)))\<rparr>)"
  shows "db_inv db'" "db_lookup db' = (db_lookup db)(key := None)"
proof -
  note inv = shardFor_table(1) [OF assms(1), of key]
  show "db_inv db'"
    unfolding db'_def using ht_remove_correct [OF inv, of key] shardFor_ok [OF assms(1), of key]
    by (intro db_inv_set_shardFor assms) (auto simp: shard_ok_def lru_remove_def)
  show "db_lookup db' = (db_lookup db)(key := None)"
    unfolding db'_def by (rule db_lookup_set_shardFor [OF assms(1)]) (simp add: ht.find_remove inv)
qed

lemma db_del_correct:
  assumes "db_inv db"
  shows "fst (db_del now key db) \<longleftrightarrow> db_live now db key \<noteq> None"
    and "db_inv (snd (db_del now key db))"
    and "db_lookup (snd (db_del now key db)) = (db_lookup db)(key := None)"
  using assms db_remove_shard [OF assms, of key]
  by (auto simp: db_del_def db_live_def db_lookup_def [of db key] Let_def fun_upd_idem
      split: option.splits)

section \<open>Whole-keyspace operations\<close>

lemma db_lookup_shards:
  "db_lookup (db\<lparr>db_shards := ss\<rparr>) k = ht_find k (sh_table (ss ! shardIndexFor db k))"
  by (simp add: db_lookup_def shardFor_def)

lemma db_shard_ok: "db_inv db \<Longrightarrow> i < length (db_shards db) \<Longrightarrow> shard_ok db i (db_shards db ! i)"
  by (simp add: db_inv_def)

lemma db_shards_pos: "db_inv db \<Longrightarrow> 0 < length (db_shards db)"
  by (auto simp: db_inv_def db_routing_def)

text \<open>An entry is in the list of a shard exactly when its key looks it up there.\<close>

lemma db_lookup_iff:
  assumes "db_inv db" "i < length (db_shards db)"
  shows "e \<in> set (ht_abs (sh_table (db_shards db ! i))) \<longleftrightarrow>
    db_lookup db (e_key e) = Some e \<and> shardIndexFor db (e_key e) = i"
proof -
  have ok: "shard_ok db i (db_shards db ! i)" by (rule db_shard_ok [OF assms])
  then have inv: "ht_inv (sh_table (db_shards db ! i))" by (simp add: shard_ok_def)
  let ?es = "ht_abs (sh_table (db_shards db ! i))"
  have "db_lookup db (e_key e) = lru_find (e_key e) ?es" if "shardIndexFor db (e_key e) = i"
    unfolding db_lookup_def shardFor_def that by (rule ht_find_lru [OF inv])
  moreover have "shardIndexFor db (e_key e) = i" if "e \<in> set ?es"
    using ok that by (simp add: shard_ok_def)
  ultimately show ?thesis
    using lru_find_iff [OF ht_abs_distinct [OF inv], of "e_key e" e] by metis
qed

text \<open>
  A walk over the shards that concatenates what each contributes lists the live
  entries, each once.
\<close>

lemma snapshot_from_conv:
  "snapshot_from clk i ss =
     concat (map (\<lambda>j. ht_entriesWhere (\<lambda>e. \<not> isExpiredAt (clk (i + j)) e) (sh_table (ss ! j)))
       [0..<length ss])"
proof (induction ss arbitrary: i)
  case (Cons s ss)
  have "[0..<length (s # ss)] = 0 # map Suc [0..<length ss]"
    by (simp add: map_Suc_upt upt_conv_Cons del: upt_Suc)
  with Cons show ?case by (simp add: comp_def del: upt_Suc)
qed simp

lemma keys_from_conv: "keys_from clk i ss = map e_key (snapshot_from clk i ss)"
  by (induction ss arbitrary: i) (simp_all add: ht_keysWhere_def ht_entriesWhere_def)

lemma db_keys_snapshot: "db_keys clk db = map e_key (db_snapshot clk db)"
  by (simp add: db_keys_def db_snapshot_def keys_from_conv)

lemma db_snapshot_set:
  assumes "db_inv db"
  shows "e \<in> set (db_snapshot clk db) \<longleftrightarrow>
    db_live (clk (shardIndexFor db (e_key e))) db (e_key e) = Some e"
proof -
  have "set (ht_entriesWhere P (sh_table (db_shards db ! i))) =
      {e \<in> set (ht_abs (sh_table (db_shards db ! i))). P e}" if "i < length (db_shards db)" for P i
    using ht_entriesWhere_correct [of "sh_table (db_shards db ! i)" P] db_shard_ok [OF assms that]
    by (metis mset_eq_setD set_filter shard_ok_def)
  then show ?thesis
    using shardFor_less [OF assms, of "e_key e"] db_lookup_iff [OF assms, of _ e]
    by (auto simp: db_snapshot_def snapshot_from_conv db_live_def split: option.splits)
qed

lemma distinct_concat_home:
  assumes "\<And>x. x \<in> set xs \<Longrightarrow> distinct (f x)" "distinct xs"
    and "\<And>x z. x \<in> set xs \<Longrightarrow> z \<in> set (f x) \<Longrightarrow> home z = x"
  shows "distinct (concat (map f xs))"
  using assms
proof (induction xs)
  case (Cons x xs)
  have "set (f x) \<inter> set (concat (map f xs)) = {}"
  proof (rule ccontr)
    assume "set (f x) \<inter> set (concat (map f xs)) \<noteq> {}"
    then obtain y z where yz: "y \<in> set xs" "z \<in> set (f x)" "z \<in> set (f y)" by auto
    then have "x = y" using Cons.prems(3) [of x z] Cons.prems(3) [of y z] by simp
    with yz Cons.prems(2) show False by simp
  qed
  with Cons show ?case by simp
qed simp

lemma db_keys_distinct:
  assumes "db_inv db"
  shows "distinct (db_keys clk db)"
proof -
  let ?f = "\<lambda>j. map e_key (ht_entriesWhere (\<lambda>e. \<not> isExpiredAt (clk j) e) (sh_table (db_shards db ! j)))"
  have eq: "mset (ht_entriesWhere P (sh_table (db_shards db ! j))) =
      mset (filter P (ht_abs (sh_table (db_shards db ! j))))"
    and d: "distinct (map e_key (ht_abs (sh_table (db_shards db ! j))))"
    if "j < length (db_shards db)" for j P
    using db_shard_ok [OF assms that]
    by (simp_all add: shard_ok_def ht_entriesWhere_correct ht_abs_distinct)
  have "db_keys clk db = concat (map ?f [0..<length (db_shards db)])"
    by (simp add: db_keys_snapshot db_snapshot_def snapshot_from_conv map_concat comp_def)
  moreover have "distinct (?f j)" if "j < length (db_shards db)" for j
    using eq [OF that] d [OF that] distinct_map_filter mset_eq_imp_distinct_iff mset_map
    by (metis (no_types, lifting))
  moreover have "shardIndexFor db k = j" if "j < length (db_shards db)" "k \<in> set (?f j)" for j k
    using that eq [OF that(1), THEN mset_eq_setD] db_lookup_iff [OF assms that(1)] by auto
  ultimately show ?thesis
    using distinct_concat_home [of "[0..<length (db_shards db)]" ?f "shardIndexFor db"] by simp
qed

end
