(* ===== verification/VC_Database_Keyspace.thy ===== *)
theory VC_Database_Keyspace
  imports VC_Database_Correct
begin

text \<open>
  Correctness of the operations that walk every shard and change it: the sweep of
  expired entries, clearing, restoring a snapshot, and changing the memory limit.
\<close>

section \<open>Replacing every shard\<close>

lemma shardIndexFor_all [simp]:
  "shardIndexFor (db\<lparr>db_shards := ss, db_maxMemoryBytes := m\<rparr>) = shardIndexFor db"
  by (simp add: fun_eq_iff shardIndexFor_def)

lemma db_inv_subset:
  assumes "db_inv db" "length ss = length (db_shards db)"
    and "\<And>i. i < length ss \<Longrightarrow> ht_inv (sh_table (ss ! i))"
    and "\<And>i. i < length ss \<Longrightarrow>
      set (ht_abs (sh_table (ss ! i))) \<subseteq> set (ht_abs (sh_table (db_shards db ! i)))"
    and "\<And>i. i < length ss \<Longrightarrow> sh_maxMemoryBytes (ss ! i) = sh_maxMemoryBytes (db_shards db ! i)"
  shows "db_inv (db\<lparr>db_shards := ss\<rparr>)"
proof (rule db_inv_shards [OF assms(1,2)])
  fix i assume i: "i < length ss"
  then have "shard_ok db i (db_shards db ! i)" using assms(1,2) by (simp add: db_shard_ok)
  with assms(3-5) [OF i] show "shard_ok db i (ss ! i)" by (auto simp: shard_ok_def)
qed

section \<open>Clearing\<close>

lemma clear_shard_sel:
  "ht_inv (sh_table s) \<Longrightarrow> ht_inv (sh_table (clear_shard s))"
  "ht_inv (sh_table s) \<Longrightarrow> ht_abs (sh_table (clear_shard s)) = []"
  "sh_maxMemoryBytes (clear_shard s) = sh_maxMemoryBytes s"
  by (simp_all add: clear_shard_def ht_clear_correct)

lemma db_clear_correct:
  assumes "db_inv db"
  shows "db_inv (db_clear db)" "db_lookup (db_clear db) = Map.empty"
    "db_maxMemoryBytes (db_clear db) = db_maxMemoryBytes db"
    "shardIndexFor (db_clear db) = shardIndexFor db"
proof -
  have inv: "ht_inv (sh_table (db_shards db ! i))" if "i < length (db_shards db)" for i
    using db_shard_ok [OF assms that] by (simp add: shard_ok_def)
  show "db_inv (db_clear db)"
    unfolding db_clear_def by (rule db_inv_subset [OF assms]) (simp_all add: clear_shard_sel inv)
  show "db_lookup (db_clear db) = Map.empty"
  proof
    fix k
    have "shardIndexFor db k < length (db_shards db)" using assms by (rule shardFor_less)
    then show "db_lookup (db_clear db) k = None"
      by (simp add: db_clear_def db_lookup_shards ht_find_lru clear_shard_sel inv)
  qed
qed (simp_all add: db_clear_def)

section \<open>Restoring a snapshot\<close>

lemma restore_entry_correct:
  assumes "db_inv db"
  shows "db_inv (restore_entry e db)"
    and "db_lookup (restore_entry e db) = (db_lookup db)(e_key e \<mapsto> e)"
    and "db_maxMemoryBytes (restore_entry e db) = db_maxMemoryBytes db"
proof -
  note inv = shardFor_table(1) [OF assms, of "e_key e"]
  define t where "t = (let t = snd (ht_put (e_key e) (e_value e) (sh_table (shardFor db (e_key e))))
     in if hasExpiration e then ht_set_expiration (e_key e) (e_expiration e) t else t)"
  have t: "ht_inv t" "ht_abs t = e # lru_remove (e_key e) (ht_abs (sh_table (shardFor db (e_key e))))"
    using ht_put_correct [OF inv, of "e_key e" "e_value e"]
      ht.put_expiring [OF inv, of "e_key e" "e_expiration e" "e_value e"]
    by (auto simp: t_def lru_put_def hasExpiration_def Entry_def Let_def)
  have eq: "restore_entry e db = set_shardFor db (e_key e) ((shardFor db (e_key e))\<lparr>sh_table := t\<rparr>)"
    by (simp add: restore_entry_def t_def Let_def)
  show "db_inv (restore_entry e db)"
    unfolding eq using shardFor_ok [OF assms, of "e_key e"] t
    by (intro db_inv_set_shardFor assms) (auto simp: shard_ok_def lru_remove_def)
  show "db_lookup (restore_entry e db) = (db_lookup db)(e_key e \<mapsto> e)"
    unfolding eq using t
    by (intro db_lookup_set_shardFor [OF assms])
      (auto simp: ht_find_lru [OF t(1)] ht_find_lru [OF inv] lru_find_Cons)
qed (simp add: restore_entry_def Let_def)

text \<open>The content after a restore: the last unexpired entry of each key.\<close>

definition restored :: "time_point \<Rightarrow> entry list \<Rightarrow> string \<Rightarrow> entry option" where
  "restored now es key = lru_find key (rev (filter (\<lambda>e. \<not> isExpiredAt now e) es))"

lemma lru_find_append:
  "lru_find k (xs @ ys) = (case lru_find k xs of None \<Rightarrow> lru_find k ys | Some e \<Rightarrow> Some e)"
  by (induction xs) (simp_all add: lru_find_Cons)

lemma restored_Cons:
  "restored now (e # es) k =
     (case restored now es k of
        Some e' \<Rightarrow> Some e'
      | None \<Rightarrow> if \<not> isExpiredAt now e \<and> e_key e = k then Some e else None)"
  by (auto simp: restored_def lru_find_append lru_find_Cons split: option.splits)

lemma restore_loop_correct:
  assumes "db_inv db"
  shows "db_inv (snd (restore_loop now es n db)) \<and>
    db_lookup (snd (restore_loop now es n db)) = db_lookup db ++ restored now es \<and>
    fst (restore_loop now es n db) = n + length (filter (\<lambda>e. \<not> isExpiredAt now e) es) \<and>
    db_maxMemoryBytes (snd (restore_loop now es n db)) = db_maxMemoryBytes db"
  using assms
proof (induction es arbitrary: n db)
  case Nil
  then show ?case by (simp add: restored_def map_add_def)
next
  case (Cons e es)
  have "restored now (e # es) =
      (if isExpiredAt now e then restored now es else [e_key e \<mapsto> e] ++ restored now es)"
    by (auto simp: fun_eq_iff restored_Cons map_add_def split: option.splits)
  then show ?case
    using Cons.IH [OF Cons.prems] Cons.IH [OF restore_entry_correct(1) [OF Cons.prems, of e]]
      restore_entry_correct(2,3) [OF Cons.prems, of e]
    by (simp add: map_add_upd_left fun_upd_def [symmetric]
        map_add_assoc [symmetric] del: map_add_assoc) (simp add: fun_eq_iff map_add_def split: option.splits)
qed

lemma db_restore_correct:
  assumes "db_inv db"
  shows "db_inv (snd (db_restore now es db))"
    and "db_lookup (snd (db_restore now es db)) = restored now es"
    and "fst (db_restore now es db) = length (filter (\<lambda>e. \<not> isExpiredAt now e) es)"
    and "db_maxMemoryBytes (snd (db_restore now es db)) = db_maxMemoryBytes db"
proof -
  have eq: "db_restore now es db = restore_loop now es 0 (db_clear db)"
    by (simp add: db_restore_def db_clear_def)
  note r = restore_loop_correct [OF db_clear_correct(1) [OF assms], of now es 0]
  show "db_inv (snd (db_restore now es db))" "fst (db_restore now es db) =
      length (filter (\<lambda>e. \<not> isExpiredAt now e) es)"
    "db_lookup (snd (db_restore now es db)) = restored now es"
    "db_maxMemoryBytes (snd (db_restore now es db)) = db_maxMemoryBytes db"
    using r db_clear_correct [OF assms] unfolding eq by simp_all
qed

section \<open>Changing the memory limit\<close>

lemma db_setMaxMemory_shards:
  "db_shards (db_setMaxMemory bytes db) =
     map (\<lambda>s. evictToFit (s\<lparr>sh_maxMemoryBytes := db_slice (db_setMaxMemory bytes db)\<rparr>)) (db_shards db)"
  "db_maxMemoryBytes (db_setMaxMemory bytes db) = bytes"
  "shardIndexFor (db_setMaxMemory bytes db) = shardIndexFor db"
  by (simp_all add: db_setMaxMemory_def db_slice_def Let_def)

lemma db_setMaxMemory_correct:
  fixes bytes :: nat
  assumes "db_inv db"
  defines "db' \<equiv> db_setMaxMemory bytes db"
  shows "db_inv db'"
    and "db_lookup db' k \<in> {db_lookup db k, None}"
    and "bytes = 0 \<Longrightarrow> db_lookup db' = db_lookup db"
    and "bytes \<noteq> 0 \<Longrightarrow> s \<in> set (db_shards db') \<Longrightarrow>
      ht_memoryUsage (sh_table s) \<le> db_slice db' \<or> length (ht_abs (sh_table s)) \<le> 1"
proof -
  let ?f = "\<lambda>s. s\<lparr>sh_maxMemoryBytes := db_slice db'\<rparr>"
  have sh: "db_shards db' = map (\<lambda>s. evictToFit (?f s)) (db_shards db)"
    "shardIndexFor db' = shardIndexFor db" "db_maxMemoryBytes db' = bytes"
    unfolding db'_def using db_setMaxMemory_shards by simp_all
  have inv: "ht_inv (sh_table (?f (db_shards db ! i)))" if "i < length (db_shards db)" for i
    using db_shard_ok [OF assms(1) that] by (simp add: shard_ok_def)
  have ok: "shard_ok db' i (evictToFit (?f (db_shards db ! i)))" if "i < length (db_shards db)" for i
    using db_shard_ok [OF assms(1) that] evictToFit_correct(1,3) [OF inv [OF that]]
      evictToFit_subset [OF inv [OF that]] sh(2)
    by (auto simp: shard_ok_def)
  have "\<exists>k. db_routing db' k"
    using assms(1) sh(1) by (auto simp: db_inv_def db_routing_def db'_def db_setMaxMemory_def Let_def)
  with ok show "db_inv db'" by (auto simp: db_inv_def sh(1))
  have idx: "shardIndexFor db k < length (db_shards db)" for k using assms(1) by (rule shardFor_less)
  then have look: "db_lookup db' k = lru_find k (ht_abs (sh_table (evictToFit (?f (shardFor db k)))))"
    and old: "db_lookup db k = lru_find k (ht_abs (sh_table (shardFor db k)))" for k
    using evictToFit_correct(1) [OF inv] inv
    by (simp_all add: db_lookup_def shardFor_def sh(1,2) ht_find_lru)
  obtain m where "ht_abs (sh_table (evictToFit (?f (shardFor db k)))) =
      take m (ht_abs (sh_table (shardFor db k)))"
    using evictToFit_correct(2) [OF inv [OF idx [of k]]] by (auto simp: shardFor_def)
  then show "db_lookup db' k \<in> {db_lookup db k, None}"
    using lru_find_take [of k m] unfolding look old by simp
  show "db_lookup db' = db_lookup db" if "bytes = 0"
    using that evictToFit_correct(5) [OF inv [OF idx]] sh(3)
    by (auto simp: fun_eq_iff look old db_slice_def shardFor_def)
  show "ht_memoryUsage (sh_table s) \<le> db_slice db' \<or> length (ht_abs (sh_table s)) \<le> 1"
    if pos: "bytes \<noteq> 0" and mem: "s \<in> set (db_shards db')"
  proof -
    obtain i where "i < length (db_shards db)" "s = evictToFit (?f (db_shards db ! i))"
      using mem by (auto simp: sh(1) in_set_conv_nth)
    then show ?thesis
      using pos evictToFit_correct(6) [OF inv, of i] db_slice_0 [of db'] sh(3) by simp
  qed
qed

section \<open>Sweeping expired entries\<close>

lemma sweep_shards_conv:
  "sweep_shards clk p i ss =
     (sum_list (map (\<lambda>j. fst (sweep_shard (clk (i + j)) p (ss ! j))) [0..<length ss]),
      map (\<lambda>j. snd (sweep_shard (clk (i + j)) p (ss ! j))) [0..<length ss])"
proof (induction ss arbitrary: i)
  case (Cons s ss)
  have "[0..<length (s # ss)] = 0 # map Suc [0..<length ss]"
    by (simp add: map_Suc_upt upt_conv_Cons del: upt_Suc)
  with Cons [of "Suc i"] show ?case by (simp add: comp_def split: prod.splits del: upt_Suc)
qed simp

text \<open>One shard: the entries removed are expired ones in the buckets scanned.\<close>

definition sweep_start :: "shard \<Rightarrow> nat" where
  "sweep_start s = (if sh_sweepCursor s \<ge> length (ht_buckets (sh_table s)) then 0 else sh_sweepCursor s)"

definition swept_buckets :: "nat \<Rightarrow> shard \<Rightarrow> nat set" where
  "swept_buckets p s =
     (let len = length (ht_buckets (sh_table s)) in set (scan_range (sweep_start s) (min p len) len))"

lemma sweep_shard_correct:
  fixes now :: time_point and p :: nat
  assumes "ht_inv (sh_table s)"
  defines "s' \<equiv> snd (sweep_shard now p s)"
  defines "gone \<equiv> \<lambda>e. isExpiredAt now e \<and>
    bucketIndex (length (ht_buckets (sh_table s))) (e_key e) \<in> swept_buckets p s"
  shows "ht_inv (sh_table s')"
    and "ht_abs (sh_table s') = filter (\<lambda>e. \<not> gone e) (ht_abs (sh_table s))"
    and "fst (sweep_shard now p s) = length (filter gone (ht_abs (sh_table s)))"
    and "sh_maxMemoryBytes s' = sh_maxMemoryBytes s"
    and "length (ht_buckets (sh_table s')) = length (ht_buckets (sh_table s))"
    and "ht_buckets (sh_table s) \<noteq> [] \<Longrightarrow> sh_sweepCursor s' =
      (sweep_start s + min p (length (ht_buckets (sh_table s)))) mod length (ht_buckets (sh_table s))"
proof -
  let ?len = "length (ht_buckets (sh_table s))"
  note r = ht_removeIf_correct [OF assms(1), of "sweep_start s" "min p ?len" "isExpiredAt now"]
  have eq: "sweep_shard now p s = (case ht_removeIf (sweep_start s) (min p ?len) (isExpiredAt now)
      (sh_table s) of (n, t) \<Rightarrow>
        (n, s\<lparr>sh_table := t, sh_sweepCursor := (sweep_start s + min p ?len) mod ?len\<rparr>))"
    if "?len \<noteq> 0" using that by (simp add: sweep_shard_def sweep_start_def Let_def)
  have g: "gone = (\<lambda>e. isExpiredAt now e \<and>
      bucketIndex ?len (e_key e) \<in> set (scan_range (sweep_start s) (min (min p ?len) ?len) ?len))"
    by (simp add: gone_def swept_buckets_def Let_def)
  have z: "sweep_shard now p s = (0, s)" "gone = (\<lambda>e. False)" if "?len = 0"
    using that by (simp_all add: sweep_shard_def g scan_range_def)
  obtain n t where rm: "ht_removeIf (sweep_start s) (min p ?len) (isExpiredAt now) (sh_table s) = (n, t)"
    by fastforce
  have r': "ht_inv t \<and> ht_abs t = filter (\<lambda>e. \<not> gone e) (ht_abs (sh_table s)) \<and>
      n = length (filter gone (ht_abs (sh_table s))) \<and> length (ht_buckets t) = ?len"
    using r unfolding g rm by simp
  have nz: "sweep_shard now p s =
      (n, s\<lparr>sh_table := t, sh_sweepCursor := (sweep_start s + min p ?len) mod ?len\<rparr>)" if "?len \<noteq> 0"
    by (simp only: eq [OF that] rm prod.case)
  have "ht_inv (sh_table s') \<and> ht_abs (sh_table s') = filter (\<lambda>e. \<not> gone e) (ht_abs (sh_table s)) \<and>
      fst (sweep_shard now p s) = length (filter gone (ht_abs (sh_table s))) \<and>
      sh_maxMemoryBytes s' = sh_maxMemoryBytes s \<and> length (ht_buckets (sh_table s')) = ?len"
  proof (cases "?len = 0")
    case True
    show ?thesis unfolding s'_def z [OF True] using assms(1) by simp
  next
    case False
    show ?thesis unfolding s'_def nz [OF False] using r' by simp
  qed
  then show "ht_inv (sh_table s')" "ht_abs (sh_table s') = filter (\<lambda>e. \<not> gone e) (ht_abs (sh_table s))"
      "fst (sweep_shard now p s) = length (filter gone (ht_abs (sh_table s)))"
      "sh_maxMemoryBytes s' = sh_maxMemoryBytes s" "length (ht_buckets (sh_table s')) = ?len"
    by blast+
  show "sh_sweepCursor s' = (sweep_start s + min p ?len) mod ?len" if "ht_buckets (sh_table s) \<noteq> []"
    unfolding s'_def using that nz by simp
qed

text \<open>The whole database: a sweep removes only entries that have expired.\<close>

lemma db_removeExpired_shards:
  fixes db :: database
  assumes "maxBuckets \<noteq> 0"
  defines "p \<equiv> max (maxBuckets div length (db_shards db)) 1"
  shows "snd (db_removeExpired clk maxBuckets db) =
      db\<lparr>db_shards := map (\<lambda>j. snd (sweep_shard (clk j) p (db_shards db ! j))) [0..<length (db_shards db)]\<rparr>"
    and "fst (db_removeExpired clk maxBuckets db) =
      sum_list (map (\<lambda>j. fst (sweep_shard (clk j) p (db_shards db ! j))) [0..<length (db_shards db)])"
  using assms(1) by (simp_all add: db_removeExpired_def sweep_shards_conv p_def Let_def)

lemma foldl_plus_conv: "foldl (\<lambda>(a::nat) x. a + f x) n xs = n + sum_list (map f xs)"
  by (induction xs arbitrary: n) simp_all

lemma sum_list_nth_conv: "sum_list (map f xs) = sum_list (map (\<lambda>j. f (xs ! j)) [0..<length xs])"
  by (rule arg_cong [of _ _ sum_list]) (rule nth_equalityI, simp_all)

lemma sum_list_map_add:
  fixes f g h :: "'a \<Rightarrow> nat"
  shows "(\<And>x. x \<in> set xs \<Longrightarrow> f x + g x = h x) \<Longrightarrow>
    sum_list (map f xs) + sum_list (map g xs) = sum_list (map h xs)"
  by (simp add: sum_list_addf [symmetric] cong: map_cong)

lemma db_size_conv:
  assumes "db_inv db"
  shows "db_size db =
    sum_list (map (\<lambda>j. length (ht_abs (sh_table (db_shards db ! j)))) [0..<length (db_shards db)])"
proof -
  have "db_size db = sum_list (map (\<lambda>j. ht_size (sh_table (db_shards db ! j))) [0..<length (db_shards db)])"
    unfolding db_size_def foldl_plus_conv by (subst sum_list_nth_conv) simp
  also have "\<dots> = sum_list (map (\<lambda>j. length (ht_abs (sh_table (db_shards db ! j)))) [0..<length (db_shards db)])"
    using db_shard_ok [OF assms]
    by (intro arg_cong [of _ _ sum_list] map_cong) (auto simp: shard_ok_def ht_size_correct)
  finally show ?thesis .
qed

lemma db_removeExpired_correct:
  fixes clk :: "nat \<Rightarrow> time_point" and maxBuckets :: nat
  assumes "db_inv db"
  defines "db' \<equiv> snd (db_removeExpired clk maxBuckets db)"
  shows "db_inv db'"
    and "db_lookup db' k = db_lookup db k \<or> db_lookup db' k = None \<and>
      (\<exists>e. db_lookup db k = Some e \<and> isExpiredAt (clk (shardIndexFor db k)) e)"
    and "fst (db_removeExpired clk maxBuckets db) + db_size db' = db_size db"
proof -
  let ?n = "length (db_shards db)" and ?p = "max (maxBuckets div length (db_shards db)) 1"
  let ?s = "\<lambda>j. snd (sweep_shard (clk j) ?p (db_shards db ! j))"
  have inv: "ht_inv (sh_table (db_shards db ! j))" if "j < ?n" for j
    using db_shard_ok [OF assms(1) that] by (simp add: shard_ok_def)
  note sw = sweep_shard_correct [OF inv]
  have nop: "db' = db" "fst (db_removeExpired clk maxBuckets db) = 0" if "maxBuckets = 0"
    using that by (simp_all add: db'_def db_removeExpired_def)
  have go: "db' = db\<lparr>db_shards := map ?s [0..<?n]\<rparr>" if "maxBuckets \<noteq> 0"
    unfolding db'_def using that by (rule db_removeExpired_shards(1))
  show inv': "db_inv db'"
  proof (cases "maxBuckets = 0")
    case False
    show ?thesis
      unfolding go [OF False] by (rule db_inv_subset [OF assms(1)]) (auto simp: sw(1,2,4))
  qed (simp add: nop assms(1))
  show "db_lookup db' k = db_lookup db k \<or> db_lookup db' k = None \<and>
      (\<exists>e. db_lookup db k = Some e \<and> isExpiredAt (clk (shardIndexFor db k)) e)"
  proof (cases "maxBuckets = 0")
    case False
    have i: "shardIndexFor db k < ?n" by (rule shardFor_less [OF assms(1)])
    have "db_lookup db k = lru_find k (ht_abs (sh_table (db_shards db ! shardIndexFor db k)))"
      by (simp add: db_lookup_def shardFor_def ht_find_lru inv i)
    with i show ?thesis
      unfolding go [OF False]
      by (auto simp: db_lookup_shards ht_find_lru sw(1,2) lru_find_filter ht_abs_distinct inv
          split: option.splits)
  qed (simp add: nop)
  show "fst (db_removeExpired clk maxBuckets db) + db_size db' = db_size db"
  proof (cases "maxBuckets = 0")
    case False
    have "fst (sweep_shard (clk j) ?p (db_shards db ! j)) + length (ht_abs (sh_table (?s j))) =
        length (ht_abs (sh_table (db_shards db ! j)))" if "j < ?n" for j
      unfolding sw(2,3) [OF that] by (rule sum_length_filter_compl)
    moreover have "db_size db' = sum_list (map (\<lambda>j. length (ht_abs (sh_table (?s j)))) [0..<?n])"
      using db_size_conv [OF inv'] unfolding go [OF False]
      by (auto intro!: arg_cong [of _ _ sum_list])
    ultimately show ?thesis
      unfolding db_removeExpired_shards(2) [OF False] db_size_conv [OF assms(1)]
      by (simp only:) (rule sum_list_map_add, simp)
  qed (simp add: nop(1) db_removeExpired_def)
qed

section \<open>Repeated sweeps\<close>

text \<open>One shard swept once for each of a list of clock readings.\<close>

fun sweep_iter :: "time_point list \<Rightarrow> nat \<Rightarrow> shard \<Rightarrow> shard" where
  "sweep_iter [] p s = s"
| "sweep_iter (t # ts) p s = sweep_iter ts p (snd (sweep_shard t p s))"

lemma sweep_iter_survivors:
  assumes "ht_inv (sh_table s)" "\<forall>t\<in>set ts. T \<le> t" "e \<in> set (ht_abs (sh_table (sweep_iter ts p s)))"
    and "isExpiredAt T e" "L = length (ht_buckets (sh_table s))" "0 < L"
    and "j < length ts * min p L"
  shows "bucketIndex L (e_key e) \<noteq> (sweep_start s + j) mod L"
  using assms
proof (induction ts arbitrary: s j)
  case (Cons t ts)
  let ?s = "snd (sweep_shard t p s)" and ?q = "min p L"
  note sw = sweep_shard_correct [OF Cons.prems(1), of t p, folded Cons.prems(5)]
  have ne: "ht_buckets (sh_table s) \<noteq> []" using Cons.prems(5,6) by auto
  then have "sh_sweepCursor ?s = (sweep_start s + ?q) mod L" by (rule sw(6))
  moreover have "(sweep_start s + ?q) mod L < L" using Cons.prems(6) by simp
  ultimately have start: "sweep_start ?s = (sweep_start s + ?q) mod L"
    unfolding sweep_start_def [of ?s] sw(5) by simp
  have mem: "e \<in> set (ht_abs (sh_table ?s))"
    if "e \<in> set (ht_abs (sh_table (sweep_iter us p s')))" "ht_inv (sh_table s')"
      "e \<in> set (ht_abs (sh_table s')) \<longrightarrow> e \<in> set (ht_abs (sh_table ?s))" for us s'
    using that
  proof (induction us arbitrary: s')
    case (Cons u us)
    note sw' = sweep_shard_correct(1,2) [OF Cons.prems(2), of u p]
    show ?case using Cons.prems sw' by (intro Cons.IH [of "snd (sweep_shard u p s')"]) auto
  qed simp
  show ?case
  proof (cases "j < ?q")
    case True
    have "isExpiredAt t e" using Cons.prems(2,4) by (auto intro: isExpiredAt_mono)
    moreover have "e \<in> set (ht_abs (sh_table ?s))"
      using mem [of ts ?s] Cons.prems(3) sw(1) by simp
    ultimately have "bucketIndex L (e_key e) \<notin> swept_buckets p s" unfolding sw(2) by auto
    with True show ?thesis
      by (auto simp: swept_buckets_def Let_def scan_range_def Cons.prems(5) [symmetric])
  next
    case False
    then have "bucketIndex L (e_key e) \<noteq> (sweep_start ?s + (j - ?q)) mod L"
      using Cons.prems sw(1,5) by (intro Cons.IH) auto
    moreover have "(sweep_start ?s + (j - ?q)) mod L = (sweep_start s + ?q + (j - ?q)) mod L"
      unfolding start by (rule mod_add_left_eq)
    moreover have "sweep_start s + ?q + (j - ?q) = sweep_start s + j" using False by linarith
    ultimately show ?thesis by simp
  qed
qed simp

lemma ht_no_buckets: "ht_inv t \<Longrightarrow> ht_buckets t = [] \<Longrightarrow> ht_abs t = []"
  by (erule ht_invE) (auto simp: ht_rep_def)

lemma sweep_iter_complete:
  assumes "ht_inv (sh_table s)" "\<forall>t\<in>set ts. T \<le> t" "0 < p"
    and "length (ht_buckets (sh_table s)) \<le> length ts"
    and "e \<in> set (ht_abs (sh_table (sweep_iter ts p s)))"
  shows "\<not> isExpiredAt T e"
proof
  assume exp: "isExpiredAt T e"
  let ?L = "length (ht_buckets (sh_table s))"
  show False
  proof (cases "?L = 0")
    case True
    then have "sweep_shard t p s = (0, s)" for t by (simp add: sweep_shard_def)
    then have "sweep_iter ts p s = s" by (induction ts) simp_all
    moreover have "ht_abs (sh_table s) = []"
      using assms(1) True by (intro ht_no_buckets) auto
    ultimately show False using assms(5) by simp
  next
    case False
    then have L: "0 < ?L" by simp
    have "bucketIndex ?L (e_key e) < ?L"
      using assms(1) L by (auto simp: ht_inv_def ht_rep_def bucketIndex_less)
    then have "bucketIndex ?L (e_key e) \<in> set (scan_range (sweep_start s) ?L ?L)"
      using scan_range_full [OF L] by simp
    then obtain j where j: "j < ?L" "bucketIndex ?L (e_key e) = (sweep_start s + j) mod ?L"
      by (auto simp: scan_range_def)
    have "1 \<le> min p ?L" using assms(3) L unfolding One_nat_def by (intro Suc_leI) (simp only: min_less_iff_conj)
    with assms(4) have "?L * 1 \<le> length ts * min p ?L" by (rule mult_le_mono)
    with j sweep_iter_survivors [OF assms(1,2,5) exp refl L, of j] show False by simp
  qed
qed

text \<open>The passes of the sweeper over an otherwise idle database; pass \<open>i\<close> reads the clock \<open>clks i\<close>.\<close>

fun db_sweeps :: "(nat \<Rightarrow> nat \<Rightarrow> time_point) \<Rightarrow> nat \<Rightarrow> nat \<Rightarrow> database \<Rightarrow> database" where
  "db_sweeps clks maxBuckets 0 db = db"
| "db_sweeps clks maxBuckets (Suc n) db =
     db_sweeps (\<lambda>i. clks (Suc i)) maxBuckets n (snd (db_removeExpired (clks 0) maxBuckets db))"

lemma db_sweeps_shards:
  assumes "maxBuckets \<noteq> 0" "j < length (db_shards db)"
  shows "db_shards (db_sweeps clks maxBuckets n db) ! j =
      sweep_iter (map (\<lambda>i. clks i j) [0..<n]) (max (maxBuckets div length (db_shards db)) 1)
        (db_shards db ! j) \<and>
    length (db_shards (db_sweeps clks maxBuckets n db)) = length (db_shards db) \<and>
    shardIndexFor (db_sweeps clks maxBuckets n db) = shardIndexFor db"
  using assms(2)
proof (induction n arbitrary: db clks)
  case (Suc n)
  have "map (\<lambda>i. clks i j) [0..<Suc n] = clks 0 j # map (\<lambda>i. clks (Suc i) j) [0..<n]"
    by (simp add: upt_conv_Cons map_Suc_upt [symmetric] comp_def del: upt_Suc)
  then show ?case
    using Suc db_removeExpired_shards(1) [OF assms(1), of "clks 0" db] by (simp del: upt_Suc)
qed simp

lemma shardIndexFor_removeExpired:
  "shardIndexFor (snd (db_removeExpired clk maxBuckets db)) = shardIndexFor db"
proof (cases "maxBuckets = 0")
  case True
  then show ?thesis by (simp add: db_removeExpired_def)
next
  case False
  show ?thesis unfolding db_removeExpired_shards(1) [OF False] by simp
qed

lemma db_sweeps_inv: "db_inv db \<Longrightarrow> db_inv (db_sweeps clks maxBuckets n db)"
  by (induction n arbitrary: db clks) (simp_all add: db_removeExpired_correct(1))

lemma db_sweeps_lookup:
  assumes "db_inv db"
  shows "db_lookup (db_sweeps clks maxBuckets n db) k = db_lookup db k \<or>
      db_lookup (db_sweeps clks maxBuckets n db) k = None \<and>
      (\<exists>e i. db_lookup db k = Some e \<and> i < n \<and> isExpiredAt (clks i (shardIndexFor db k)) e)"
  using assms
proof (induction n arbitrary: db clks)
  case (Suc n)
  note r = db_removeExpired_correct(1,2) [OF Suc.prems, of "clks 0" maxBuckets]
  from r(2) [of k] Suc.IH [OF r(1), of "\<lambda>i. clks (Suc i)"]
  show ?case
    unfolding shardIndexFor_removeExpired by auto (metis zero_less_Suc Suc_mono)+
qed simp

end
