(* ===== verification/VC_Database_Props.thy ===== *)
theory VC_Database_Props
  imports VC_Database_Keyspace
begin

text \<open>
  The properties of the database as a component: construction and routing, the
  effect of every operation on the keyspace, expiry, eviction under the memory
  limit, sweeping, and snapshots.
\<close>

section \<open>A database for the examples\<close>

definition db0 :: database where
  "db0 = the (Database 16 4)"

lemma db0_Database: "Database 16 4 = Some db0"
  using Database_returns [of 4 16] by (auto simp: db0_def)

lemmas db0_inv = Database_inv(1) [OF db0_Database, simplified]
lemmas db0_lookup = Database_inv(2) [OF db0_Database, simplified]
lemmas db0_limit = Database_inv(3) [OF db0_Database, simplified]

lemma db_lookup_dom:
  assumes "db_inv db"
  shows "set (concat (map (\<lambda>j. map e_key (ht_abs (sh_table (db_shards db ! j)))) [0..<length (db_shards db)])) =
    dom (db_lookup db)"
proof -
  let ?n = "length (db_shards db)"
  let ?f = "\<lambda>j. map e_key (ht_abs (sh_table (db_shards db ! j)))"
  have "k \<in> dom (db_lookup db) \<longleftrightarrow> (\<exists>j<?n. \<exists>e\<in>set (ht_abs (sh_table (db_shards db ! j))). e_key e = k)"
    for k
  proof
    assume "k \<in> dom (db_lookup db)"
    then obtain e where e: "db_lookup db k = Some e" by auto
    have i: "shardIndexFor db k < ?n" by (rule shardFor_less [OF assms])
    then have inv: "ht_inv (sh_table (shardFor db k))" by (simp add: shardFor_table [OF assms])
    then have "e \<in> set (ht_abs (sh_table (shardFor db k))) \<and> e_key e = k"
      using e lru_find_SomeD by (simp add: db_lookup_def ht_find_lru)
    with i show "\<exists>j<?n. \<exists>e\<in>set (ht_abs (sh_table (db_shards db ! j))). e_key e = k"
      unfolding shardFor_def by blast
  next
    assume "\<exists>j<?n. \<exists>e\<in>set (ht_abs (sh_table (db_shards db ! j))). e_key e = k"
    then show "k \<in> dom (db_lookup db)" using db_lookup_iff [OF assms] by auto
  qed
  moreover have "k \<in> set (concat (map ?f [0..<?n])) \<longleftrightarrow>
      (\<exists>j<?n. \<exists>e\<in>set (ht_abs (sh_table (db_shards db ! j))). e_key e = k)" for k
    by (auto simp: image_iff)
  ultimately show ?thesis by blast
qed

lemma db_size_card:
  assumes "db_inv db"
  shows "db_size db = card (dom (db_lookup db))"
proof -
  let ?n = "length (db_shards db)"
  let ?f = "\<lambda>j. map e_key (ht_abs (sh_table (db_shards db ! j)))"
  have "distinct (concat (map ?f [0..<?n]))"
  proof (rule distinct_concat_home [where home = "shardIndexFor db"])
    show "distinct (?f j)" if "j \<in> set [0..<?n]" for j
      using db_shard_ok [OF assms, of j] that by (simp add: shard_ok_def ht_abs_distinct)
    show "shardIndexFor db k = j" if "j \<in> set [0..<?n]" "k \<in> set (?f j)" for j k
      using that db_lookup_iff [OF assms, of j] by auto
  qed simp
  then have "card (set (concat (map ?f [0..<?n]))) = length (concat (map ?f [0..<?n]))"
    by (rule distinct_card)
  then show ?thesis
    using db_lookup_dom [OF assms] by (simp add: db_size_conv [OF assms] length_concat comp_def)
qed

lemma sum_list_map_concat:
  "sum_list (map f (concat xss)) = sum_list (map (\<lambda>xs. sum_list (map f xs)) xss)"
  for f :: "'a \<Rightarrow> nat"
  by (induction xss) simp_all

lemma finite_dom:
  assumes "db_inv db"
  shows "finite (dom (db_lookup db))"
  using db_lookup_dom [OF assms] by (metis List.finite_set)

lemma db_empty_iff:
  assumes "db_inv db"
  shows "db_empty db \<longleftrightarrow> db_size db = 0"
  unfolding db_empty_def db_size_def foldl_plus_conv by (auto simp: list_all_iff)

lemma db_set_plain:
  assumes "db_inv db" "db_maxMemoryBytes db = 0"
  shows "db_inv (snd (db_set key val db)) \<and>
    db_lookup (snd (db_set key val db)) = (db_lookup db)(key \<mapsto> Entry key val) \<and>
    fst (db_set key val db) = (if db_lookup db key = None then Inserted else Updated)"
  using assms(1)
proof (cases rule: db_set_cases [where key = key and val = val])
  case (fits t)
  with db_write(1,5) [OF assms(1) fits(2,3)] assms(2) show ?thesis by simp
next
  case rejected
  with assms(2) show ?thesis by (simp add: fitsWithinLimit_def)
qed

lemma db_lookup_key: "db_inv db \<Longrightarrow> db_lookup db k = Some e \<Longrightarrow> e_key e = k"
  using shardFor_table(1) lru_find_SomeD by (simp add: db_lookup_def ht_find_lru)

lemma db_live_Some:
  "db_live t db k = Some e \<longleftrightarrow> db_lookup db k = Some e \<and> \<not> isExpiredAt t e"
  by (auto simp: db_live_def split: option.splits)

text \<open>The operations of the class as one type, and a run of a sequence of them.\<close>

datatype db_op =
    Db_set string string
  | Db_set_ttl time_point string string int
  | Db_get time_point string
  | Db_del time_point string
  | Db_removeExpired "nat \<Rightarrow> time_point" nat
  | Db_restore time_point "entry list"
  | Db_setMaxMemory nat
  | Db_clear

fun db_apply :: "db_op \<Rightarrow> database \<Rightarrow> database" where
  "db_apply (Db_set k v) db = snd (db_set k v db)"
| "db_apply (Db_set_ttl now k v ttl) db = snd (db_set_ttl now k v ttl db)"
| "db_apply (Db_get now k) db = snd (db_get now k db)"
| "db_apply (Db_del now k) db = snd (db_del now k db)"
| "db_apply (Db_removeExpired clk n) db = snd (db_removeExpired clk n db)"
| "db_apply (Db_restore now es) db = snd (db_restore now es db)"
| "db_apply (Db_setMaxMemory n) db = db_setMaxMemory n db"
| "db_apply Db_clear db = db_clear db"

lemma db_apply_inv: "db_inv db \<Longrightarrow> db_inv (db_apply oper db)"
  by (cases oper) (simp_all add: db_set_inv db_set_ttl_inv db_get_correct db_del_correct
      db_removeExpired_correct(1) db_restore_correct(1) db_setMaxMemory_correct(1) db_clear_correct(1))

lemma db_run_inv: "db_inv db \<Longrightarrow> db_inv (fold db_apply ops db)"
  by (induction ops arbitrary: db) (simp_all add: db_apply_inv)

section \<open>Properties\<close>

text \<open>
  Construction returns for every requested shard count up to \<open>2 ^ 63\<close>, with the least
  power of two at or above it many shards, no entry, no memory limit and the invariant.
\<close>

theorem Database_constructor:
  assumes "n \<le> 2 ^ 63"
  shows "\<exists>db. Database b n = Some db \<and> db_inv db \<and> db_lookup db = Map.empty \<and>
     db_maxMemoryBytes db = 0 \<and> is_pow2 (length (db_shards db)) \<and> n \<le> length (db_shards db) \<and>
     length (db_shards db) < 2 * max n 1"
proof -
  obtain db k where db: "Database b n = Some db" "db_routing db k" "max n 1 \<le> 2 ^ k"
      "0 < k \<longrightarrow> 2 ^ (k - 1) < max n 1" "length (db_shards db) = 2 ^ k"
    using Database_returns [OF assms, of b] by auto
  have "2 ^ k < 2 * max n 1" using db(4) by (cases k) auto
  moreover have "is_pow2 (2 ^ k)" using db(2) by (auto simp: is_pow2_def db_routing_def)
  ultimately show ?thesis
    using db Database_inv [OF db(1) assms] by (auto simp: fun_eq_iff)
qed

theorem Database_constructor_witness:
  "\<exists>db. Database 16 5 = Some db \<and> db_inv db \<and> db_lookup db = Map.empty \<and>
     db_maxMemoryBytes db = 0 \<and> is_pow2 (length (db_shards db)) \<and> 5 \<le> length (db_shards db) \<and>
     length (db_shards db) < 10"
  using Database_constructor [of 5 16] by simp

text \<open>
  A requested shard count above \<open>2 ^ 63\<close> makes the constructor's rounding loop run
  forever: doubling wraps around to zero before it reaches the count.
\<close>

theorem Database_constructor_diverges:
  assumes "2 ^ 63 < n" "n < 2 ^ 64"
  shows "Database b n = None"
proof -
  have "unat (of_nat (max n 1) :: u64) = n"
    using assms unfolding unat_of_nat by (simp add: max_def)
  then show ?thesis
    using round_loop_diverges [of "of_nat (max n 1)"] assms(1)
    by (simp add: Database_def db_roundUpToPowerOfTwo_def)
qed

theorem Database_constructor_diverges_witness: "Database 16 (2 ^ 63 + 1) = None"
  by (rule Database_constructor_diverges) simp_all

text \<open>
  Routing: a key's shard is given by the top \<open>k\<close> bits of its hash, its bucket by the low
  bits, so the masks and shifts of the code are a division and a remainder; the shard
  index is in range and does not depend on the stored data.
\<close>

theorem shardIndexFor_top_bits:
  assumes "Database b n = Some db" "n \<le> 2 ^ 63"
  shows "\<exists>k. length (db_shards db) = 2 ^ k \<and>
    shardIndexFor db key = unat (hashKey key) div 2 ^ (64 - k) \<and>
    shardIndexFor db key < length (db_shards db) \<and>
    bucketIndexFor (sh_table (shardFor db key)) key =
      unat (hashKey key) mod length (ht_buckets (sh_table (shardFor db key)))"
proof -
  obtain k where k: "db_routing db k"
      "db_shards db = replicate (2 ^ k) (Shard (max (b div 2 ^ k) 1))"
    using Database_returns [OF assms(2), of b] assms(1) by auto
  have i: "shardIndexFor db key < length (db_shards db)" by (rule shardFor_less [OF Database_inv(1) [OF assms]])
  have inv: "ht_inv (sh_table (shardFor db key))"
    using shardFor_table(1) Database_inv(1) [OF assms] by simp
  have "bucketIndex m key = unat (hashKey key) mod m" if "is_pow2 m \<or> m = 0" for m
    using that bucketIndex_mod [of m key] by (auto simp: bucketIndex_def)
  moreover have "is_pow2 (length (ht_buckets (sh_table (shardFor db key)))) \<or>
      length (ht_buckets (sh_table (shardFor db key))) = 0"
    using inv by (auto simp: ht_inv_def ht_rep_def)
  ultimately show ?thesis
    using i shardIndexFor_high_bits [OF k(1)] k by (intro exI [of _ k]) (simp add: bucketIndexFor_def)
qed

theorem shardIndexFor_top_bits_witness:
  "\<exists>k. length (db_shards db0) = 2 ^ k \<and>
    shardIndexFor db0 ''name'' = unat (hashKey ''name'') div 2 ^ (64 - k) \<and>
    shardIndexFor db0 ''name'' < length (db_shards db0)"
  using shardIndexFor_top_bits [OF db0_Database, of "''name''"] by auto

text \<open>
  Without a memory limit, SET is a map update: it stores exactly the written entry (and
  clears an earlier expiration), leaves every other key alone, and reports whether the key
  was new.
\<close>

theorem db_set_unlimited:
  assumes "db_inv db" "db_maxMemoryBytes db = 0"
  shows "db_inv (snd (db_set key val db)) \<and>
    db_lookup (snd (db_set key val db)) = (db_lookup db)(key \<mapsto> Entry key val) \<and>
    fst (db_set key val db) = (if db_lookup db key = None then Inserted else Updated)"
  using assms by (rule db_set_plain)

theorem db_set_unlimited_witness:
  "db_lookup (snd (db_set ''k'' ''v'' db0)) = [''k'' \<mapsto> Entry ''k'' ''v''] \<and>
   fst (db_set ''k'' ''v'' db0) = Inserted"
  using db_set_unlimited [OF db0_inv db0_limit, of "''k''" "''v''"] db0_lookup
  by (auto simp: fun_eq_iff)

text \<open>
  C5. Under any limit, an accepted SET keeps the written key; another key keeps its entry or
  is evicted, and only keys of the same shard can be; afterwards the shard is within its
  slice of the limit or holds the written entry alone; and what was evicted are the least
  recently used entries: the shard's recency list is a prefix of the list before eviction.
\<close>

theorem db_set_limited:
  assumes "db_inv db" "fst (db_set key val db) \<noteq> Rejected"
  defines "db' \<equiv> snd (db_set key val db)"
  shows "db_inv db' \<and> db_lookup db' key = Some (Entry key val) \<and>
    (\<forall>k. k \<noteq> key \<longrightarrow> db_lookup db' k \<in> {db_lookup db k, None}) \<and>
    (\<forall>k. shardIndexFor db k \<noteq> shardIndexFor db key \<longrightarrow> db_lookup db' k = db_lookup db k) \<and>
    (db_maxMemoryBytes db \<noteq> 0 \<longrightarrow>
      ht_memoryUsage (sh_table (shardFor db' key)) \<le> db_slice db \<or>
      ht_abs (sh_table (shardFor db' key)) = [Entry key val]) \<and>
    (\<exists>m. ht_abs (sh_table (shardFor db' key)) =
      take (Suc m) (lru_put key val (ht_abs (sh_table (shardFor db key)))))"
  using assms(1)
proof (cases rule: db_set_cases [where key = key and val = val])
  case (fits t)
  let ?s = "(shardFor db key)\<lparr>sh_table := t\<rparr>"
  have db': "db' = set_shardFor db key (evictToFit ?s)" using fits(4) by (simp add: db'_def)
  note w = db_write [OF assms(1) fits(2,3), folded db']
  have "shardFor db' key = evictToFit ?s"
    using dbs.part_same [OF assms(1), of key] unfolding db' shardFor_def by simp
  moreover obtain m where "ht_abs (sh_table (evictToFit ?s)) =
      Entry key val # take m (lru_remove key (ht_abs (sh_table (shardFor db key))))"
    using evictToFit_head [of ?s] fits(2,3) by auto
  ultimately have "\<exists>m. ht_abs (sh_table (shardFor db' key)) =
      take (Suc m) (lru_put key val (ht_abs (sh_table (shardFor db key))))"
    by (auto simp: lru_put_def)
  with w show ?thesis by auto
qed (use assms(2) in simp)

theorem db_set_limited_witness:
  "db_lookup (snd (db_set ''k'' ''v'' (db_setMaxMemory 1000 db0))) ''k'' = Some (Entry ''k'' ''v'')"
proof -
  let ?db = "db_setMaxMemory 1000 db0"
  have inv: "db_inv ?db" by (rule db_setMaxMemory_correct(1) [OF db0_inv])
  have "fst (db_set ''k'' ''v'' ?db) \<noteq> Rejected"
    by (simp add: db_set_def Let_def fitsWithinLimit_def footprintEstimate_def sizeof_Node_def
        kAllocationSlack_def db_setMaxMemory_shards split: prod.splits)
  from db_set_limited [OF inv this] show ?thesis by simp
qed



text \<open>
  Reads: GET returns the value of a live entry and changes no entry (only recency), EXISTS
  agrees with it, TTL is the remaining time rounded up to seconds, and DEL removes the key
  and reports whether it was live; an expired key counts as absent for all four.
\<close>

theorem db_reads:
  assumes "db_inv db"
  shows "fst (db_get now key db) = map_option e_value (db_live now db key) \<and>
    db_inv (snd (db_get now key db)) \<and> db_lookup (snd (db_get now key db)) = db_lookup db \<and>
    (db_exists now key db \<longleftrightarrow> fst (db_get now key db) \<noteq> None) \<and>
    db_ttl now key db = (case db_live now db key of None \<Rightarrow> None
      | Some e \<Rightarrow> map_option (\<lambda>t. \<lceil>of_int (t - now) / 1000000000 :: real\<rceil>) (e_expiration e)) \<and>
    (fst (db_del now key db) \<longleftrightarrow> db_exists now key db) \<and>
    db_inv (snd (db_del now key db)) \<and>
    db_lookup (snd (db_del now key db)) = (db_lookup db)(key := None)"
proof -
  have "ceil_seconds d = \<lceil>of_int d / 1000000000 :: real\<rceil>" for d
    unfolding ceil_seconds_def ceiling_def
    using floor_divide_of_int_eq [where 'a = real, of "- d" 1000000000] by simp
  then show ?thesis
    using db_get_correct [OF assms] db_del_correct [OF assms] db_exists_correct db_ttl_correct
    by (simp split: option.splits)
qed

theorem db_reads_witness:
  "fst (db_get 7 ''k'' (snd (db_set ''k'' ''v'' db0))) = Some ''v'' \<and>
   db_exists 7 ''k'' (snd (db_set ''k'' ''v'' db0)) \<and> db_ttl 7 ''k'' (snd (db_set ''k'' ''v'' db0)) = None"
proof -
  let ?db = "snd (db_set ''k'' ''v'' db0)"
  have "db_lookup ?db ''k'' = Some (Entry ''k'' ''v'')"
    using db_set_plain [OF db0_inv db0_limit] by simp
  then show ?thesis
    using db_reads [OF db_set_inv [OF db0_inv, of "''k''" "''v''"], of 7 "''k''"]
    by (simp add: db_live_def)
qed

text \<open>
  C21. Life of an expiring key: after an accepted \<open>SET key val EX ttl\<close> at time \<open>now\<close>, GET at any
  time \<open>t\<close> returns the value exactly while \<open>t\<close> is before \<open>now\<close> plus \<open>ttl\<close> seconds, EXISTS
  agrees, and at \<open>now\<close> itself TTL reports the full \<open>ttl\<close>.
\<close>

theorem db_set_ttl_lifetime:
  assumes "db_inv db" "fst (db_set_ttl now key val ttl db) \<noteq> Rejected" "0 < ttl"
  defines "db' \<equiv> snd (db_set_ttl now key val ttl db)"
  shows "db_inv db' \<and>
    fst (db_get t key db') = (if t < now + ttl * 1000000000 then Some val else None) \<and>
    (db_exists t key db' \<longleftrightarrow> t < now + ttl * 1000000000) \<and>
    db_ttl now key db' = Some ttl"
  using assms(1)
proof (cases rule: db_set_ttl_cases [where key = key and val = val and now = now and ttl = ttl])
  case (fits t)
  have inv: "db_inv db'" using db_set_ttl_inv [OF assms(1)] by (simp add: db'_def)
  have "db_lookup db' key = Some (write_entry key val (Some (now + seconds ttl)))"
    using db_write(2) [OF assms(1) fits(2,3)] fits(4) by (simp add: db'_def)
  moreover have "ceil_seconds (seconds ttl) = ttl" by (simp add: ceil_seconds_def seconds_def)
  ultimately show ?thesis
    using inv db_get_correct(1) [OF inv] assms(3)
    by (auto simp: db_exists_correct db_ttl_correct db_live_def isExpiredAt_def seconds_def not_le)
qed (use assms(2) in simp)

theorem db_set_ttl_lifetime_witness:
  "fst (db_get 60000000003 ''k'' (snd (db_set_ttl 4 ''k'' ''v'' 60 db0))) = Some ''v'' \<and>
   fst (db_get 60000000004 ''k'' (snd (db_set_ttl 4 ''k'' ''v'' 60 db0))) = None"
proof -
  have "fst (db_set_ttl 4 ''k'' ''v'' 60 db0) \<noteq> Rejected"
    by (simp add: db_set_ttl_def Let_def fitsWithinLimit_def db0_limit split: prod.splits)
  from db_set_ttl_lifetime [OF db0_inv this] show ?thesis by simp
qed

text \<open>
  KEYS lists every live key exactly once and nothing else, each shard judged at the instant
  it was visited; the snapshot is the corresponding list of entries.
\<close>

theorem db_keys_exact:
  assumes "db_inv db"
  shows "distinct (db_keys clk db) \<and>
    (key \<in> set (db_keys clk db) \<longleftrightarrow> db_exists (clk (shardIndexFor db key)) key db) \<and>
    db_keys clk db = map e_key (db_snapshot clk db) \<and>
    (e \<in> set (db_snapshot clk db) \<longleftrightarrow>
      db_live (clk (shardIndexFor db (e_key e))) db (e_key e) = Some e)"
proof -
  have k: "e_key e = key" if "db_live t db key = Some e" for t e
    using that db_lookup_key [OF assms] by (simp add: db_live_Some)
  have "key \<in> set (db_keys clk db) \<longleftrightarrow> db_exists (clk (shardIndexFor db key)) key db"
    using k db_snapshot_set [OF assms, of _ clk] by (auto simp: db_keys_snapshot db_exists_correct) (metis imageI)
  then show ?thesis
    using db_keys_distinct [OF assms] db_keys_snapshot db_snapshot_set [OF assms] by blast
qed

theorem db_keys_exact_witness: "''k'' \<in> set (db_keys (\<lambda>_. 9) (snd (db_set ''k'' ''v'' db0)))"
proof -
  have "db_exists 9 ''k'' (snd (db_set ''k'' ''v'' db0))"
    using db_set_plain [OF db0_inv db0_limit, of "''k''" "''v''"]
    by (simp add: db_exists_correct db_live_def)
  then show ?thesis using db_keys_exact [OF db_set_inv [OF db0_inv], where clk = "\<lambda>_. 9"] by blast
qed

text \<open>
  The counters: \<open>size\<close> is the number of stored keys, expired ones included, \<open>empty\<close> says
  whether it is zero, and \<open>memoryUsage\<close> is the sum of the entries' estimates and of the
  bucket arrays over all shards.
\<close>

theorem db_counters:
  assumes "db_inv db"
  shows "db_size db = card (dom (db_lookup db)) \<and> (db_empty db \<longleftrightarrow> db_lookup db = Map.empty) \<and>
    db_memoryUsage db = sum_list (map entry_footprint (concat (map (\<lambda>s. ht_abs (sh_table s)) (db_shards db)))) +
      db_bucketCount db * sizeof_ptr"
proof -
  have "ht_memoryUsage (sh_table s) = sum_list (map entry_footprint (ht_abs (sh_table s))) +
      length (ht_buckets (sh_table s)) * sizeof_ptr" if "s \<in> set (db_shards db)" for s
    using that assms by (auto simp: in_set_conv_nth db_inv_def shard_ok_def ht_memoryUsage_def ht_entryBytes_correct)
  then have "db_memoryUsage db = sum_list (map (\<lambda>s. sum_list (map entry_footprint (ht_abs (sh_table s))) +
      length (ht_buckets (sh_table s)) * sizeof_ptr) (db_shards db))"
    unfolding db_memoryUsage_def foldl_plus_conv by (simp cong: map_cong)
  also have "\<dots> = sum_list (map entry_footprint (concat (map (\<lambda>s. ht_abs (sh_table s)) (db_shards db)))) +
      db_bucketCount db * sizeof_ptr"
    unfolding db_bucketCount_def foldl_plus_conv
    by (simp add: sum_list_addf sum_list_mult_const sum_list_map_concat comp_def)
  finally show ?thesis
    using db_size_card [OF assms] db_empty_iff [OF assms] finite_dom [OF assms] by (auto simp: card_eq_0_iff)
qed

theorem db_counters_witness: "db_size db0 = 0 \<and> db_empty db0"
proof -
  have "db_lookup db0 = Map.empty" by (simp add: fun_eq_iff db0_lookup)
  then show ?thesis using db_counters [OF db0_inv] by simp
qed

text \<open>
  C22. A sweep is invisible to readers: it keeps the invariant, removes only entries that have
  expired at the instant their shard was visited, so GET, EXISTS and TTL at any later time
  answer as before, and it reports how many entries it removed.
\<close>

theorem db_removeExpired_safe:
  fixes maxBuckets :: nat
  assumes "db_inv db" "clk (shardIndexFor db key) \<le> later"
  defines "db' \<equiv> snd (db_removeExpired clk maxBuckets db)"
  shows "db_inv db' \<and> db_live later db' key = db_live later db key \<and>
    db_exists later key db' = db_exists later key db \<and> db_ttl later key db' = db_ttl later key db \<and>
    fst (db_removeExpired clk maxBuckets db) + db_size db' = db_size db"
proof -
  note r = db_removeExpired_correct [OF assms(1), of clk maxBuckets, folded db'_def]
  have "db_live later db' key = db_live later db key"
    using r(2) [of key]
  proof (elim disjE conjE exE)
    fix e assume "db_lookup db' key = None" "db_lookup db key = Some e"
      "isExpiredAt (clk (shardIndexFor db key)) e"
    then show ?thesis using isExpiredAt_mono [OF _ assms(2)] by (simp add: db_live_def)
  qed (simp add: db_live_def)
  with r show ?thesis by (simp add: db_exists_correct db_ttl_correct)
qed

theorem db_removeExpired_safe_witness:
  "db_exists 9 ''k'' (snd (db_removeExpired (\<lambda>_. 5) 32 (snd (db_set ''k'' ''v'' db0))))"
proof -
  let ?db = "snd (db_set ''k'' ''v'' db0)"
  have "db_exists 9 ''k'' ?db"
    using db_set_plain [OF db0_inv db0_limit, of "''k''" "''v''"]
    by (simp add: db_exists_correct db_live_def)
  then show ?thesis
    using db_removeExpired_safe [OF db_set_inv [OF db0_inv], where clk = "\<lambda>_. 5" and later = 9 and key = "''k''"]
    by simp
qed

text \<open>
  Liveness of the sweeper: with a positive budget, on an otherwise idle database, as many
  passes as the largest shard has buckets reclaim every entry that had expired before the
  first pass, whatever the budget and wherever the cursors stand.
\<close>

lemma db_sweeps_reclaim:
  assumes "db_inv db" "0 < maxBuckets"
    and "\<forall>s\<in>set (db_shards db). length (ht_buckets (sh_table s)) \<le> n"
    and "\<forall>i j. T \<le> clks i j"
    and "db_lookup (db_sweeps clks maxBuckets n db) key = Some e"
  shows "\<not> isExpiredAt T e"
proof -
  let ?db = "db_sweeps clks maxBuckets n db" and ?j = "shardIndexFor db key"
  let ?p = "max (maxBuckets div length (db_shards db)) 1"
  have j: "?j < length (db_shards db)" by (rule shardFor_less [OF assms(1)])
  have sh: "shardFor ?db key = sweep_iter (map (\<lambda>i. clks i ?j) [0..<n]) ?p (db_shards db ! ?j)"
    using db_sweeps_shards [of maxBuckets ?j db clks n] assms(2) j by (simp add: shardFor_def)
  have "ht_inv (sh_table (shardFor ?db key))"
    by (rule shardFor_table(1) [OF db_sweeps_inv [OF assms(1)]])
  then have "e \<in> set (ht_abs (sh_table (shardFor ?db key)))"
    using assms(5) lru_find_SomeD by (simp add: db_lookup_def ht_find_lru)
  moreover have "ht_inv (sh_table (db_shards db ! ?j))"
    using db_shard_ok [OF assms(1) j] by (simp add: shard_ok_def)
  moreover have "length (ht_buckets (sh_table (db_shards db ! ?j))) \<le> n"
    using assms(3) j by simp
  ultimately show ?thesis
    unfolding sh using assms(4) by (intro sweep_iter_complete [where p = ?p]) auto
qed

text \<open>
  C17. Round trip: restoring a snapshot into any database, at or after the time it was taken,
  gives back exactly the entries that are still live, with their values and expirations,
  and reports their number.
\<close>

theorem db_snapshot_restore:
  assumes "db_inv db" "db_inv target" "\<forall>j. clk j \<le> now"
  defines "res \<equiv> db_restore now (db_snapshot clk db) target"
  shows "db_inv (snd res) \<and> db_lookup (snd res) = db_live now db \<and>
    fst res = card {k. db_exists now k db}"
proof -
  let ?es = "filter (\<lambda>e. \<not> isExpiredAt now e) (db_snapshot clk db)"
  have d: "distinct (map e_key ?es)"
    using db_keys_distinct [OF assms(1), of clk] unfolding db_keys_snapshot by (rule distinct_map_filter)
  have mem: "e \<in> set ?es \<longleftrightarrow> db_live now db (e_key e) = Some e" for e
    using db_snapshot_set [OF assms(1), of e clk] assms(3) isExpiredAt_mono
    by (auto simp: db_live_Some)
  have look: "restored now (db_snapshot clk db) k = db_live now db k" for k
  proof (rule option.expand [OF _ ]; cases "db_live now db k")
    case (Some e)
    then have "e_key e = k" using db_lookup_key [OF assms(1)] by (simp add: db_live_Some)
    with Some mem have "e \<in> set ?es" by simp
    with d \<open>e_key e = k\<close> have "lru_find k (rev ?es) = Some e"
      by (simp add: lru_find_iff rev_map [symmetric])
    with Some show "(restored now (db_snapshot clk db) k = None) = (db_live now db k = None)"
      "the (restored now (db_snapshot clk db) k) = the (db_live now db k)"
      by (simp_all add: restored_def)
  next
    case None
    then have "k \<notin> e_key ` set (rev ?es)" using mem by auto
    then show "(restored now (db_snapshot clk db) k = None) = (db_live now db k = None)"
      "the (restored now (db_snapshot clk db) k) = the (db_live now db k)"
      using None lru_find_None [of k "rev ?es"] by (simp_all add: restored_def)
  qed
  have "length ?es = card (set (map e_key ?es))" using distinct_card [OF d] by simp
  moreover have "set (map e_key ?es) = {k. db_exists now k db}"
    using mem db_lookup_key [OF assms(1)] by (auto simp: db_exists_correct db_live_Some)
  ultimately show ?thesis
    using db_restore_correct [OF assms(2), of now "db_snapshot clk db"] look
    by (auto simp: res_def)
qed

theorem db_snapshot_restore_witness:
  "db_lookup (snd (db_restore 9 (db_snapshot (\<lambda>_. 9) (snd (db_set ''k'' ''v'' db0))) db0)) ''k'' =
   Some (Entry ''k'' ''v'')"
  using db_snapshot_restore [OF db_set_inv [OF db0_inv] db0_inv, where clk = "\<lambda>_. 9" and now = 9]
    db_set_plain [OF db0_inv db0_limit, of "''k''" "''v''"]
  by (simp add: db_live_def)

text \<open>
  \<open>restore\<close> replaces the whole content by the last unexpired entry of each key in the
  list, drops the expired ones, and counts the entries it stored, duplicates included.
\<close>

theorem db_restore_replaces:
  assumes "db_inv db"
  shows "db_inv (snd (db_restore now es db)) \<and>
    db_lookup (snd (db_restore now es db)) key =
      last_opt (filter (\<lambda>e. e_key e = key \<and> \<not> isExpiredAt now e) es) \<and>
    fst (db_restore now es db) = length (filter (\<lambda>e. \<not> isExpiredAt now e) es)"
proof -
  have "lru_find key (rev xs) = last_opt (filter (\<lambda>e. e_key e = key) xs)" for xs
    by (induction xs rule: rev_induct) (auto simp: lru_find_Cons)
  then show ?thesis
    using db_restore_correct [OF assms, of now es] by (simp add: restored_def conj_commute)
qed

theorem db_restore_replaces_witness:
  "db_lookup (snd (db_restore 9 [Entry ''k'' ''1'', Entry ''k'' ''2''] db0)) ''k'' = Some (Entry ''k'' ''2'')"
  using db_restore_replaces [OF db0_inv, of 9 "[Entry ''k'' ''1'', Entry ''k'' ''2'']" "''k''"] by simp


text \<open>
  C23. Setting a limit applies at once: every shard ends within its slice or with at most one
  entry, so the total is within the limit unless some shard with at most one entry is above
  its slice; keys are kept with their entries or evicted, and removing the limit evicts
  nothing.
\<close>

theorem db_setMaxMemory_bounds:
  assumes "db_inv db" "length (db_shards db) \<le> bytes"
  defines "db' \<equiv> db_setMaxMemory bytes db"
  shows "db_inv db' \<and>
    (\<forall>k. db_lookup db' k \<in> {db_lookup db k, None}) \<and>
    (db_memoryUsage db' \<le> bytes \<or>
      (\<exists>s\<in>set (db_shards db'). db_slice db' < ht_memoryUsage (sh_table s) \<and> ht_size (sh_table s) \<le> 1)) \<and>
    db_lookup (db_setMaxMemory 0 db) = db_lookup db"
proof -
  have pos: "0 < length (db_shards db)" by (rule db_shards_pos [OF assms(1)])
  then have bytes: "bytes \<noteq> 0" using assms(2) by linarith
  note c = db_setMaxMemory_correct [OF assms(1), of bytes, folded db'_def]
  have len: "length (db_shards db') = length (db_shards db)"
    unfolding db'_def by (subst db_setMaxMemory_shards(1)) simp
  have "0 < bytes div length (db_shards db)" using assms(2) pos by (simp only: div_greater_zero_iff)
  then have slice: "db_slice db' = bytes div length (db_shards db)"
    using bytes len db_setMaxMemory_shards(2) [of bytes db, folded db'_def]
    by (simp add: db_slice_def max_def)
  have "db_memoryUsage db' \<le> bytes"
    if all: "\<forall>s\<in>set (db_shards db'). ht_memoryUsage (sh_table s) \<le> db_slice db'"
  proof -
    have "db_memoryUsage db' \<le> sum_list (map (\<lambda>s. db_slice db') (db_shards db'))"
      unfolding db_memoryUsage_def foldl_plus_conv using all by (auto intro: sum_list_mono)
    also have "\<dots> = length (db_shards db) * (bytes div length (db_shards db))"
      by (simp add: sum_list_triv len slice)
    also have "\<dots> \<le> bytes" by simp
    finally show ?thesis .
  qed
  moreover have "ht_size (sh_table s) \<le> 1"
    if "s \<in> set (db_shards db')" "db_slice db' < ht_memoryUsage (sh_table s)" for s
    using c(4) [OF bytes that(1)] that c(1)
    by (auto simp: in_set_conv_nth db_inv_def shard_ok_def ht_size_correct)
  ultimately show ?thesis
    using c(1,2) db_setMaxMemory_correct(3) [OF assms(1), of 0] by (meson not_le)
qed

theorem db_setMaxMemory_bounds_witness:
  "db_inv (db_setMaxMemory 1000 db0) \<and> db_lookup (db_setMaxMemory 1000 db0) ''k'' = None"
proof -
  have "length (db_shards db0) \<le> 1000" unfolding db0_def by code_simp
  from db_setMaxMemory_bounds [OF db0_inv this] show ?thesis by (simp add: db0_lookup)
qed

text \<open>
  C20. Every sequence of operations on a constructed database keeps the invariant: each shard's
  table is well formed, each key is in the shard its hash selects, and each shard's slice is
  the one the current limit gives.
\<close>

theorem db_ops_keep_invariant:
  assumes "Database b n = Some db" "n \<le> 2 ^ 63"
  shows "db_inv (fold db_apply ops db)"
  using Database_inv(1) [OF assms] by (rule db_run_inv)

theorem db_ops_keep_invariant_witness:
  "db_inv (fold db_apply [Db_set ''a'' ''1'', Db_setMaxMemory 1000, Db_set_ttl 3 ''b'' ''2'' 10,
     Db_get 4 ''a'', Db_removeExpired (\<lambda>_. 99) 16, Db_del 5 ''a'', Db_clear] db0)"
  by (rule db_ops_keep_invariant [OF db0_Database]) simp

end
