(* ===== verification/VC_Text.thy ===== *)
theory VC_Text
  imports VC_Prelude
begin

text \<open>
  Text as the sources handle it: byte comparisons, decimal printing
  (\<open>std::to_string\<close>) and the strict integer reading of \<open>std::from_chars\<close>. Shared by
  the protocol, the parser, the snapshot format and the command-line front ends.
\<close>

section \<open>Bytes\<close>

definition byte :: "char \<Rightarrow> nat" where
  "byte c = of_char c"

definition in_range :: "char \<Rightarrow> char \<Rightarrow> char \<Rightarrow> bool" where
  "in_range lo hi c \<longleftrightarrow> byte lo \<le> byte c \<and> byte c \<le> byte hi"

definition is_digit :: "char \<Rightarrow> bool" where
  "is_digit c \<longleftrightarrow> in_range CHR ''0'' CHR ''9'' c"

definition digit_val :: "char \<Rightarrow> nat" where
  "digit_val c = byte c - byte CHR ''0''"

lemma byte_less [simp]: "byte c < 256"
  by (simp add: byte_def)

lemma byte_char_of [simp]: "n < 256 \<Longrightarrow> byte (char_of n) = n"
  by (simp add: byte_def)

lemma char_of_byte [simp]: "char_of (byte c) = c"
  by (simp add: byte_def)

lemma byte_inj [simp]: "byte c = byte d \<longleftrightarrow> c = d"
  by (metis char_of_byte)

lemma byte_digits [simp]: "byte CHR ''0'' = 48" "byte CHR ''9'' = 57"
  by (simp_all add: byte_def)

lemma is_digit_iff: "is_digit c \<longleftrightarrow> 48 \<le> byte c \<and> byte c \<le> 57"
  by (simp add: is_digit_def in_range_def)

section \<open>Decimal numbers\<close>

text \<open>\<open>std::to_string\<close> of an unsigned and of a signed integer.\<close>

fun to_string :: "nat \<Rightarrow> string" where
  "to_string n = (if n < 10 then [char_of (48 + n)] else to_string (n div 10) @ [char_of (48 + n mod 10)])"

declare to_string.simps [simp del]

definition to_string_int :: "int \<Rightarrow> string" where
  "to_string_int n = (if n < 0 then CHR ''-'' # to_string (nat (- n)) else to_string (nat n))"

definition digits_val :: "string \<Rightarrow> nat" where
  "digits_val ds = foldl (\<lambda>acc c. acc * 10 + digit_val c) 0 ds"

lemma digits_val_simps [simp]: "digits_val [] = 0" "digits_val (ds @ [c]) = digits_val ds * 10 + digit_val c"
  by (simp_all add: digits_val_def)

lemma to_string_digits: "\<forall>c\<in>set (to_string n). is_digit c"
  by (induction n rule: to_string.induct) (subst to_string.simps, auto simp: is_digit_iff)

lemma to_string_nonempty [simp]: "to_string n \<noteq> []"
  by (subst to_string.simps) simp

lemma digits_val_to_string [simp]: "digits_val (to_string n) = n"
proof (induction n rule: to_string.induct)
  case (1 n)
  show ?case
  proof (cases "n < 10")
    case True
    then show ?thesis using digits_val_simps(2) [of "[]" "char_of (48 + n)"]
      by (subst to_string.simps) (simp add: digit_val_def)
  next
    case False
    with 1 show ?thesis by (subst to_string.simps) (simp add: digit_val_def)
  qed
qed

lemma to_string_inj: "to_string m = to_string n \<Longrightarrow> m = n"
  by (metis digits_val_to_string)

lemma takeWhile_to_string: "takeWhile is_digit (to_string n) = to_string n"
  using to_string_digits takeWhile_eq_all_conv by blast

text \<open>
  \<open>std::from_chars\<close> for \<open>std::int64_t\<close> in base ten: an optional minus sign and the longest
  run of digits after it. The error code is \<open>invalid_argument\<close> when there is no digit and
  \<open>result_out_of_range\<close> when the value does not fit; the end pointer is returned as the
  number of characters consumed.
\<close>

datatype errc = Errc_none | Errc_invalid_argument | Errc_result_out_of_range

definition from_chars :: "string \<Rightarrow> errc \<times> nat \<times> int" where
  "from_chars text =
     (let neg = (text \<noteq> [] \<and> hd text = CHR ''-'');
          ds = takeWhile is_digit (if neg then tl text else text);
          v = (if neg then - int (digits_val ds) else int (digits_val ds))
      in if ds = [] then (Errc_invalid_argument, 0, 0)
         else (if - (2 ^ 63) \<le> v \<and> v < 2 ^ 63 then Errc_none else Errc_result_out_of_range,
               length ds + (if neg then 1 else 0), v))"

end
