(* ===== verification/VC_CommandParser.thy ===== *)
theory VC_CommandParser
  imports VC_Text
begin

text \<open>
  The request parser of include/CommandParser.h and src/CommandParser.cpp, and the escaping
  of values on the wire from src/CommandExecutor.cpp, which is its inverse. A line is a
  byte list; the index \<open>i\<close> of the source is the part of the line still to be read, and
  \<open>token.push_back\<close> appends to the token. A \<open>ParseResult\<close> is an error text on the left or
  a command on the right.
\<close>

section \<open>Commands\<close>

datatype CommandType = Cmd_Empty | Cmd_Set | Cmd_Get | Cmd_Del | Cmd_Exists | Cmd_Keys | Cmd_Save

record Command =
  cmd_type :: CommandType
  cmd_key :: string
  cmd_value :: string
  cmd_expireSeconds :: "int option"

definition default_Command :: Command where
  "default_Command = \<lparr>cmd_type = Cmd_Empty, cmd_key = '''', cmd_value = '''', cmd_expireSeconds = None\<rparr>"

type_synonym ParseResult = "string + Command"

definition success :: "Command \<Rightarrow> ParseResult" where
  "success command = Inr command"

definition failure :: "string \<Rightarrow> ParseResult" where
  "failure err = Inl err"

definition kMaxEchoedVerbLength :: nat where
  "kMaxEchoedVerbLength = 32"

definition kMaxExpireSeconds :: int where
  "kMaxExpireSeconds = 100 * 365 * 24 * 60 * 60"

record CommandSpec =
  spec_name :: string
  spec_type :: CommandType
  spec_minArgs :: nat
  spec_maxArgs :: nat

definition kCommands :: "CommandSpec list" where
  "kCommands =
     [\<lparr>spec_name = ''SET'', spec_type = Cmd_Set, spec_minArgs = 2, spec_maxArgs = 4\<rparr>,
      \<lparr>spec_name = ''GET'', spec_type = Cmd_Get, spec_minArgs = 1, spec_maxArgs = 1\<rparr>,
      \<lparr>spec_name = ''DEL'', spec_type = Cmd_Del, spec_minArgs = 1, spec_maxArgs = 1\<rparr>,
      \<lparr>spec_name = ''EXISTS'', spec_type = Cmd_Exists, spec_minArgs = 1, spec_maxArgs = 1\<rparr>,
      \<lparr>spec_name = ''KEYS'', spec_type = Cmd_Keys, spec_minArgs = 0, spec_maxArgs = 0\<rparr>,
      \<lparr>spec_name = ''SAVE'', spec_type = Cmd_Save, spec_minArgs = 0, spec_maxArgs = 0\<rparr>]"

fun command_name :: "CommandType \<Rightarrow> string" where
  "command_name Cmd_Set = ''SET''"
| "command_name Cmd_Get = ''GET''"
| "command_name Cmd_Del = ''DEL''"
| "command_name Cmd_Exists = ''EXISTS''"
| "command_name Cmd_Keys = ''KEYS''"
| "command_name Cmd_Save = ''SAVE''"
| "command_name Cmd_Empty = ''''"

section \<open>Characters\<close>

abbreviation quote_char :: char where "quote_char \<equiv> CHR 0x22"
abbreviation backslash :: char where "backslash \<equiv> CHR 0x5C"
abbreviation LF :: char where "LF \<equiv> CHR 0x0A"
abbreviation CR :: char where "CR \<equiv> CHR 0x0D"
abbreviation TAB :: char where "TAB \<equiv> CHR 0x09"

definition isSpace :: "char \<Rightarrow> bool" where
  "isSpace c \<longleftrightarrow> c = CHR '' '' \<or> c = TAB"

definition isHexDigit :: "char \<Rightarrow> bool" where
  "isHexDigit c \<longleftrightarrow> in_range CHR ''0'' CHR ''9'' c \<or> in_range CHR ''a'' CHR ''f'' c \<or>
     in_range CHR ''A'' CHR ''F'' c"

definition hexValue :: "char \<Rightarrow> nat" where
  "hexValue c =
     (if in_range CHR ''0'' CHR ''9'' c then byte c - byte CHR ''0''
      else if in_range CHR ''a'' CHR ''f'' c then byte c - byte CHR ''a'' + 10
      else byte c - byte CHR ''A'' + 10)"

definition upper_char :: "char \<Rightarrow> char" where
  "upper_char c =
     (if in_range CHR ''a'' CHR ''z'' c then char_of (byte c - byte CHR ''a'' + byte CHR ''A'') else c)"

definition toUpperAscii :: "string \<Rightarrow> string" where
  "toUpperAscii text = map upper_char text"

definition findCommand :: "string \<Rightarrow> CommandSpec option" where
  "findCommand verbUpper = List.find (\<lambda>spec. verbUpper = spec_name spec) kCommands"

definition parseInt64 :: "string \<Rightarrow> int option" where
  "parseInt64 text =
     (if text = [] then None
      else case from_chars text of (ec, consumed, v) \<Rightarrow>
        if ec = Errc_none \<and> consumed = length text then Some v else None)"

definition echo_char :: "char \<Rightarrow> char" where
  "echo_char c = (if byte c \<ge> 0x20 \<and> byte c < 0x7f then c else CHR ''?'')"

definition sanitizeForEcho :: "string \<Rightarrow> string" where
  "sanitizeForEcho verb =
     (let limit = min (length verb) kMaxEchoedVerbLength
      in map echo_char (take limit verb) @ (if length verb > limit then ''...'' else ''''))"

section \<open>Tokens\<close>

definition strip_eol :: "string \<Rightarrow> string" where
  "strip_eol line = rev (dropWhile (\<lambda>c. c = LF \<or> c = CR) (rev line))"

text \<open>
  The escape after a backslash: the byte it stands for and what follows it. \<open>\xHH\<close> is one
  raw byte; any other character stands for itself.
\<close>

definition take_escape :: "char \<Rightarrow> string \<Rightarrow> char \<times> string" where
  "take_escape escaped rest =
     (if escaped = CHR ''n'' then (LF, rest)
      else if escaped = CHR ''r'' then (CR, rest)
      else if escaped = CHR ''t'' then (TAB, rest)
      else if escaped = CHR ''b'' then (CHR 0x08, rest)
      else if escaped = CHR ''a'' then (CHR 0x07, rest)
      else if escaped = CHR ''x'' then
        if 2 \<le> length rest \<and> isHexDigit (rest ! 0) \<and> isHexDigit (rest ! 1)
        then (char_of (hexValue (rest ! 0) * 16 + hexValue (rest ! 1)), drop 2 rest)
        else (CHR ''x'', rest)
      else (escaped, rest))"

lemma take_escape_length: "length (snd (take_escape e rest)) \<le> length rest"
  by (simp add: take_escape_def)

text \<open>
  The inner loop for a quoted token, after the opening quote: the token and what follows
  its closing quote, or nothing when the line ends first.
\<close>

function scan_quoted :: "string \<Rightarrow> string \<Rightarrow> (string \<times> string) option" where
  "scan_quoted token [] = None"
| "scan_quoted token (c # rest) =
     (if c = backslash \<and> rest \<noteq> [] then
        scan_quoted (token @ [fst (take_escape (hd rest) (tl rest))]) (snd (take_escape (hd rest) (tl rest)))
      else if c = quote_char then Some (token, rest)
      else scan_quoted (token @ [c]) rest)"
  by pat_completeness auto
termination
  by (relation "measure (\<lambda>(token, line). length line)")
    (auto simp: neq_Nil_conv intro: le_less_trans [OF take_escape_length])

lemma scan_quoted_length: "scan_quoted token s = Some (t, rest) \<Longrightarrow> length rest < length s"
proof (induction token s rule: scan_quoted.induct)
  case (2 token c rs)
  show ?case
  proof (cases "c = backslash \<and> rs \<noteq> []")
    case True
    then obtain e rs' where rs: "rs = e # rs'" by (cases rs) auto
    with True 2 have "length rest < length (snd (take_escape e rs'))" by auto
    with take_escape_length [of e rs'] rs show ?thesis by simp
  next
    case False
    then have "c = quote_char \<and> rest = rs \<or> scan_quoted (token @ [c]) rs = Some (t, rest)"
      using "2.prems" by (auto split: if_splits)
    then show ?thesis using "2.IH"(2) [OF False] "2.prems" by (auto split: if_splits)
  qed
qed simp

definition unbalanced :: string where
  "unbalanced = ''ERR unbalanced quotes in request''"

function tokenize_loop :: "string list \<Rightarrow> string \<Rightarrow> string + string list" where
  "tokenize_loop tokens line =
     (case dropWhile isSpace line of
        [] \<Rightarrow> Inr tokens
      | c # rest \<Rightarrow>
          if c = quote_char then
            (case scan_quoted '''' rest of
               None \<Rightarrow> Inl unbalanced
             | Some (token, rest') \<Rightarrow>
                 if rest' \<noteq> [] \<and> \<not> isSpace (hd rest') then Inl unbalanced
                 else tokenize_loop (tokens @ [token]) rest')
          else tokenize_loop (tokens @ [takeWhile (\<lambda>c. \<not> isSpace c) (c # rest)])
                 (dropWhile (\<lambda>c. \<not> isSpace c) (c # rest)))"
  by pat_completeness auto
termination
proof (relation "measure (\<lambda>(tokens, line). length line)")
  fix tokens line c rest
  assume d: "dropWhile isSpace line = c # rest"
  then have "length (c # rest) \<le> length line" by (metis length_dropWhile_le)
  moreover have "\<not> isSpace c" using d by (metis dropWhile_eq_Cons_conv)
  ultimately show "((tokens @ [takeWhile (\<lambda>c. \<not> isSpace c) (c # rest)],
      dropWhile (\<lambda>c. \<not> isSpace c) (c # rest)), tokens, line) \<in> measure (\<lambda>(tokens, line). length line)"
    using length_dropWhile_le [of "\<lambda>c. \<not> isSpace c" rest] by simp
next
  fix tokens line c rest x token rest'
  assume "dropWhile isSpace line = c # rest" "scan_quoted '''' rest = Some x" "(token, rest') = x"
  then show "((tokens @ [token], rest'), tokens, line) \<in> measure (\<lambda>(tokens, line). length line)"
    using length_dropWhile_le [of isSpace line] scan_quoted_length [of "''''" rest token rest'] by simp
qed simp

declare tokenize_loop.simps [simp del]

definition tokenize :: "string \<Rightarrow> string + string list" where
  "tokenize line = tokenize_loop [] (strip_eol line)"

section \<open>Parsing\<close>

text \<open>The error texts of \<open>parse\<close>.\<close>

definition err_syntax :: string where
  "err_syntax = ''ERR syntax error''"

definition err_integer :: string where
  "err_integer = ''ERR value is not an integer or out of range''"

definition err_expire :: string where
  "err_expire = ''ERR invalid expire time in 'SET' command''"

definition err_unknown :: "string \<Rightarrow> string" where
  "err_unknown verb = ''ERR unknown command '' @ [CHR 0x27] @ sanitizeForEcho verb @ [CHR 0x27]"

definition err_arity :: "string \<Rightarrow> string" where
  "err_arity name = ''ERR wrong number of arguments for '' @ [CHR 0x27] @ name @ [CHR 0x27] @ '' command''"

definition parse_expire :: "Command \<Rightarrow> string list \<Rightarrow> nat \<Rightarrow> ParseResult" where
  "parse_expire command tokens argumentCount =
     (if argumentCount \<noteq> 4 \<or> toUpperAscii (tokens ! 3) \<noteq> ''EX'' then failure err_syntax
      else case parseInt64 (tokens ! 4) of
        None \<Rightarrow> failure err_integer
      | Some secs \<Rightarrow>
          if secs \<le> 0 \<or> secs > kMaxExpireSeconds
          then failure err_expire
          else success (command\<lparr>cmd_expireSeconds := Some secs\<rparr>))"

definition parse :: "string \<Rightarrow> ParseResult" where
  "parse line =
     (case tokenize line of
        Inl err \<Rightarrow> failure err
      | Inr tokens \<Rightarrow>
          if tokens = [] then success default_Command
          else case findCommand (toUpperAscii (tokens ! 0)) of
            None \<Rightarrow> failure (err_unknown (tokens ! 0))
          | Some spec \<Rightarrow>
              let argumentCount = length tokens - 1 in
              if argumentCount < spec_minArgs spec \<or> argumentCount > spec_maxArgs spec
              then failure (err_arity (spec_name spec))
              else let command = default_Command\<lparr>cmd_type := spec_type spec,
                                    cmd_key := (if argumentCount \<ge> 1 then tokens ! 1 else ''''),
                                    cmd_value := (if argumentCount \<ge> 2 then tokens ! 2 else '''')\<rparr> in
                if cmd_type command = Cmd_Set \<and> argumentCount > 2
                then parse_expire command tokens argumentCount
                else success command)"

section \<open>Escaping\<close>

definition hex_digit :: "nat \<Rightarrow> char" where
  "hex_digit n = ''0123456789abcdef'' ! n"

definition appendHexByte :: "char \<Rightarrow> string" where
  "appendHexByte c = [backslash, CHR ''x'', hex_digit (byte c div 16), hex_digit (byte c mod 16)]"

definition escape_char :: "char \<Rightarrow> string" where
  "escape_char c =
     (if c = backslash then [backslash, backslash]
      else if c = LF then [backslash, CHR ''n'']
      else if c = CR then [backslash, CHR ''r'']
      else if c = TAB then [backslash, CHR ''t'']
      else if c = quote_char then [backslash, quote_char]
      else if byte c < 0x20 \<or> byte c \<ge> 0x7f then appendHexByte c
      else [c])"

definition escapeForWire :: "string \<Rightarrow> string" where
  "escapeForWire raw = concat (map escape_char raw)"

end
