(* ===== verification/VC_CommandParser_Props.thy ===== *)
theory VC_CommandParser_Props
  imports VC_CommandParser
begin

text \<open>
  Correctness of the request parser: reading what the escaping printed, the shape of what
  it accepts, the shape of its errors, and its integers.
\<close>

section \<open>Escapes\<close>

lemma hex_digit_correct:
  assumes "n < 16"
  shows "isHexDigit (hex_digit n)" "hexValue (hex_digit n) = n"
proof -
  have "list_all (\<lambda>n. isHexDigit (hex_digit n) \<and> hexValue (hex_digit n) = n) [0..<16]"
    by code_simp
  with assms show "isHexDigit (hex_digit n)" "hexValue (hex_digit n) = n"
    by (auto simp: list_all_iff)
qed

lemma hex_digit_printable:
  assumes "n < 16"
  shows "0x20 \<le> byte (hex_digit n) \<and> byte (hex_digit n) < 0x7f"
proof -
  have "list_all (\<lambda>n. 0x20 \<le> byte (hex_digit n) \<and> byte (hex_digit n) < 0x7f) [0..<16]"
    by code_simp
  with assms show ?thesis by (auto simp: list_all_iff)
qed

lemma take_escape_hex:
  "a < 16 \<Longrightarrow> b < 16 \<Longrightarrow>
   take_escape CHR ''x'' (hex_digit a # hex_digit b # rest) = (char_of (a * 16 + b), rest)"
  by (simp add: take_escape_def hex_digit_correct)

lemma take_escape_self: "e = backslash \<or> e = quote_char \<Longrightarrow> take_escape e rest = (e, rest)"
  by (auto simp: take_escape_def)

lemma take_escape_controls:
  "take_escape CHR ''n'' rest = (LF, rest)" "take_escape CHR ''r'' rest = (CR, rest)"
  "take_escape CHR ''t'' rest = (TAB, rest)"
  by (simp_all add: take_escape_def)

lemma scan_escape_char: "scan_quoted token (escape_char c @ rest) = scan_quoted (token @ [c]) rest"
proof -
  have "byte c div 16 < 16" "byte c mod 16 < 16" "byte c div 16 * 16 + byte c mod 16 = byte c"
    using less_mult_imp_div_less [of "byte c" 16 16] by simp_all
  then have "take_escape CHR ''x'' (hex_digit (byte c div 16) # hex_digit (byte c mod 16) # rest) = (c, rest)"
    by (simp add: take_escape_hex)
  then show ?thesis
    by (simp add: escape_char_def appendHexByte_def take_escape_self take_escape_controls)
qed

lemma scan_escaped:
  "scan_quoted token (escapeForWire s @ quote_char # rest) = Some (token @ s, rest)"
proof (induction s arbitrary: token)
  case Nil
  then show ?case by (simp add: escapeForWire_def)
next
  case (Cons c s)
  then show ?case
    using scan_escape_char [of token c "escapeForWire s @ quote_char # rest"]
    by (simp add: escapeForWire_def)
qed

section \<open>Tokens\<close>

definition quoted :: "string \<Rightarrow> string" where
  "quoted s = [quote_char] @ escapeForWire s @ [quote_char]"

definition ends_token :: "string \<Rightarrow> bool" where
  "ends_token rest \<longleftrightarrow> rest = [] \<or> isSpace (hd rest)"

definition bare :: "string \<Rightarrow> bool" where
  "bare w \<longleftrightarrow> w \<noteq> [] \<and> hd w \<noteq> quote_char \<and> list_all (\<lambda>c. \<not> isSpace c) w"

lemma ends_token_simps [simp]: "ends_token []" "ends_token (CHR '' '' # rest)"
  by (simp_all add: ends_token_def isSpace_def)

lemma isSpace_simps [simp]: "isSpace CHR '' ''" "\<not> isSpace quote_char"
  by (simp_all add: isSpace_def)

lemma tokenize_space: "isSpace c \<Longrightarrow> tokenize_loop tokens (c # rest) = tokenize_loop tokens rest"
  by (subst (1 2) tokenize_loop.simps) simp

lemma tokenize_end [simp]: "tokenize_loop tokens [] = Inr tokens"
  by (subst tokenize_loop.simps) simp

lemma tokenize_quoted:
  "ends_token rest \<Longrightarrow> tokenize_loop tokens (quoted s @ rest) = tokenize_loop (tokens @ [s]) rest"
  by (subst tokenize_loop.simps) (auto simp: quoted_def ends_token_def scan_escaped)

lemma tokenize_bare:
  assumes "bare w" "ends_token rest"
  shows "tokenize_loop tokens (w @ rest) = tokenize_loop (tokens @ [w]) rest"
proof -
  obtain c w' where w: "w = c # w'" "c \<noteq> quote_char" "\<not> isSpace c"
    using assms(1) by (cases w) (auto simp: bare_def)
  have "takeWhile (\<lambda>c. \<not> isSpace c) (w @ rest) = w \<and> dropWhile (\<lambda>c. \<not> isSpace c) (w @ rest) = rest"
    using assms by (cases rest) (auto simp: bare_def ends_token_def list_all_iff)
  then show ?thesis using w by (subst tokenize_loop.simps) simp
qed

lemma to_string_bare: "bare (to_string n)"
proof -
  have "\<not> isSpace c \<and> c \<noteq> quote_char" if "is_digit c" for c
    using that by (auto simp: is_digit_iff isSpace_def byte_def)
  then show ?thesis using to_string_digits [of n] by (cases "to_string n") (auto simp: bare_def list_all_iff)
qed

lemma strip_eol_id: "line \<noteq> [] \<Longrightarrow> last line \<noteq> LF \<Longrightarrow> last line \<noteq> CR \<Longrightarrow> strip_eol line = line"
  by (cases line rule: rev_cases) (auto simp: strip_eol_def)

lemma strip_eol_snoc: "c = LF \<or> c = CR \<Longrightarrow> strip_eol (line @ [c]) = strip_eol line"
  by (auto simp: strip_eol_def)

section \<open>Integers and errors\<close>

text \<open>The texts \<open>parseInt64\<close> accepts: an optional minus sign and digits, in range.\<close>

definition int_text :: "string \<Rightarrow> int option" where
  "int_text s =
     (let neg = (s \<noteq> [] \<and> hd s = CHR ''-''); ds = (if neg then tl s else s);
          v = (if neg then - int (digits_val ds) else int (digits_val ds))
      in if ds \<noteq> [] \<and> list_all is_digit ds \<and> - (2 ^ 63) \<le> v \<and> v < 2 ^ 63 then Some v else None)"

lemma takeWhile_all_length: "length (takeWhile P xs) = length xs \<longleftrightarrow> list_all P xs"
  by (induction xs) auto

lemma takeWhile_all: "list_all P xs \<Longrightarrow> takeWhile P xs = xs"
  by (induction xs) auto

lemma parseInt64_int_text: "parseInt64 s = int_text s"
proof -
  have tw: "takeWhile is_digit ds = ds" if "list_all is_digit ds" for ds
    using that by (rule takeWhile_all)
  have no: "length (takeWhile is_digit ds) \<noteq> length ds" if "\<not> list_all is_digit ds" for ds
    using that by (simp add: takeWhile_all_length)
  consider "s = []" | ds where "s = CHR ''-'' # ds" | "s \<noteq> []" "hd s \<noteq> CHR ''-''"
    by (cases s) auto
  then show ?thesis
  proof cases
    case (2 ds)
    then show ?thesis
      by (cases "list_all is_digit ds")
        (simp_all add: parseInt64_def from_chars_def int_text_def Let_def tw no)
  next
    case 3
    then show ?thesis
      by (cases "list_all is_digit s")
        (simp_all add: parseInt64_def from_chars_def int_text_def Let_def tw no)
  qed (simp add: parseInt64_def int_text_def)
qed

lemma digit_not_minus: "is_digit c \<Longrightarrow> c \<noteq> CHR ''-''"
  by (auto simp: is_digit_iff byte_def)

lemma int_text_to_string:
  assumes "n < 2 ^ 63"
  shows "int_text (to_string n) = Some (int n)"
proof -
  have "hd (to_string n) \<noteq> CHR ''-''"
    using to_string_digits [of n] digit_not_minus by (cases "to_string n") auto
  moreover have "int n < 2 ^ 63" using assms by (metis of_nat_less_iff of_nat_numeral of_nat_power)
  ultimately show ?thesis
    using to_string_digits [of n] by (simp add: int_text_def list_all_iff Let_def)
qed

definition printable :: "string \<Rightarrow> bool" where
  "printable s \<longleftrightarrow> list_all (\<lambda>c. 0x20 \<le> byte c \<and> byte c < 0x7f) s"

lemma printable_append [simp]: "printable (s @ t) \<longleftrightarrow> printable s \<and> printable t"
  by (simp add: printable_def)

lemma printable_no_LF: "printable s \<Longrightarrow> LF \<notin> set s"
proof -
  have "\<not> 0x20 \<le> byte LF" by (simp add: byte_def)
  then show "printable s \<Longrightarrow> LF \<notin> set s" unfolding printable_def list_all_iff by blast
qed

lemma sanitize_printable: "printable (sanitizeForEcho v)"
proof -
  have "0x20 \<le> byte (echo_char c) \<and> byte (echo_char c) < 0x7f" for c
    by (simp add: echo_char_def byte_def)
  then show ?thesis
    by (auto simp: printable_def sanitizeForEcho_def list_all_iff Let_def byte_def)
qed

lemma sanitize_length: "length (sanitizeForEcho v) \<le> 35"
  by (auto simp: sanitizeForEcho_def kMaxEchoedVerbLength_def Let_def min_def)

lemma escape_char_printable: "printable (escape_char c)"
proof -
  have "byte c div 16 < 16" "byte c mod 16 < 16"
    using less_mult_imp_div_less [of "byte c" 16 16] by simp_all
  then have "printable (appendHexByte c)"
    using hex_digit_printable [of "byte c div 16"] hex_digit_printable [of "byte c mod 16"]
    by (simp add: appendHexByte_def printable_def) (simp add: byte_def)
  moreover have "printable [backslash, backslash]" "printable [backslash, CHR ''n'']"
    "printable [backslash, CHR ''r'']" "printable [backslash, CHR ''t'']" "printable [backslash, quote_char]"
    by (simp_all add: printable_def byte_def)
  moreover have "printable [c]" if "\<not> (byte c < 0x20 \<or> byte c \<ge> 0x7f)"
    using that by (simp add: printable_def)
  ultimately show ?thesis unfolding escape_char_def by presburger
qed

lemma escape_printable: "printable (escapeForWire s)"
  using escape_char_printable by (induction s) (simp_all add: escapeForWire_def printable_def)

lemma escape_length: "length s \<le> length (escapeForWire s) \<and> length (escapeForWire s) \<le> 4 * length s"
  by (induction s) (auto simp: escapeForWire_def escape_char_def appendHexByte_def)

lemma tokenize_loop_error: "tokenize_loop tokens line = Inl err \<Longrightarrow> err = unbalanced"
  by (induction tokens line rule: tokenize_loop.induct)
    (subst (asm) (3) tokenize_loop.simps, auto split: list.splits if_splits option.splits prod.splits)

lemma findCommand_cases:
  assumes "findCommand v = Some spec"
  shows "spec \<in> set kCommands" "spec_name spec = v"
  using assms by (auto simp: findCommand_def find_Some_iff)

lemma kCommands_shape:
  assumes "spec \<in> set kCommands"
  shows "printable (spec_name spec) \<and> length (spec_name spec) \<le> 6 \<and> spec_type spec \<noteq> Cmd_Empty \<and>
    command_name (spec_type spec) = spec_name spec"
  using assms by (auto simp: kCommands_def printable_def byte_def)

section \<open>Requests\<close>

lemma tokenize_step:
  assumes "bare w"
  shows "tokenize_loop tokens (w @ CHR '' '' # rest) = tokenize_loop (tokens @ [w]) rest"
  using tokenize_bare [OF assms, of "CHR '' '' # rest" tokens] by (simp add: tokenize_space)

lemma tokenize_quoted_step:
  "tokenize_loop tokens (quoted s @ CHR '' '' # rest) = tokenize_loop (tokens @ [s]) rest"
  using tokenize_quoted [of "CHR '' '' # rest" tokens s] by (simp add: tokenize_space)

lemma verbs_bare: "bare ''SET''" "bare ''GET''" "bare ''DEL''" "bare ''EXISTS''" "bare ''EX''"
  by (simp_all add: bare_def isSpace_def)

lemma strip_eol_quoted: "strip_eol (xs @ quoted s) = xs @ quoted s"
  by (rule strip_eol_id) (simp_all add: quoted_def)

lemma strip_eol_to_string: "strip_eol (xs @ to_string n) = xs @ to_string n"
proof -
  have "is_digit (last (to_string n))" using to_string_digits [of n] last_in_set [OF to_string_nonempty] by blast
  then show ?thesis by (intro strip_eol_id) (auto simp: is_digit_iff byte_def)
qed

lemma tokenize_set:
  "tokenize (''SET'' @ CHR '' '' # quoted k @ CHR '' '' # quoted v) = Inr [''SET'', k, v]"
  using strip_eol_quoted [of "''SET'' @ CHR '' '' # quoted k @ [CHR '' '']" v]
    tokenize_step [OF verbs_bare(1), of "[]" "quoted k @ CHR '' '' # quoted v"]
    tokenize_quoted_step [of "[''SET'']" k "quoted v"] tokenize_quoted [of "[]" "[''SET'', k]" v]
  by (simp add: tokenize_def)

lemma tokenize_set_ex:
  "tokenize (''SET'' @ CHR '' '' # quoted k @ CHR '' '' # quoted v @ CHR '' '' # ''EX'' @ CHR '' '' # to_string n) =
     Inr [''SET'', k, v, ''EX'', to_string n]"
  using strip_eol_to_string [of "''SET'' @ CHR '' '' # quoted k @ CHR '' '' # quoted v @ CHR '' '' # ''EX'' @ [CHR '' '']" n]
    tokenize_step [OF verbs_bare(1), of "[]" "quoted k @ CHR '' '' # quoted v @ CHR '' '' # ''EX'' @ CHR '' '' # to_string n"]
    tokenize_quoted_step [of "[''SET'']" k "quoted v @ CHR '' '' # ''EX'' @ CHR '' '' # to_string n"]
    tokenize_quoted_step [of "[''SET'', k]" v "''EX'' @ CHR '' '' # to_string n"]
    tokenize_step [OF verbs_bare(5), of "[''SET'', k, v]" "to_string n"]
    tokenize_bare [OF to_string_bare, of "[]" "[''SET'', k, v, ''EX'']" n]
  by (simp add: tokenize_def)

lemma tokenize_key: "bare w \<Longrightarrow> tokenize (w @ CHR '' '' # quoted k) = Inr [w, k]"
  using strip_eol_quoted [of "w @ [CHR '' '']" k] tokenize_step [of w "[]" "quoted k"]
    tokenize_quoted [of "[]" "[w]" k]
  by (simp add: tokenize_def)

definition set_command :: "string \<Rightarrow> string \<Rightarrow> int option \<Rightarrow> Command" where
  "set_command k v x = \<lparr>cmd_type = Cmd_Set, cmd_key = k, cmd_value = v, cmd_expireSeconds = x\<rparr>"

definition key_command :: "CommandType \<Rightarrow> string \<Rightarrow> Command" where
  "key_command ty k = \<lparr>cmd_type = ty, cmd_key = k, cmd_value = '''', cmd_expireSeconds = None\<rparr>"

lemma upper_verbs:
  "toUpperAscii ''SET'' = ''SET''" "toUpperAscii ''GET'' = ''GET''" "toUpperAscii ''DEL'' = ''DEL''"
  "toUpperAscii ''EXISTS'' = ''EXISTS''" "toUpperAscii ''EX'' = ''EX''"
  by code_simp+

lemma find_verbs:
  "findCommand ''SET'' = Some \<lparr>spec_name = ''SET'', spec_type = Cmd_Set, spec_minArgs = 2, spec_maxArgs = 4\<rparr>"
  "findCommand ''GET'' = Some \<lparr>spec_name = ''GET'', spec_type = Cmd_Get, spec_minArgs = 1, spec_maxArgs = 1\<rparr>"
  "findCommand ''DEL'' = Some \<lparr>spec_name = ''DEL'', spec_type = Cmd_Del, spec_minArgs = 1, spec_maxArgs = 1\<rparr>"
  "findCommand ''EXISTS'' = Some \<lparr>spec_name = ''EXISTS'', spec_type = Cmd_Exists, spec_minArgs = 1, spec_maxArgs = 1\<rparr>"
  by (simp_all add: findCommand_def kCommands_def)

lemma parse_requests:
  "parse (''SET'' @ CHR '' '' # quoted k @ CHR '' '' # quoted v) = Inr (set_command k v None)"
  "parse (''GET'' @ CHR '' '' # quoted k) = Inr (key_command Cmd_Get k)"
  "parse (''DEL'' @ CHR '' '' # quoted k) = Inr (key_command Cmd_Del k)"
  "parse (''EXISTS'' @ CHR '' '' # quoted k) = Inr (key_command Cmd_Exists k)"
  unfolding parse_def tokenize_set tokenize_key [OF verbs_bare(2)] tokenize_key [OF verbs_bare(3)]
    tokenize_key [OF verbs_bare(4)]
  by (simp_all add: upper_verbs find_verbs success_def default_Command_def set_command_def key_command_def)

lemma parse_set_ex:
  assumes "0 < n" "int n \<le> kMaxExpireSeconds"
  shows "parse (''SET'' @ CHR '' '' # quoted k @ CHR '' '' # quoted v @ CHR '' '' # ''EX'' @ CHR '' '' # to_string n) =
    Inr (set_command k v (Some (int n)))"
proof -
  have "n < 2 ^ 63" using assms(2) by (simp add: kMaxExpireSeconds_def)
  then have "parseInt64 (to_string n) = Some (int n)" by (simp add: parseInt64_int_text int_text_to_string)
  with assms show ?thesis
    unfolding parse_def tokenize_set_ex
    by (simp add: upper_verbs find_verbs success_def default_Command_def set_command_def parse_expire_def)
qed

lemma parse_error_shape:
  assumes "parse line = Inl err"
  shows "printable err \<and> length err \<le> 60"
proof (cases "tokenize line")
  case (Inl e)
  then have "e = unbalanced" by (simp add: tokenize_def tokenize_loop_error)
  moreover have "printable unbalanced \<and> length unbalanced \<le> 60"
    by (simp add: unbalanced_def printable_def byte_def)
  ultimately show ?thesis using Inl assms by (simp add: parse_def failure_def)
next
  case (Inr tokens)
  consider "err = err_syntax" | "err = err_integer" | "err = err_expire"
    | "err = err_unknown (tokens ! 0)" | spec where "err = err_arity (spec_name spec)" "spec \<in> set kCommands"
    using assms Inr findCommand_cases(1) [of "toUpperAscii (tokens ! 0)"]
    by (auto simp: parse_def parse_expire_def failure_def success_def Let_def
        split: if_splits option.splits)
  then show ?thesis
  proof cases
    case 4
    then show ?thesis
      using sanitize_printable [of "tokens ! 0"] sanitize_length [of "tokens ! 0"]
      by (simp add: err_unknown_def printable_def) (simp add: byte_def)
  next
    case (5 spec)
    then show ?thesis
      using kCommands_shape [of spec] by (simp add: err_arity_def printable_def) (simp add: byte_def)
  qed (simp_all add: err_syntax_def err_integer_def err_expire_def printable_def byte_def)
qed

section \<open>Properties\<close>

text \<open>
  C31. Round trip between printing and parsing: for every byte string, quoting the escaped form
  of a key and a value and parsing the request gives the command with exactly those bytes,
  with and without an expiry.
\<close>

theorem parse_escaped_requests:
  assumes "0 < n" "int n \<le> kMaxExpireSeconds"
  shows "parse (''SET '' @ quoted k @ '' '' @ quoted v) = Inr (set_command k v None) \<and>
    parse (''SET '' @ quoted k @ '' '' @ quoted v @ '' EX '' @ to_string n) =
      Inr (set_command k v (Some (int n))) \<and>
    parse (''GET '' @ quoted k) = Inr (key_command Cmd_Get k) \<and>
    parse (''DEL '' @ quoted k) = Inr (key_command Cmd_Del k) \<and>
    parse (''EXISTS '' @ quoted k) = Inr (key_command Cmd_Exists k)"
  using parse_requests(1) [of k v] parse_requests(2-4) [of k] parse_set_ex [OF assms, of k v] by simp

theorem parse_escaped_requests_witness:
  "parse (''SET '' @ quoted [CHR 0x00, CHR 0x22, CHR 0xFF] @ '' '' @ quoted '''' @ '' EX '' @ to_string 60) =
    Inr (set_command [CHR 0x00, CHR 0x22, CHR 0xFF] '''' (Some 60))"
  using parse_escaped_requests [of 60] by (simp add: kMaxExpireSeconds_def)

text \<open>
  C32. What the parser accepts is well formed: an expiry only on SET, positive and at most a
  hundred years, so that adding it in nanoseconds to a clock below \<open>2 ^ 62\<close> cannot overflow
  64 bits; a value only on SET; and a blank line is the empty command.
\<close>

theorem parse_accepts_wellformed:
  assumes "parse line = Inr c"
  shows "(cmd_type c = Cmd_Empty \<longleftrightarrow> tokenize line = Inr []) \<and>
    (cmd_type c \<noteq> Cmd_Set \<longrightarrow> cmd_value c = '''' \<and> cmd_expireSeconds c = None) \<and>
    (cmd_type c \<in> {Cmd_Empty, Cmd_Keys, Cmd_Save} \<longrightarrow> cmd_key c = '''') \<and>
    (\<forall>n. cmd_expireSeconds c = Some n \<longrightarrow>
       0 < n \<and> n \<le> kMaxExpireSeconds \<and> n * 1000000000 < 2 ^ 62)"
proof -
  obtain tokens where t: "tokenize line = Inr tokens"
    using assms by (auto simp: parse_def failure_def split: sum.splits)
  show ?thesis
  proof (cases "tokens = []")
    case True
    with assms t show ?thesis by (auto simp: parse_def success_def default_Command_def)
  next
    case False
    with assms t obtain spec where spec: "findCommand (toUpperAscii (tokens ! 0)) = Some spec"
      by (auto simp: parse_def failure_def split: option.splits)
    have "n * 1000000000 < 2 ^ 62" if "n \<le> kMaxExpireSeconds" for n
      using that by (simp add: kMaxExpireSeconds_def)
    with assms t False spec findCommand_cases(1) [OF spec] show ?thesis
      by (auto simp: parse_def parse_expire_def failure_def success_def default_Command_def kCommands_def Let_def
          split: if_splits option.splits)
  qed
qed

theorem parse_accepts_wellformed_witness:
  "parse ''set k v ex 10'' = Inr (set_command ''k'' ''v'' (Some 10)) \<and> (10::int) \<le> kMaxExpireSeconds"
proof -
  have "parse ''set k v ex 10'' = Inr (set_command ''k'' ''v'' (Some 10))" by code_simp
  with parse_accepts_wellformed [OF this] show ?thesis by (simp add: set_command_def)
qed

text \<open>
  Error replies cannot be forged or amplified: every error text is printable ASCII, so in
  particular a single line, and at most 60 bytes long whatever the client sent.
\<close>

theorem parse_errors_bounded:
  assumes "parse line = Inl err"
  shows "printable err \<and> length err \<le> 60"
  using assms by (rule parse_error_shape)

theorem parse_errors_bounded_witness:
  "parse ''FLUSHALL now'' = Inl (err_unknown ''FLUSHALL'') \<and> printable (err_unknown ''FLUSHALL'')"
proof -
  have "parse ''FLUSHALL now'' = Inl (err_unknown ''FLUSHALL'')" by code_simp
  with parse_errors_bounded [OF this] show ?thesis by simp
qed

text \<open>
  \<open>parseInt64\<close> accepts exactly an optional minus sign followed by at least one digit and
  nothing else, with a value in the 64-bit range, and returns that value.
\<close>

theorem parseInt64_exact: "parseInt64 s = int_text s"
  by (rule parseInt64_int_text)

text \<open>
  Escaping makes any bytes a printable single line of at most four times the length, and
  loses nothing: different strings have different escaped forms.
\<close>

theorem escapeForWire_safe:
  "printable (escapeForWire s) \<and> LF \<notin> set (escapeForWire s) \<and>
   length (escapeForWire s) \<le> 4 * length s \<and> inj escapeForWire"
proof -
  have "s = t" if "escapeForWire s = escapeForWire t" for s t
  proof -
    have "Some ([] @ s, [] :: string) = Some ([] @ t, [])"
      by (rule trans [OF sym [OF scan_escaped [of "[]" s "[]", unfolded that]] scan_escaped [of "[]" t "[]"]])
    then show ?thesis by simp
  qed
  then have "inj escapeForWire" by (rule injI)
  moreover have "LF \<notin> set (escapeForWire s)" using printable_no_LF [OF escape_printable] .
  ultimately show ?thesis using escape_printable escape_length by blast
qed

text \<open>
  Line endings do not matter: a trailing CR, LF or CR LF, however often, is ignored.
\<close>

theorem parse_ignores_eol:
  assumes "set eol \<subseteq> {LF, CR}"
  shows "parse (line @ eol) = parse line"
proof -
  have "strip_eol (line @ eol) = strip_eol line"
    using assms by (induction eol rule: rev_induct) (simp_all add: strip_eol_snoc flip: append_assoc)
  then show ?thesis by (simp add: parse_def tokenize_def)
qed

theorem parse_ignores_eol_witness: "parse (''GET k'' @ [CR, LF]) = parse ''GET k''"
  by (rule parse_ignores_eol) simp

end
