(* ===== verification/VC_Protocol.thy ===== *)
theory VC_Protocol
  imports VC_Text
begin

text \<open>
  The reply format of include/Protocol.h: one tag byte in front of every reply line,
  the encoders the server uses and the decoder the client uses.
\<close>

datatype ReplyType =
    Reply_Status | Reply_Error | Reply_Value | Reply_Nil | Reply_Integer | Reply_Array | Reply_Unknown

text \<open>The underlying character of the enumeration.\<close>

fun tag_char :: "ReplyType \<Rightarrow> char" where
  "tag_char Reply_Status = CHR ''+''"
| "tag_char Reply_Error = CHR ''-''"
| "tag_char Reply_Value = CHR ''$''"
| "tag_char Reply_Nil = CHR ''_''"
| "tag_char Reply_Integer = CHR '':''"
| "tag_char Reply_Array = CHR ''*''"
| "tag_char Reply_Unknown = CHR ''?''"

section \<open>Encoding\<close>

definition proto_status :: "string \<Rightarrow> string" where
  "proto_status text = [tag_char Reply_Status] @ text"

definition proto_error :: "string \<Rightarrow> string" where
  "proto_error text = [tag_char Reply_Error] @ text"

definition proto_value :: "string \<Rightarrow> string" where
  "proto_value escaped = [tag_char Reply_Value] @ escaped"

definition proto_nil :: string where
  "proto_nil = [tag_char Reply_Nil]"

definition proto_integer :: "int \<Rightarrow> string" where
  "proto_integer number = [tag_char Reply_Integer] @ to_string_int number"

definition proto_arrayHeader :: "nat \<Rightarrow> string" where
  "proto_arrayHeader n = [tag_char Reply_Array] @ to_string n"

section \<open>Decoding\<close>

record TaggedLine =
  tl_type :: ReplyType
  tl_payload :: string

definition proto_parse :: "string \<Rightarrow> TaggedLine" where
  "proto_parse line =
     (case line of
        [] \<Rightarrow> \<lparr>tl_type = Reply_Unknown, tl_payload = ''''\<rparr>
      | c # payload \<Rightarrow>
          if c = CHR ''+'' then \<lparr>tl_type = Reply_Status, tl_payload = payload\<rparr>
          else if c = CHR ''-'' then \<lparr>tl_type = Reply_Error, tl_payload = payload\<rparr>
          else if c = CHR ''$'' then \<lparr>tl_type = Reply_Value, tl_payload = payload\<rparr>
          else if c = CHR ''_'' then \<lparr>tl_type = Reply_Nil, tl_payload = payload\<rparr>
          else if c = CHR '':'' then \<lparr>tl_type = Reply_Integer, tl_payload = payload\<rparr>
          else if c = CHR ''*'' then \<lparr>tl_type = Reply_Array, tl_payload = payload\<rparr>
          else \<lparr>tl_type = Reply_Unknown, tl_payload = ''''\<rparr>)"

fun parseCount_loop :: "nat \<Rightarrow> string \<Rightarrow> nat option" where
  "parseCount_loop acc [] = Some acc"
| "parseCount_loop acc (c # cs) =
     (if byte c < byte CHR ''0'' \<or> byte c > byte CHR ''9'' then None
      else let acc' = acc * 10 + digit_val c in
        if acc' > 100000000 then None else parseCount_loop acc' cs)"

definition parseCount :: "string \<Rightarrow> nat option" where
  "parseCount payload = (if payload = [] then None else parseCount_loop 0 payload)"

section \<open>Lemmas\<close>

lemma proto_parse_tags [simp]:
  "proto_parse (proto_status s) = \<lparr>tl_type = Reply_Status, tl_payload = s\<rparr>"
  "proto_parse (proto_error s) = \<lparr>tl_type = Reply_Error, tl_payload = s\<rparr>"
  "proto_parse (proto_value s) = \<lparr>tl_type = Reply_Value, tl_payload = s\<rparr>"
  "proto_parse proto_nil = \<lparr>tl_type = Reply_Nil, tl_payload = ''''\<rparr>"
  "proto_parse (proto_integer n) = \<lparr>tl_type = Reply_Integer, tl_payload = to_string_int n\<rparr>"
  "proto_parse (proto_arrayHeader m) = \<lparr>tl_type = Reply_Array, tl_payload = to_string m\<rparr>"
  by (simp_all add: proto_parse_def proto_status_def proto_error_def proto_value_def proto_nil_def
      proto_integer_def proto_arrayHeader_def)

definition digits_from :: "nat \<Rightarrow> string \<Rightarrow> nat" where
  "digits_from acc cs = foldl (\<lambda>acc c. acc * 10 + digit_val c) acc cs"

lemma digits_from_mono: "acc \<le> digits_from acc cs"
proof (induction cs arbitrary: acc)
  case (Cons c cs)
  have "acc \<le> acc * 10 + digit_val c" by simp
  also have "\<dots> \<le> digits_from (acc * 10 + digit_val c) cs" by (rule Cons.IH)
  finally show ?case by (simp add: digits_from_def)
qed (simp add: digits_from_def)

text \<open>The bound is tested after every digit; since the value only grows, that is a test of the result.\<close>

lemma parseCount_loop_iff:
  "acc \<le> 100000000 \<Longrightarrow> parseCount_loop acc cs =
     (if list_all is_digit cs \<and> digits_from acc cs \<le> 100000000 then Some (digits_from acc cs) else None)"
proof (induction cs arbitrary: acc)
  case (Cons c cs)
  let ?acc = "acc * 10 + digit_val c"
  have "digits_from acc (c # cs) = digits_from ?acc cs" by (simp add: digits_from_def)
  moreover have "?acc \<le> digits_from ?acc cs" by (rule digits_from_mono)
  ultimately show ?case using Cons.IH [of ?acc] by (auto simp: Let_def is_digit_iff)
qed (simp add: digits_from_def)

lemma parseCount_iff:
  "parseCount s = (if s \<noteq> [] \<and> list_all is_digit s \<and> digits_val s \<le> 100000000
     then Some (digits_val s) else None)"
  using parseCount_loop_iff [of 0 s] by (auto simp: parseCount_def digits_from_def digits_val_def)

lemma parseCount_to_string: "n \<le> 100000000 \<Longrightarrow> parseCount (to_string n) = Some n"
  using to_string_digits by (simp add: parseCount_iff list_all_iff)

section \<open>Properties\<close>

text \<open>
  C30. Replies are self-describing: whatever the text, decoding an encoded reply gives back the
  kind it was encoded as and its payload, so a stored value can never be read as an error,
  a nil or an array header.
\<close>

theorem proto_roundtrip:
  "proto_parse (proto_status s) = \<lparr>tl_type = Reply_Status, tl_payload = s\<rparr> \<and>
   proto_parse (proto_error s) = \<lparr>tl_type = Reply_Error, tl_payload = s\<rparr> \<and>
   proto_parse (proto_value s) = \<lparr>tl_type = Reply_Value, tl_payload = s\<rparr> \<and>
   proto_parse proto_nil = \<lparr>tl_type = Reply_Nil, tl_payload = ''''\<rparr> \<and>
   proto_parse (proto_integer i) = \<lparr>tl_type = Reply_Integer, tl_payload = to_string_int i\<rparr> \<and>
   proto_parse (proto_arrayHeader n) = \<lparr>tl_type = Reply_Array, tl_payload = to_string n\<rparr> \<and>
   parseCount (tl_payload (proto_parse (proto_arrayHeader n))) =
     (if n \<le> 100000000 then Some n else None)"
  using to_string_digits by (simp add: parseCount_iff list_all_iff)

text \<open>
  \<open>parseCount\<close> accepts exactly the non-empty digit strings whose value is at most a hundred
  million, and returns that value; in particular no intermediate value overflows.
\<close>

theorem parseCount_exact:
  "parseCount s = (if s \<noteq> [] \<and> list_all is_digit s \<and> digits_val s \<le> 100000000
     then Some (digits_val s) else None)"
  by (rule parseCount_iff)

end
