(* ===== verification/VC_Snapshot.thy ===== *)
theory VC_Snapshot
  imports VC_Entry VC_Text
begin

text \<open>
  The snapshot format of include/Persistence.h and the functions of namespace \<open>snapshot\<close> in
  src/Persistence.cpp: checksum, little-endian integers, conversion between the steady
  and the wall clock, \<open>encode\<close> and \<open>decode\<close>.

  Clocks are read by the caller of the model: \<open>now\<close> is the reading at the head of each
  function, and \<open>clks i\<close> the pair of the steady-clock and system-clock readings taken for
  entry \<open>i\<close>. The steady clock counts nanoseconds; \<open>tick\<close> is the length in nanoseconds of a tick of
  the system clock, which is 1 or 1000 depending on the platform. Instants are
  unbounded integers; on files written by \<open>encode\<close> they are far below 64 bits.
\<close>

section \<open>Bytes and integers\<close>

definition kMagic :: string where
  "kMagic = ''VCACHE''"

definition kMagicLength :: nat where
  "kMagicLength = length kMagic"

definition kFormatVersion :: nat where
  "kFormatVersion = 1"

definition kMaxFieldLength :: nat where
  "kMaxFieldLength = 512 * 1024 * 1024"

definition checksum_step :: "u64 \<Rightarrow> char \<Rightarrow> u64" where
  "checksum_step hash c = (hash XOR of_char c) * 0x100000001b3"

definition checksumOf :: "string \<Rightarrow> u64" where
  "checksumOf data = foldl checksum_step 0xcbf29ce484222325 data"

definition appendLE :: "u64 \<Rightarrow> nat \<Rightarrow> string" where
  "appendLE val byteCount = map (\<lambda>i. char_of (unat (drop_bit (8 * i) val AND 0xff))) [0..<byteCount]"

definition readLE :: "string \<Rightarrow> nat \<Rightarrow> nat \<Rightarrow> (u64 \<times> nat) option" where
  "readLE data offset byteCount =
     (if offset + byteCount > length data then None
      else Some (foldl (\<lambda>val i. val OR push_bit (8 * i) (of_char (data ! (offset + i)))) 0 [0..<byteCount],
                 offset + byteCount))"

section \<open>Clocks\<close>

text \<open>Integer division of C++, which truncates towards zero; \<open>duration_cast\<close> is built on it.\<close>

definition trunc_div :: "int \<Rightarrow> int \<Rightarrow> int" where
  "trunc_div a b = (if a \<ge> 0 then a div b else - ((- a) div b))"

definition toWallClockMillis :: "int \<Rightarrow> time_point \<times> int \<Rightarrow> time_point \<Rightarrow> int" where
  "toWallClockMillis tick clk expiry =
     (case clk of (steady, sys) \<Rightarrow>
        let remaining = expiry - steady;
            wall = sys + trunc_div remaining tick
        in trunc_div wall (1000000 div tick))"

definition fromWallClockMillis :: "int \<Rightarrow> time_point \<times> int \<Rightarrow> int \<Rightarrow> time_point option" where
  "fromWallClockMillis tick clk millis =
     (case clk of (steady, sys) \<Rightarrow>
        let wall = millis * (1000000 div tick);
            remaining = wall - sys
        in if remaining \<le> 0 then None else Some (steady + remaining * tick))"

section \<open>Encoding\<close>

definition expiry_field :: "int \<Rightarrow> time_point \<times> int \<Rightarrow> entry \<Rightarrow> int" where
  "expiry_field tick clk e = (case e_expiration e of None \<Rightarrow> 0 | Some t \<Rightarrow> toWallClockMillis tick clk t)"

definition encode_entry :: "int \<Rightarrow> time_point \<times> int \<Rightarrow> entry \<Rightarrow> string" where
  "encode_entry tick clk e =
     appendLE (of_nat (length (e_key e))) 4 @ e_key e @
     appendLE (of_nat (length (e_value e))) 4 @ e_value e @
     appendLE (of_int (expiry_field tick clk e)) 8"

fun encode_entries :: "int \<Rightarrow> (nat \<Rightarrow> time_point \<times> int) \<Rightarrow> nat \<Rightarrow> entry list \<Rightarrow> string" where
  "encode_entries tick clks i [] = ''''"
| "encode_entries tick clks i (e # es) = encode_entry tick (clks i) e @ encode_entries tick clks (Suc i) es"

definition encode :: "int \<Rightarrow> time_point \<Rightarrow> (nat \<Rightarrow> time_point \<times> int) \<Rightarrow> entry list \<Rightarrow> string" where
  "encode tick now clks entries =
     (let live = filter (\<lambda>e. \<not> isExpiredAt now e) entries;
          out = kMagic @ appendLE (of_nat kFormatVersion) 2 @ appendLE (of_nat (length live)) 8 @
                encode_entries tick clks 0 live
      in out @ appendLE (checksumOf out) 8)"

section \<open>Decoding\<close>

text \<open>\<open>error = "snapshot entry " + std::to_string(i) + what\<close>\<close>

definition entry_error :: "nat \<Rightarrow> string \<Rightarrow> string" where
  "entry_error i what = ''snapshot entry '' @ to_string i @ what"

text \<open>
  The loop over the entries: \<open>i\<close> is the loop variable, \<open>n\<close> the number of iterations left, and
  \<open>entries\<close> the vector so far. The result is the error, or the final offset and vector.
\<close>

fun decode_entries ::
  "int \<Rightarrow> time_point \<Rightarrow> (nat \<Rightarrow> time_point \<times> int) \<Rightarrow> string \<Rightarrow> nat \<Rightarrow> nat \<Rightarrow> nat \<Rightarrow> nat \<Rightarrow> entry list \<Rightarrow>
     string + nat \<times> entry list" where
  "decode_entries tick now clks data payloadLength i 0 offset entries = Inr (offset, entries)"
| "decode_entries tick now clks data payloadLength i (Suc n) offset entries =
     (case readLE data offset 4 of
        None \<Rightarrow> Inl (entry_error i '' has an invalid key length'')
      | Some (keyLength, offset1) \<Rightarrow>
      if unat keyLength > kMaxFieldLength then Inl (entry_error i '' has an invalid key length'')
      else if offset1 + unat keyLength > payloadLength then Inl (entry_error i '' is truncated'')
      else
        let key = take (unat keyLength) (drop offset1 data); offset2 = offset1 + unat keyLength in
     (case readLE data offset2 4 of
        None \<Rightarrow> Inl (entry_error i '' has an invalid value length'')
      | Some (valueLength, offset3) \<Rightarrow>
      if unat valueLength > kMaxFieldLength then Inl (entry_error i '' has an invalid value length'')
      else if offset3 + unat valueLength > payloadLength then Inl (entry_error i '' is truncated'')
      else
        let val = take (unat valueLength) (drop offset3 data); offset4 = offset3 + unat valueLength in
     (case readLE data offset4 8 of
        None \<Rightarrow> Inl (entry_error i '' is missing its expiry'')
      | Some (rawExpiry, offset5) \<Rightarrow>
        let expiresAtMillis = sint rawExpiry; entry = Entry key val in
        if expiresAtMillis \<noteq> 0 then
          (case fromWallClockMillis tick (clks i) expiresAtMillis of
             None \<Rightarrow> decode_entries tick now clks data payloadLength (Suc i) n offset5 entries
           | Some expiry \<Rightarrow>
               let entry' = entry\<lparr>e_expiration := Some expiry\<rparr> in
               decode_entries tick now clks data payloadLength (Suc i) n offset5
                 (if \<not> isExpiredAt now entry' then entries @ [entry'] else entries))
        else
          decode_entries tick now clks data payloadLength (Suc i) n offset5
            (if \<not> isExpiredAt now entry then entries @ [entry] else entries))))"

definition kHeaderLength :: nat where
  "kHeaderLength = kMagicLength + 2 + 8"

definition kChecksumLength :: nat where
  "kChecksumLength = 8"

definition err_short :: string where
  "err_short = ''snapshot is too short to be valid''"

definition err_magic :: string where
  "err_magic = ''snapshot has the wrong magic bytes -- not a VCache snapshot''"

definition err_no_checksum :: string where
  "err_no_checksum = ''snapshot is missing its checksum''"

definition err_checksum :: string where
  "err_checksum = ''snapshot checksum mismatch -- the file is corrupt''"

definition err_header :: string where
  "err_header = ''snapshot is truncated in its header''"

definition err_version :: "nat \<Rightarrow> string" where
  "err_version version = ''snapshot format version '' @ to_string version @
     '' is not supported (expected '' @ to_string kFormatVersion @ '')''"

definition err_trailing :: string where
  "err_trailing = ''snapshot has trailing bytes after the last entry''"

definition decode ::
  "int \<Rightarrow> time_point \<Rightarrow> (nat \<Rightarrow> time_point \<times> int) \<Rightarrow> string \<Rightarrow> string + entry list" where
  "decode tick now clks data =
     (if length data < kHeaderLength + kChecksumLength then Inl err_short
      else if take kMagicLength data \<noteq> kMagic then Inl err_magic
      else
        let payloadLength = length data - kChecksumLength in
        case readLE data payloadLength 8 of
          None \<Rightarrow> Inl err_no_checksum
        | Some (storedChecksum, _) \<Rightarrow>
        if storedChecksum \<noteq> checksumOf (take payloadLength data) then Inl err_checksum
        else
        (case readLE data kMagicLength 2 of
           None \<Rightarrow> Inl err_header
         | Some (version, offset1) \<Rightarrow>
         if unat version \<noteq> kFormatVersion then Inl (err_version (unat version))
         else
         (case readLE data offset1 8 of
            None \<Rightarrow> Inl err_header
          | Some (entryCount, offset2) \<Rightarrow>
          (case decode_entries tick now clks data payloadLength 0 (unat entryCount) offset2 [] of
             Inl err \<Rightarrow> Inl err
           | Inr (offset, entries) \<Rightarrow>
               if offset \<noteq> payloadLength then Inl err_trailing else Inr entries))))"

end
