(* ===== verification/VC_Snapshot_Correct.thy ===== *)
theory VC_Snapshot_Correct
  imports VC_Snapshot
begin

text \<open>
  Correctness of the snapshot format: little-endian integers as a codec, reading back what
  was encoded, the effect of the clock conversions, and detection of a changed byte.
\<close>

section \<open>Codecs\<close>

text \<open>
  A field written in the middle of a file is read back at its offset, which moves past it.
\<close>

locale codec =
  fixes put :: "'a \<Rightarrow> string"
    and get :: "string \<Rightarrow> nat \<Rightarrow> ('a \<times> nat) option"
    and valid :: "'a \<Rightarrow> bool"
  assumes get_put: "valid x \<Longrightarrow> get (pre @ put x @ post) (length pre) = Some (x, length pre + length (put x))"
begin

lemma get_put_at:
  "data = pre @ put x @ post \<Longrightarrow> off = length pre \<Longrightarrow> valid x \<Longrightarrow>
   get data off = Some (x, off + length (put x))"
  using get_put by simp

lemma put_inj:
  assumes "valid x" "valid y" "put x = put y"
  shows "x = y"
  using get_put [OF assms(1), of "''''" "''''"] get_put [OF assms(2), of "''''" "''''"] assms(3) by simp

end

lemma of_char_char_of_word: "(of_char (char_of m) :: u64) = of_nat (m mod 256)" for m :: nat
proof -
  have "(of_char (char_of m) :: u64) = of_nat (of_char (char_of m) :: nat)" by (simp only: of_nat_of_char)
  then show ?thesis by (simp only: of_char_of)
qed

lemma LE_byte: "(of_char (char_of (unat (v AND 0xff))) :: u64) = take_bit 8 v" for v :: u64
proof -
  have m: "v AND 0xff = take_bit 8 v" by (simp add: take_bit_eq_mask mask_eq_exp_minus_1)
  have "unat (take_bit 8 v) < 256"
    using take_bit_nat_less_exp [of 8 "unat v"] by (simp add: unsigned_take_bit_eq del: take_bit_nat_less_exp)
  then show ?thesis unfolding m of_char_char_of_word by simp
qed

lemma take_bit_LE_step:
  "take_bit (8 * Suc n) v = take_bit (8 * n) v OR push_bit (8 * n) (take_bit 8 (drop_bit (8 * n) v))"
  for v :: u64
  by (rule bit_eqI) (auto simp: bit_simps)

lemma readLE_value:
  assumes "\<And>i. i < n \<Longrightarrow> data ! (off + i) = char_of (unat (drop_bit (8 * i) v AND 0xff))"
  shows "foldl (\<lambda>val i. val OR push_bit (8 * i) (of_char (data ! (off + i)))) (0 :: u64) [0..<n] =
    take_bit (8 * n) v"
  using assms
proof (induction n)
  case (Suc n)
  then have "foldl (\<lambda>val i. val OR push_bit (8 * i) (of_char (data ! (off + i)))) (0 :: u64) [0..<n] =
      take_bit (8 * n) v" by simp
  with Suc.prems [of n] show ?case
    unfolding take_bit_LE_step by (simp add: LE_byte)
qed simp

lemma length_appendLE [simp]: "length (appendLE v n) = n"
  by (simp add: appendLE_def)

lemma readLE_appendLE:
  assumes "take_bit (8 * n) v = v"
  shows "readLE (pre @ appendLE v n @ post) (length pre) n = Some (v, length pre + n)"
proof -
  have "(pre @ appendLE v n @ post) ! (length pre + i) = char_of (unat (drop_bit (8 * i) v AND 0xff))"
    if "i < n" for i
    using that by (simp add: nth_append appendLE_def)
  from readLE_value [OF this] assms show ?thesis by (simp add: readLE_def)
qed

text \<open>The three widths of the format.\<close>

interpretation le2: codec "\<lambda>v. appendLE v 2" "\<lambda>data off. readLE data off 2" "\<lambda>v. take_bit 16 v = v"
  by unfold_locales (use readLE_appendLE [of 2] in simp)

interpretation le4: codec "\<lambda>v. appendLE v 4" "\<lambda>data off. readLE data off 4" "\<lambda>v. take_bit 32 v = v"
  by unfold_locales (use readLE_appendLE [of 4] in simp)

interpretation le8: codec "\<lambda>v. appendLE v 8" "\<lambda>data off. readLE data off 8" "\<lambda>v. True"
  by unfold_locales (use readLE_appendLE [of 8] in \<open>simp add: take_bit_word_eq_self\<close>)

section \<open>Reading back an encoded entry\<close>

text \<open>What the format can represent: bounded fields, and an expiry after the epoch.\<close>

definition encodable_entry :: "int \<Rightarrow> time_point \<times> int \<Rightarrow> entry \<Rightarrow> bool" where
  "encodable_entry tick clk e \<longleftrightarrow>
     length (e_key e) \<le> kMaxFieldLength \<and> length (e_value e) \<le> kMaxFieldLength \<and>
     (case e_expiration e of None \<Rightarrow> True
      | Some t \<Rightarrow> 0 < toWallClockMillis tick clk t \<and> toWallClockMillis tick clk t < 2 ^ 63)"

fun encodable :: "int \<Rightarrow> (nat \<Rightarrow> time_point \<times> int) \<Rightarrow> nat \<Rightarrow> entry list \<Rightarrow> bool" where
  "encodable tick clks i [] \<longleftrightarrow> True"
| "encodable tick clks i (e # es) \<longleftrightarrow> encodable_entry tick (clks i) e \<and> encodable tick clks (Suc i) es"

text \<open>
  The fate of an entry between a snapshot taken with clock readings \<open>clk\<close> and one loaded at
  \<open>now\<close> with clock readings \<open>clk'\<close>: kept with its expiry moved onto the new clocks, or dropped
  when that has passed.
\<close>

definition reload_entry :: "int \<Rightarrow> time_point \<Rightarrow> time_point \<times> int \<Rightarrow> time_point \<times> int \<Rightarrow> entry \<Rightarrow> entry list" where
  "reload_entry tick now clk clk' e =
     (case e_expiration e of
        None \<Rightarrow> [e]
      | Some t \<Rightarrow>
          (case fromWallClockMillis tick clk' (toWallClockMillis tick clk t) of
             None \<Rightarrow> []
           | Some t' \<Rightarrow> if now < t' then [e\<lparr>e_expiration := Some t'\<rparr>] else []))"

fun reload :: "int \<Rightarrow> time_point \<Rightarrow> (nat \<Rightarrow> time_point \<times> int) \<Rightarrow> (nat \<Rightarrow> time_point \<times> int) \<Rightarrow> nat \<Rightarrow>
    entry list \<Rightarrow> entry list" where
  "reload tick now clks clks' i [] = []"
| "reload tick now clks clks' i (e # es) =
     reload_entry tick now (clks i) (clks' i) e @ reload tick now clks clks' (Suc i) es"

lemma length_field:
  assumes "n \<le> kMaxFieldLength"
  shows "take_bit 32 (of_nat n :: u64) = of_nat n" "unat (of_nat n :: u64) = n"
proof -
  from assms have n: "n < 2 ^ 32" by (simp add: kMaxFieldLength_def)
  then have "take_bit 32 n = n" by (simp add: take_bit_nat_eq_self)
  then show "take_bit 32 (of_nat n :: u64) = of_nat n" by (metis of_nat_take_bit)
  from n show "unat (of_nat n :: u64) = n"
    by (simp add: unsigned_of_nat take_bit_nat_eq_self)
qed

lemma expiry_field_read:
  assumes "encodable_entry tick clk e"
  shows "sint (of_int (expiry_field tick clk e) :: u64) = expiry_field tick clk e"
proof -
  have "0 \<le> expiry_field tick clk e" "expiry_field tick clk e < 2 ^ 63"
    using assms by (auto simp: encodable_entry_def expiry_field_def split: option.splits)
  then show ?thesis by (simp add: signed_of_int signed_take_bit_int_eq_self)
qed

lemma decode_encoded_entry:
  assumes data: "data = pre @ encode_entry tick clk e @ post"
    and fits: "length pre + length (encode_entry tick clk e) \<le> payloadLength"
    and ok: "encodable_entry tick clk e"
  shows "decode_entries tick now clks data payloadLength i (Suc n) (length pre) entries =
    decode_entries tick now clks data payloadLength (Suc i) n
      (length pre + length (encode_entry tick clk e)) (entries @ reload_entry tick now clk (clks i) e)"
proof -
  let ?k = "e_key e" and ?v = "e_value e" and ?x = "expiry_field tick clk e"
  define o1 where "o1 = length pre + 4"
  define o2 where "o2 = o1 + length ?k"
  define o3 where "o3 = o2 + 4"
  define o4 where "o4 = o3 + length ?v"
  define o5 where "o5 = o4 + 8"
  note o = o1_def o2_def o3_def o4_def o5_def
  have kl: "length ?k \<le> kMaxFieldLength" and vl: "length ?v \<le> kMaxFieldLength"
    using ok by (simp_all add: encodable_entry_def)
  note k = length_field [OF kl] and v = length_field [OF vl]
  note d = data [unfolded encode_entry_def append_assoc]
  have r1: "readLE data (length pre) 4 = Some (of_nat (length ?k), o1)"
    using le4.get_put_at [OF d refl k(1)] by (simp add: o)
  have r2: "readLE data o2 4 = Some (of_nat (length ?v), o3)"
    using le4.get_put_at [of data "pre @ appendLE (of_nat (length ?k)) 4 @ ?k" _ _ o2] d v(1) by (simp add: o)
  have r3: "readLE data o4 8 = Some (of_int ?x, o5)"
    using le8.get_put_at [of data "pre @ appendLE (of_nat (length ?k)) 4 @ ?k @ appendLE (of_nat (length ?v)) 4 @ ?v"
        _ _ o4] d by (simp add: o)
  have s1: "take (length ?k) (drop o1 data) = ?k" unfolding d o by simp
  have s2: "take (length ?v) (drop o3 data) = ?v" unfolding d o by simp
  have len: "length pre + length (encode_entry tick clk e) = o5"
    by (simp add: encode_entry_def o)
  have x: "?x = 0 \<longleftrightarrow> e_expiration e = None"
    using ok by (auto simp: encodable_entry_def expiry_field_def split: option.splits)
  have fits': "\<not> payloadLength < o2" "\<not> payloadLength < o4" using fits len by (simp_all add: o)
  have short: "\<not> kMaxFieldLength < length ?k" "\<not> kMaxFieldLength < length ?v" using kl vl by simp_all
  note facts = r1 r2 r3 k v short fits' s1 s2 x len o2_def [symmetric] o4_def [symmetric]
    expiry_field_read [OF ok]
  show ?thesis
  proof (cases "e_expiration e")
    case None
    then have same: "Entry ?k ?v = e" by (cases e) (simp add: Entry_def)
    from None show ?thesis by (simp add: facts same Let_def reload_entry_def)
  next
    case (Some t)
    then have f: "?x = toWallClockMillis tick clk t" "toWallClockMillis tick clk t \<noteq> 0"
      "sint (of_int (toWallClockMillis tick clk t) :: u64) = toWallClockMillis tick clk t"
      using x expiry_field_read [OF ok] by (simp_all add: expiry_field_def)
    have same: "(Entry ?k ?v)\<lparr>e_expiration := Some t'\<rparr> = e\<lparr>e_expiration := Some t'\<rparr>" for t'
      by (simp add: Entry_def)
    from Some show ?thesis
      by (simp add: facts f same Let_def reload_entry_def not_le split: option.split)
  qed
qed

lemma decode_encoded_entries:
  assumes "encodable tick clks i es" "length pre + length (encode_entries tick clks i es) \<le> payloadLength"
  shows "data = pre @ encode_entries tick clks i es @ post \<Longrightarrow>
    decode_entries tick now clks' data payloadLength i (length es) (length pre) entries =
      Inr (length pre + length (encode_entries tick clks i es), entries @ reload tick now clks clks' i es)"
  using assms
proof (induction es arbitrary: i pre entries)
  case (Cons e es)
  let ?b = "encode_entry tick (clks i) e"
  have "decode_entries tick now clks' data payloadLength i (Suc (length es)) (length pre) entries =
      decode_entries tick now clks' data payloadLength (Suc i) (length es) (length (pre @ ?b))
        (entries @ reload_entry tick now (clks i) (clks' i) e)"
    using decode_encoded_entry [of data pre tick "clks i" e "encode_entries tick clks (Suc i) es @ post"] Cons.prems
    by (simp del: decode_entries.simps)
  also have "\<dots> = Inr (length (pre @ ?b) + length (encode_entries tick clks (Suc i) es),
      (entries @ reload_entry tick now (clks i) (clks' i) e) @ reload tick now clks clks' (Suc i) es)"
    using Cons.prems by (intro Cons.IH) simp_all
  finally show ?case by (simp del: decode_entries.simps)
qed simp

section \<open>Reading back an encoded file\<close>

lemma readLE_last:
  "readLE (out @ appendLE v 8) (length out) 8 = Some (v, length out + 8)"
  using le8.get_put [of out v "''''"] by simp

lemma decode_encode:
  assumes live: "live = filter (\<lambda>e. \<not> isExpiredAt now e) entries"
    and ok: "encodable tick clks 0 live" and count: "length live < 2 ^ 64"
  shows "decode tick now' clks' (encode tick now clks entries) = Inr (reload tick now' clks clks' 0 live)"
proof -
  let ?head = "kMagic @ appendLE (of_nat kFormatVersion) 2 @ appendLE (of_nat (length live)) 8"
  let ?body = "encode_entries tick clks 0 live"
  define out where "out = ?head @ ?body"
  define data where "data = encode tick now clks entries"
  have data: "data = out @ appendLE (checksumOf out) 8"
    unfolding data_def encode_def Let_def live [symmetric] out_def by simp
  have magic: "take kMagicLength data = kMagic" "kMagicLength = length kMagic"
    unfolding data out_def by (simp_all add: kMagicLength_def)
  have v: "readLE data kMagicLength 2 = Some (of_nat kFormatVersion, kMagicLength + 2)"
    using le2.get_put_at [of data kMagic "of_nat kFormatVersion" _ kMagicLength] data out_def
    by (simp add: kMagicLength_def kFormatVersion_def)
  have c: "readLE data (kMagicLength + 2) 8 = Some (of_nat (length live), length ?head)"
    using le8.get_put_at [of data "kMagic @ appendLE (of_nat kFormatVersion) 2" "of_nat (length live)" _ "kMagicLength + 2"]
      data out_def by (simp add: kMagicLength_def)
  have n: "unat (of_nat (length live) :: u64) = length live"
    using count by (simp add: unsigned_of_nat take_bit_nat_eq_self)
  have e: "decode_entries tick now' clks' data (length out) 0 (length live) (length ?head) [] =
      Inr (length ?head + length ?body, [] @ reload tick now' clks clks' 0 live)"
    using ok data out_def by (intro decode_encoded_entries [where post = "appendLE (checksumOf out) 8"]) simp_all
  have len: "length data - kChecksumLength = length out" "\<not> length data < kHeaderLength + kChecksumLength"
      "length ?head + length ?body = length out"
    unfolding data by (simp_all add: kChecksumLength_def kHeaderLength_def kMagicLength_def out_def)
  have sum: "take (length out) data = out" "readLE data (length out) 8 = Some (checksumOf out, length out + 8)"
    unfolding data using readLE_last by simp_all
  show ?thesis
    unfolding data_def [symmetric] decode_def
    using v c e n len sum magic by (simp add: kFormatVersion_def)
qed

section \<open>Detecting corruption\<close>

lemma checksum_step_unstep: "checksum_step h c * 0xce965057aff6957b = h XOR of_char c"
proof -
  have "(0x100000001b3 :: u64) * 0xce965057aff6957b = 1" by code_simp
  then show ?thesis unfolding checksum_step_def mult.assoc by (simp only: mult_1_right)
qed

lemma xor_right_cancel:
  fixes a a' b :: u64
  assumes "a XOR b = a' XOR b"
  shows "a = a'"
proof -
  have "(a XOR b) XOR b = (a' XOR b) XOR b" by (simp only: assms)
  then show ?thesis by (simp only: xor.assoc xor_self_eq xor.right_neutral)
qed

lemma checksum_step_inj_state: "checksum_step h c = checksum_step h' c \<longleftrightarrow> h = h'"
proof
  assume "checksum_step h c = checksum_step h' c"
  then have "h XOR of_char c = h' XOR of_char c" using checksum_step_unstep by metis
  then show "h = h'" by (rule xor_right_cancel)
qed simp

lemma of_char_u64_inj: "(of_char c :: u64) = of_char d \<longleftrightarrow> c = d"
proof
  assume "(of_char c :: u64) = of_char d"
  then have eq: "unat (of_nat (of_char c) :: u64) = unat (of_nat (of_char d) :: u64)" by (simp only: of_nat_of_char)
  have u: "unat (of_nat (of_char x) :: u64) = of_char x" for x
  proof -
    have "(of_char x :: nat) mod 256 < 256" by (rule mod_less_divisor) simp
    then have "(of_char x :: nat) < 256" by (simp only: of_char_mod_256)
    then have "(of_char x :: nat) < 2 ^ 64" by (rule order_less_le_trans) simp
    then show ?thesis by (simp only: unsigned_of_nat take_bit_nat_eq_self len_bit0 len_num1 mult_1_right
        numeral_times_numeral num.simps mult_num_simps of_nat_id)
  qed
  from eq show "c = d" unfolding u by simp
qed simp

lemma checksum_step_inj_byte: "checksum_step h c = checksum_step h d \<longleftrightarrow> c = d"
proof
  assume "checksum_step h c = checksum_step h d"
  then have "h XOR of_char c = h XOR of_char d" by (metis checksum_step_unstep)
  then have "of_char c XOR h = of_char d XOR h" by (simp only: xor.commute)
  then have "(of_char c :: u64) = of_char d" by (rule xor_right_cancel)
  then show "c = d" by (simp only: of_char_u64_inj)
qed simp

lemma checksum_foldl_inj: "foldl checksum_step h xs = foldl checksum_step h' xs \<longleftrightarrow> h = h'"
  by (induction xs arbitrary: h h') (simp_all add: checksum_step_inj_state)

lemma checksumOf_byte_changed:
  assumes "i < length data" "c \<noteq> data ! i"
  shows "checksumOf (data[i := c]) \<noteq> checksumOf data"
proof -
  have d: "data = take i data @ data ! i # drop (Suc i) data" using assms(1) by (rule id_take_nth_drop)
  have "data[i := c] = take i data @ c # drop (Suc i) data" using assms(1) by (simp add: upd_conv_take_nth_drop)
  then show ?thesis
    using assms(2) by (subst (2) d) (simp add: checksumOf_def checksum_foldl_inj checksum_step_inj_byte)
qed

lemma bit_of_char_u64: "bit (of_char c :: u64) n \<Longrightarrow> n < 8"
proof -
  have "(of_char c :: u64) = take_bit 8 (of_char c)"
    by (cases c) (simp add: of_char_def horner_sum_bit_eq_take_bit)
  moreover assume "bit (of_char c :: u64) n"
  ultimately show "n < 8" by (metis bit_take_bit_iff)
qed

lemma bit_readLE:
  assumes "n \<le> 8"
  shows "bit (foldl (\<lambda>val i. val OR push_bit (8 * i) (of_char (data ! (off + i)))) (0 :: u64) [0..<n]) m \<longleftrightarrow>
    m div 8 < n \<and> bit (of_char (data ! (off + m div 8)) :: u64) (m mod 8)"
  using assms
proof (induction n)
  case (Suc n)
  let ?w = "of_char (data ! (off + n)) :: u64"
  have "8 * n \<le> m \<and> m < 64 \<and> bit ?w (m - 8 * n) \<longleftrightarrow> m div 8 = n \<and> bit ?w (m mod 8)"
  proof
    assume a: "8 * n \<le> m \<and> m < 64 \<and> bit ?w (m - 8 * n)"
    then have "m - 8 * n < 8" using bit_of_char_u64 by blast
    with a have "m div 8 = n" "m mod 8 = m - 8 * n" by (auto simp: div_nat_eqI modulo_nat_def)
    with a show "m div 8 = n \<and> bit ?w (m mod 8)" by simp
  next
    assume a: "m div 8 = n \<and> bit ?w (m mod 8)"
    then have "m = 8 * n + m mod 8" by auto
    then have "8 * n \<le> m" "m - 8 * n = m mod 8" by simp_all
    moreover have "m < 64" using a Suc.prems by auto
    ultimately show "8 * n \<le> m \<and> m < 64 \<and> bit ?w (m - 8 * n)" using a by simp
  qed
  with Suc show ?case by (auto simp: bit_or_iff bit_push_bit_iff less_Suc_eq)
qed simp

lemma readLE_inj:
  assumes "readLE data off n = Some (v, off')" "readLE data' off n = Some (v, off'')" "n \<le> 8" "i < n"
  shows "data ! (off + i) = data' ! (off + i)"
proof -
  have b: "bit (of_char (data ! (off + i)) :: u64) j \<longleftrightarrow> bit (of_char (data' ! (off + i)) :: u64) j"
    if "j < 8" for j
  proof -
    have "(8 * i + j) div 8 = i" "(8 * i + j) mod 8 = j" using that by simp_all
    then show ?thesis
      using assms bit_readLE [OF assms(3), of data off "8 * i + j"] bit_readLE [OF assms(3), of data' off "8 * i + j"]
      by (simp add: readLE_def split: if_splits)
  qed
  have "(of_char (data ! (off + i)) :: u64) = of_char (data' ! (off + i))"
    by (rule bit_eqI) (metis b bit_of_char_u64)
  then show ?thesis by (simp only: of_char_u64_inj)
qed

lemma decode_checks:
  assumes "decode tick now clks data = Inr es"
  shows "\<exists>off. readLE data (length data - 8) 8 = Some (checksumOf (take (length data - 8) data), off)"
    and "8 \<le> length data"
  using assms by (auto simp: decode_def kChecksumLength_def Let_def split: if_splits option.splits)

lemma decode_byte_changed:
  assumes ok: "decode tick now clks data = Inr es" and i: "i < length data" "c \<noteq> data ! i"
  shows "\<exists>err. decode tick' now' clks' (data[i := c]) = Inl err"
proof (rule ccontr)
  assume "\<not> ?thesis"
  then obtain es' where ok': "decode tick' now' clks' (data[i := c]) = Inr es'"
    by (metis sum.exhaust)
  let ?n = "length data - 8"
  obtain off off' where r: "readLE data ?n 8 = Some (checksumOf (take ?n data), off)"
      "readLE (data[i := c]) ?n 8 = Some (checksumOf (take ?n (data[i := c])), off')"
    using decode_checks(1) [OF ok] decode_checks(1) [OF ok'] by auto
  show False
  proof (cases "i < ?n")
    case True
    then have "take ?n (data[i := c]) = (take ?n data)[i := c]" by (simp add: take_update_swap)
    moreover have "checksumOf ((take ?n data)[i := c]) \<noteq> checksumOf (take ?n data)"
      using True i by (intro checksumOf_byte_changed) simp_all
    moreover have "readLE (data[i := c]) ?n 8 = readLE data ?n 8"
      using True unfolding readLE_def by (auto intro!: foldl_cong)
    ultimately show False using r by simp
  next
    case False
    then have "take ?n (data[i := c]) = take ?n data" by simp
    then have "data ! (?n + (i - ?n)) = (data[i := c]) ! (?n + (i - ?n))"
      using r False i decode_checks(2) [OF ok] by (intro readLE_inj [where n = 8]) auto
    with False i show False by simp
  qed
qed

section \<open>Lifetimes across a restart\<close>

text \<open>
  The system clock as a function of the steady clock of one run of the process: \<open>C\<close> is the
  wall-clock time, in nanoseconds, of the steady clock's origin, and the reading is in whole ticks.
\<close>

definition sys_reading :: "int \<Rightarrow> int \<Rightarrow> time_point \<Rightarrow> int" where
  "sys_reading tick C steady = (steady + C) div tick"

lemma mult_div_bounds: "0 < b \<Longrightarrow> a - b < (a div b) * b \<and> (a div b) * b \<le> a" for a b :: int
  using pos_mod_bound [of b a] pos_mod_sign [of b a] div_mult_mod_eq [of a b] by linarith

lemma trunc_div_bounds:
  assumes "0 < b"
  shows "a - b < trunc_div a b * b" "trunc_div a b * b < a + b"
  using mult_div_bounds [OF assms, of a] mult_div_bounds [OF assms, of "- a"] assms
  by (auto simp: trunc_div_def)

lemma toWallClockMillis_bounds:
  assumes "0 < tick" "tick dvd 1000000" "0 < toWallClockMillis tick (s, sys_reading tick C s) t"
  defines "m \<equiv> toWallClockMillis tick (s, sys_reading tick C s) t"
  shows "t + C - 1000000 - 2 * tick < m * 1000000" "m * 1000000 < t + C + tick"
proof -
  define q where "q = 1000000 div tick"
  have q: "q * tick = 1000000" "0 < q" using assms(1,2) by (auto simp: q_def pos_imp_zdiv_pos_iff zdvd_imp_le)
  define w where "w = (s + C) div tick + trunc_div (t - s) tick"
  have m: "m = trunc_div w q" by (simp add: m_def toWallClockMillis_def sys_reading_def w_def q_def)
  have "0 \<le> w"
  proof (rule ccontr)
    assume "\<not> 0 \<le> w"
    then have "m \<le> 0" using q(2) by (simp add: m trunc_div_def pos_imp_zdiv_nonneg_iff)
    with assms(3) show False by (simp add: m_def)
  qed
  then have "m = w div q" by (simp add: m trunc_div_def)
  then have mq: "w - q < m * q" "m * q \<le> w" using mult_div_bounds [OF q(2)] by simp_all
  have w: "t + C - 2 * tick < w * tick" "w * tick < t + C + tick"
    using mult_div_bounds [OF assms(1), of "s + C"] trunc_div_bounds [OF assms(1), of "t - s"]
    by (simp_all add: w_def distrib_right)
  have "(w - q) * tick < m * q * tick" "m * q * tick \<le> w * tick" using mq assms(1) by simp_all
  then have "w * tick - 1000000 < m * 1000000" "m * 1000000 \<le> w * tick"
    using q(1) by (simp_all add: left_diff_distrib mult.assoc)
  with w show "t + C - 1000000 - 2 * tick < m * 1000000" "m * 1000000 < t + C + tick" by linarith+
qed

lemma fromWallClockMillis_bounds:
  assumes "0 < tick" "tick dvd 1000000"
  shows "case fromWallClockMillis tick (s, sys_reading tick C s) m of
      None \<Rightarrow> m * 1000000 \<le> s + C
    | Some t \<Rightarrow> m * 1000000 \<le> t + C \<and> t + C < m * 1000000 + tick"
proof -
  define q where "q = 1000000 div tick"
  have q: "q * tick = 1000000" using assms(2) by (simp add: q_def)
  note b = mult_div_bounds [OF assms(1), of "s + C"]
  show ?thesis
  proof (cases "m * q - (s + C) div tick \<le> 0")
    case True
    then have "m * q * tick \<le> (s + C) div tick * tick" using assms(1) by simp
    with b q True show ?thesis
      by (simp add: fromWallClockMillis_def sys_reading_def q_def [symmetric] mult.assoc)
  next
    case False
    have "(m * q - (s + C) div tick) * tick = m * 1000000 - (s + C) div tick * tick"
      using q by (simp add: left_diff_distrib mult.assoc)
    with b False show ?thesis
      by (simp add: fromWallClockMillis_def sys_reading_def q_def [symmetric])
  qed
qed

end
