(* ===== verification/VC_Sys.thy ===== *)
theory VC_Sys
  imports VC_Prelude
begin

text \<open>
  The operating system as the sources see it. The kernel is not part of the program: its
  answers are parameters of the operations that call it, functions from the number of the
  call (and the bytes offered) to the result. What POSIX promises of them is stated as the
  predicates below and appears as hypotheses.

  \<open>write\<close> in src/Persistence.cpp and \<open>send\<close> in src/Server.cpp and src/VCacheClient.cpp are
  driven by the same loop; \<open>transfer_loop\<close> is its contract, interpreted on each of the three.
\<close>

datatype errno = EINTR | ENOENT | EAGAIN | ECONNABORTED | EMFILE | ENFILE | Other_errno nat

datatype sys_result = Sys_ok nat | Sys_err errno

type_synonym transfer_kernel = "nat \<Rightarrow> nat \<Rightarrow> sys_result"

text \<open>A transfer ends having sent everything, or failed, with the error if a call reported one.\<close>

datatype transfer = Transfer_done | Transfer_failed "errno option"

text \<open>POSIX: a call never reports more bytes than it was offered.\<close>

definition never_more :: "transfer_kernel \<Rightarrow> bool" where
  "never_more k \<longleftrightarrow> (\<forall>i n r. k i n = Sys_ok r \<longrightarrow> r \<le> n)"

text \<open>From every call on, some call makes progress or fails for good.\<close>

definition responsive :: "transfer_kernel \<Rightarrow> bool" where
  "responsive k \<longleftrightarrow> (\<forall>i n. 0 < n \<longrightarrow> (\<exists>j\<ge>i. k j n \<noteq> Sys_ok 0 \<and> k j n \<noteq> Sys_err EINTR))"

definition no_hard_errors :: "transfer_kernel \<Rightarrow> bool" where
  "no_hard_errors k \<longleftrightarrow> (\<forall>i n e. k i n = Sys_err e \<longrightarrow> e = EINTR)"

locale transfer_loop =
  fixes loop :: "transfer_kernel \<Rightarrow> nat \<Rightarrow> string \<Rightarrow> nat \<Rightarrow> string list \<Rightarrow>
      (transfer \<times> string list \<times> nat) option"
    and stop_on_zero :: bool
  assumes step: "loop k i data sent out =
    (if sent < length data
     then (case k i (length data - sent) of
             Sys_err e \<Rightarrow>
               if e = EINTR then loop k (Suc i) data sent out
               else Some (Transfer_failed (Some e), out, Suc i)
           | Sys_ok r \<Rightarrow>
               if stop_on_zero \<and> r = 0 then Some (Transfer_failed None, out, Suc i)
               else loop k (Suc i) data (sent + r) (out @ [take r (drop sent data)]))
     else Some (Transfer_done, out, i))"
begin

text \<open>
  The loop returns; it is done exactly with all bytes sent in order, or it failed having
  sent a proper prefix.
\<close>

definition blame :: "transfer_kernel \<Rightarrow> transfer \<Rightarrow> bool" where
  "blame k t = (case t of Transfer_done \<Rightarrow> True
     | Transfer_failed (Some e) \<Rightarrow> e \<noteq> EINTR \<and> (\<exists>i n. k i n = Sys_err e)
     | Transfer_failed None \<Rightarrow> stop_on_zero \<and> (\<exists>i n. 0 < n \<and> k i n = Sys_ok 0))"

definition ends :: "transfer_kernel \<Rightarrow> string \<Rightarrow> nat \<Rightarrow> string list \<Rightarrow> (transfer \<times> string list \<times> nat) option \<Rightarrow> bool" where
  "ends k data sent out res \<longleftrightarrow> (\<exists>t chunks i. res = Some (t, out @ chunks, i) \<and> blame k t \<and>
     (if t = Transfer_done then concat chunks = drop sent data
      else (\<exists>m. sent + m < length data \<and> concat chunks = take m (drop sent data))))"

lemma ends_step:
  assumes "ends k data (sent + r) (out @ [take r (drop sent data)]) res" "sent + r \<le> length data"
  shows "ends k data sent out res"
proof -
  from assms(1) obtain t chunks i where res: "res = Some (t, out @ take r (drop sent data) # chunks, i)"
    and b: "blame k t" and c: "if t = Transfer_done then concat chunks = drop (sent + r) data
      else (\<exists>m. sent + r + m < length data \<and> concat chunks = take m (drop (sent + r) data))"
    by (auto simp: ends_def)
  have all: "take r (drop sent data) @ drop (sent + r) data = drop sent data"
    by (metis add.commute append_take_drop_id drop_drop)
  have part: "take r (drop sent data) @ take m (drop (sent + r) data) = take (r + m) (drop sent data)" for m
    using take_add [of r m "drop sent data"] by (simp add: add.commute [of sent])
  show ?thesis
  proof (cases "t = Transfer_done")
    case True
    with res b c all show ?thesis unfolding ends_def by force
  next
    case False
    with c obtain m where "sent + (r + m) < length data"
        "concat (take r (drop sent data) # chunks) = take (r + m) (drop sent data)"
      using part by (auto simp: add.assoc)
    with res b False show ?thesis unfolding ends_def by force
  qed
qed

text \<open>A call that makes progress, and one after which the loop tries again or gives up.\<close>

lemma ends_progress:
  assumes "k i (length data - sent) = Sys_ok r" "0 < r" "r \<le> length data - sent"
    and "ends k data (sent + r) (out @ [take r (drop sent data)]) (loop k (Suc i) data (sent + r) (out @ [take r (drop sent data)]))"
  shows "ends k data sent out (loop k i data sent out)"
proof -
  have "ends k data sent out (loop k (Suc i) data (sent + r) (out @ [take r (drop sent data)]))"
    using ends_step [OF assms(4)] assms(2,3) by simp
  moreover have "sent < length data" using assms(2,3) by simp
  ultimately show ?thesis using assms(1-3) by (subst step) simp
qed

lemma ends_retry:
  assumes "sent < length data" "k i (length data - sent) = Sys_ok 0 \<or> (\<exists>e. k i (length data - sent) = Sys_err e)"
    and again: "\<And>out. ends k data sent out (loop k (Suc i) data sent out)"
  shows "ends k data sent out (loop k i data sent out)"
proof (cases "k i (length data - sent)")
  case (Sys_err e)
  with assms(1) again [of out] show ?thesis
    by (subst step) (auto simp: ends_def blame_def intro: exI [of _ "[]"] exI [of _ 0])
next
  case (Sys_ok r)
  with assms(2) have zero: "r = 0" by auto
  have "ends k data sent out (loop k (Suc i) data sent (out @ [[]]))"
    using ends_step [of k data sent 0 out] again [of "out @ [[]]"] assms(1) by simp
  moreover have "\<exists>i n. 0 < n \<and> k i n = Sys_ok 0"
    using Sys_ok zero assms(1) by (intro exI [of _ i] exI [of _ "length data - sent"]) simp
  ultimately show ?thesis
    using assms(1) Sys_ok zero by (subst step) (auto simp: ends_def blame_def intro: exI [of _ "[]"] exI [of _ 0])
qed

lemma returns_from:
  assumes "never_more k" "responsive k" "sent \<le> length data"
  shows "ends k data sent out (loop k i data sent out)"
  using assms(3)
proof (induction "length data - sent" arbitrary: sent out i rule: less_induct)
  case less
  let ?n = "length data - sent"
  show ?case
  proof (cases "sent < length data")
    case False
    with less.prems have "drop sent data = []" by simp
    with False show ?thesis by (subst step) (auto simp: ends_def blame_def intro: exI [of _ "[]"])
  next
    case True
    have progress: "ends k data sent out (loop k i data sent out)" if "k i ?n = Sys_ok r" "r \<noteq> 0" for i r out
    proof -
      have r: "0 < r" "r \<le> ?n" using that assms(1) by (auto simp: never_more_def)
      show ?thesis by (rule ends_progress [where r = r], fact that(1), fact r(1), fact r(2), rule less.hyps) (use r True in auto)
    qed
    obtain j where j: "i \<le> j" "k j ?n \<noteq> Sys_ok 0" "k j ?n \<noteq> Sys_err EINTR"
      using assms(2) True unfolding responsive_def by (meson zero_less_diff)
    from j(1) show ?thesis
    proof (induction "j - i" arbitrary: i out)
      case 0
      with j(2,3) True progress [of j] show ?case
        by (cases "k j ?n") (auto, subst step, auto simp: ends_def blame_def intro: exI [of _ "[]"] exI [of _ 0])
    next
      case (Suc d)
      then have "ends k data sent out (loop k (Suc i) data sent out)" for out by simp
      with progress [of i] ends_retry [OF True, of k i] show ?case by (cases "k i ?n") auto
    qed
  qed
qed

lemma transfer_returns:
  assumes "never_more k" "responsive k"
  obtains t chunks i' where "loop k i data 0 [] = Some (t, chunks, i')"
    "t = Transfer_done \<Longrightarrow> concat chunks = data"
    "t \<noteq> Transfer_done \<Longrightarrow> \<exists>m<length data. concat chunks = take m data" "blame k t"
  using returns_from [OF assms, of 0 data "[]" i] unfolding ends_def by (auto split: if_splits)

lemma transfer_completes:
  assumes "never_more k" "responsive k" "no_hard_errors k"
    and "stop_on_zero \<Longrightarrow> \<forall>i n. 0 < n \<longrightarrow> k i n \<noteq> Sys_ok 0"
  obtains chunks i' where "loop k i data 0 [] = Some (Transfer_done, chunks, i')" "concat chunks = data"
proof -
  obtain t chunks i' where r: "loop k i data 0 [] = Some (t, chunks, i')" "blame k t"
      "t = Transfer_done \<Longrightarrow> concat chunks = data"
    using transfer_returns [OF assms(1,2), of i data] by blast
  have "t = Transfer_done"
    using r(2) assms(3,4) by (auto simp: blame_def no_hard_errors_def split: transfer.splits option.splits)
  with r show thesis by (auto intro: that)
qed

end

end
