(* ===== verification/VC_Persistence.thy ===== *)
theory VC_Persistence
  imports VC_Snapshot_Correct VC_Database_Keyspace VC_Sys
begin

text \<open>
  The class \<open>SnapshotStore\<close> of include/Persistence.h and src/Persistence.cpp: saving the
  database to a file through a temporary file, and loading it at startup.

  The answers of the kernel are arguments. What a save does to the disk is the list of its
  effects in order; a crash keeps a prefix of them. \<open>strerror\<close> is the function of the C
  library.
\<close>

section \<open>The disk\<close>

text \<open>\<open>f_synced\<close>: the content has reached the disk, so that a crash keeps it.\<close>

record disk_file =
  f_data :: string
  f_synced :: bool

type_synonym disk = "string \<Rightarrow> disk_file option"

datatype disk_event =
    Created string
  | Written string string
  | Flushed string
  | Renamed string string
  | Unlinked string

fun disk_step :: "disk_event \<Rightarrow> disk \<Rightarrow> disk" where
  "disk_step (Created p) d = d(p \<mapsto> \<lparr>f_data = '''', f_synced = False\<rparr>)"
| "disk_step (Written p bs) d =
     (case d p of None \<Rightarrow> d | Some f \<Rightarrow> d(p \<mapsto> \<lparr>f_data = f_data f @ bs, f_synced = False\<rparr>))"
| "disk_step (Flushed p) d = (case d p of None \<Rightarrow> d | Some f \<Rightarrow> d(p \<mapsto> f\<lparr>f_synced := True\<rparr>))"
| "disk_step (Renamed p q) d = (case d p of None \<Rightarrow> d | Some f \<Rightarrow> (d(p := None))(q \<mapsto> f))"
| "disk_step (Unlinked p) d = d(p := None)"

definition disk_after :: "disk_event list \<Rightarrow> disk \<Rightarrow> disk" where
  "disk_after evs d = fold disk_step evs d"

section \<open>Outcomes\<close>

record SaveOutcome =
  so_ok :: bool
  so_entriesWritten :: nat
  so_bytesWritten :: nat
  so_error :: string

datatype LoadStatus = Load_Loaded | Load_NotFound | Load_Failed

record LoadOutcome =
  lo_status :: LoadStatus
  lo_entriesLoaded :: nat
  lo_error :: string

definition default_SaveOutcome :: SaveOutcome where
  "default_SaveOutcome = \<lparr>so_ok = False, so_entriesWritten = 0, so_bytesWritten = 0, so_error = ''''\<rparr>"

definition default_LoadOutcome :: LoadOutcome where
  "default_LoadOutcome = \<lparr>lo_status = Load_NotFound, lo_entriesLoaded = 0, lo_error = ''''\<rparr>"

record store =
  ss_path :: string
  ss_saveCount :: nat

definition SnapshotStore :: "string \<Rightarrow> store" where
  "SnapshotStore path = \<lparr>ss_path = path, ss_saveCount = 0\<rparr>"

definition saveCount :: "store \<Rightarrow> nat" where
  "saveCount st = ss_saveCount st"

section \<open>File descriptors\<close>

abbreviation apostrophe :: char where "apostrophe \<equiv> CHR 0x27"

definition describeErrno :: "(errno \<Rightarrow> string) \<Rightarrow> string \<Rightarrow> string \<Rightarrow> errno \<Rightarrow> string" where
  "describeErrno strerror what path e = what @ '' '' @ [apostrophe] @ path @ [apostrophe] @ '': '' @ strerror e"

partial_function (option) writeAll ::
  "transfer_kernel \<Rightarrow> nat \<Rightarrow> string \<Rightarrow> nat \<Rightarrow> string list \<Rightarrow> (transfer \<times> string list \<times> nat) option" where
  "writeAll k i data written out =
     (if written < length data
      then (case k i (length data - written) of
              Sys_err e \<Rightarrow>
                if e = EINTR then writeAll k (Suc i) data written out
                else Some (Transfer_failed (Some e), out, Suc i)
            | Sys_ok result \<Rightarrow>
                writeAll k (Suc i) data (written + result) (out @ [take result (drop written data)]))
      else Some (Transfer_done, out, i))"

interpretation wr: transfer_loop writeAll False
  by unfold_locales (subst writeAll.simps, simp split: sys_result.split)

text \<open>
  \<open>content\<close> is the content of the open file, \<open>offset\<close> the file position. The kernel is asked for as
  many bytes as the buffer holds and the file has left; 0 is the end of the file.
\<close>

partial_function (option) readWholeFile ::
  "transfer_kernel \<Rightarrow> nat \<Rightarrow> string \<Rightarrow> nat \<Rightarrow> string \<Rightarrow> (errno + string) option" where
  "readWholeFile k i content offset out =
     (case k i (min (64 * 1024) (length content - offset)) of
        Sys_err e \<Rightarrow> if e = EINTR then readWholeFile k (Suc i) content offset out else Some (Inl e)
      | Sys_ok result \<Rightarrow>
          if result = 0 then Some (Inr out)
          else readWholeFile k (Suc i) content (offset + result) (out @ take result (drop offset content)))"

declare writeAll.simps [code] readWholeFile.simps [code]

section \<open>Saving\<close>

text \<open>The kernel's answers during a save: the error of a call, if it failed.\<close>

record save_io =
  si_open :: "errno option"
  si_write :: transfer_kernel
  si_fsync :: "errno option"
  si_rename :: "errno option"
  si_unlink :: "errno option"

text \<open>
  The clock readings: one per shard for \<open>Database::snapshot\<close>, one at the head of \<open>encode\<close>, and a
  pair for each entry with an expiry.
\<close>

record save_clock =
  sc_shards :: "nat \<Rightarrow> time_point"
  sc_now :: time_point
  sc_entries :: "nat \<Rightarrow> time_point \<times> int"

definition discard :: "save_io \<Rightarrow> string \<Rightarrow> disk_event list" where
  "discard io path = (if si_unlink io = None then [Unlinked path] else [])"

definition save_failed :: "string \<Rightarrow> SaveOutcome" where
  "save_failed err = default_SaveOutcome\<lparr>so_error := err\<rparr>"

definition tempPath :: "store \<Rightarrow> string" where
  "tempPath st = ss_path st @ ''.tmp''"

text \<open>
  \<open>errno_of\<close> is \<open>errno\<close> after \<open>writeAll\<close> returned false: the error of the call that failed.
\<close>

definition errno_of :: "errno option \<Rightarrow> errno" where
  "errno_of e = (case e of Some e \<Rightarrow> e | None \<Rightarrow> Other_errno 0)"

definition save_encoded :: "int \<Rightarrow> save_clock \<Rightarrow> database \<Rightarrow> string" where
  "save_encoded tick clk db = encode tick (sc_now clk) (sc_entries clk) (db_snapshot (sc_shards clk) db)"

text \<open>The file work, on the encoded entries and their number.\<close>

definition write_snapshot ::
  "(errno \<Rightarrow> string) \<Rightarrow> save_io \<Rightarrow> nat \<Rightarrow> string \<Rightarrow> store \<Rightarrow> (SaveOutcome \<times> store \<times> disk_event list) option" where
  "write_snapshot strerror io entries encoded st =
     (let temp = tempPath st in
      case si_open io of
        Some e \<Rightarrow> Some (save_failed (describeErrno strerror ''cannot open'' temp e), st, [])
      | None \<Rightarrow> do {
          (result, chunks, _) \<leftarrow> writeAll (si_write io) 0 encoded 0 [];
          let written = Created temp # map (Written temp) chunks;
          case result of
            Transfer_failed e \<Rightarrow>
              Some (save_failed (describeErrno strerror ''cannot write'' temp (errno_of e)), st,
                    written @ discard io temp)
          | Transfer_done \<Rightarrow>
              (case si_fsync io of
                 Some e \<Rightarrow>
                   Some (save_failed (describeErrno strerror ''cannot flush'' temp e), st,
                         written @ discard io temp)
               | None \<Rightarrow>
                   (case si_rename io of
                      Some e \<Rightarrow>
                        Some (save_failed (describeErrno strerror ''cannot replace'' (ss_path st) e), st,
                              written @ [Flushed temp] @ discard io temp)
                    | None \<Rightarrow>
                        Some (\<lparr>so_ok = True, so_entriesWritten = entries,
                               so_bytesWritten = length encoded, so_error = ''''\<rparr>,
                              st\<lparr>ss_saveCount := Suc (ss_saveCount st)\<rparr>,
                              written @ [Flushed temp, Renamed temp (ss_path st)])))
        })"

definition save ::
  "(errno \<Rightarrow> string) \<Rightarrow> save_io \<Rightarrow> int \<Rightarrow> save_clock \<Rightarrow> database \<Rightarrow> store \<Rightarrow>
     (SaveOutcome \<times> store \<times> disk_event list) option" where
  "save strerror io tick clk db st =
     (let entries = db_snapshot (sc_shards clk) db
      in write_snapshot strerror io (length entries) (save_encoded tick clk db) st)"

section \<open>Loading\<close>

text \<open>
  The kernel's answers during a load, and the clock readings: one at the head of the loop of \<open>decode\<close>,
  a pair for each entry with an expiry, and one in \<open>Database::restore\<close>.
\<close>

record load_io =
  li_open :: "errno option"
  li_read :: transfer_kernel

record load_clock =
  lc_now :: time_point
  lc_entries :: "nat \<Rightarrow> time_point \<times> int"
  lc_restore :: time_point

definition load_failed :: "string \<Rightarrow> LoadOutcome" where
  "load_failed err = default_LoadOutcome\<lparr>lo_status := Load_Failed, lo_error := err\<rparr>"

definition load ::
  "(errno \<Rightarrow> string) \<Rightarrow> load_io \<Rightarrow> int \<Rightarrow> load_clock \<Rightarrow> string \<Rightarrow> store \<Rightarrow> database \<Rightarrow>
     (LoadOutcome \<times> database) option" where
  "load strerror io tick clk content st db =
     (case li_open io of
        Some e \<Rightarrow>
          Some (if e = ENOENT then default_LoadOutcome
                else load_failed (describeErrno strerror ''cannot open'' (ss_path st) e), db)
      | None \<Rightarrow> do {
          result \<leftarrow> readWholeFile (li_read io) 0 content 0 '''';
          case result of
            Inl e \<Rightarrow> Some (load_failed (describeErrno strerror ''cannot read'' (ss_path st) e), db)
          | Inr data \<Rightarrow>
              (case decode tick (lc_now clk) (lc_entries clk) data of
                 Inl err \<Rightarrow> Some (load_failed err, db)
               | Inr entries \<Rightarrow>
                   (case db_restore (lc_restore clk) entries db of
                      (n, db') \<Rightarrow>
                        Some (\<lparr>lo_status = Load_Loaded, lo_entriesLoaded = n, lo_error = ''''\<rparr>, db')))
        })"

end
