(* ===== verification/VC_Persistence_Correct.thy ===== *)
theory VC_Persistence_Correct
  imports VC_Persistence
begin

text \<open>
  Lemmas on the snapshot store: what a sequence of disk effects leaves in a file, reading a
  file back whatever the sizes of the reads, and the keys of a reloaded snapshot.
\<close>

section \<open>Effects on one file\<close>

fun touches :: "string \<Rightarrow> disk_event \<Rightarrow> bool" where
  "touches p (Created q) \<longleftrightarrow> p = q"
| "touches p (Written q bs) \<longleftrightarrow> p = q"
| "touches p (Flushed q) \<longleftrightarrow> p = q"
| "touches p (Renamed q r) \<longleftrightarrow> p = q \<or> p = r"
| "touches p (Unlinked q) \<longleftrightarrow> p = q"

lemma disk_step_other: "\<not> touches p ev \<Longrightarrow> disk_step ev d p = d p"
  by (cases ev) (auto split: option.splits)

lemma disk_after_other: "list_all (\<lambda>ev. \<not> touches p ev) evs \<Longrightarrow> disk_after evs d p = d p"
  by (induction evs arbitrary: d) (simp_all add: disk_after_def disk_step_other)

lemma disk_after_append: "disk_after (xs @ ys) d = disk_after ys (disk_after xs d)"
  by (simp add: disk_after_def)

lemma disk_after_written:
  "d p = Some \<lparr>f_data = b, f_synced = False\<rparr> \<Longrightarrow>
   disk_after (map (Written p) chunks) d p = Some \<lparr>f_data = b @ concat chunks, f_synced = False\<rparr>"
  by (induction chunks arbitrary: d b) (simp_all add: disk_after_def)

lemma disk_after_create:
  "disk_after (Created p # map (Written p) chunks) d p = Some \<lparr>f_data = concat chunks, f_synced = False\<rparr>"
  using disk_after_written [of "d(p \<mapsto> \<lparr>f_data = '''', f_synced = False\<rparr>)" p "''''" chunks]
  by (simp add: disk_after_def)

lemma disk_after_publish:
  assumes "p \<noteq> q"
  shows "disk_after (Created p # map (Written p) chunks @ [Flushed p, Renamed p q]) d q =
    Some \<lparr>f_data = concat chunks, f_synced = True\<rparr>"
  using disk_after_create [of p chunks d] assms
    disk_after_append [of "Created p # map (Written p) chunks" "[Flushed p, Renamed p q]" d]
  by (simp add: disk_after_def)

text \<open>A sequence that only works on other files, and then publishes one under the name.\<close>

lemma atomic_publish:
  assumes "list_all (\<lambda>ev. \<not> touches q ev) body"
  shows "disk_after (take n (body @ [ev])) d q \<in> {d q, disk_after (body @ [ev]) d q}"
proof (cases "n \<le> length body")
  case True
  have "list_all (\<lambda>ev. \<not> touches q ev) (take n body)"
    using assms by (auto simp: list_all_iff dest: in_set_takeD)
  with True show ?thesis by (simp add: disk_after_other)
next
  case False
  then show ?thesis by simp
qed

lemma tempPath_distinct [simp]: "tempPath st \<noteq> ss_path st" "ss_path st \<noteq> tempPath st"
  by (simp_all add: tempPath_def)

lemma discard_touches: "list_all (\<lambda>ev. \<not> touches p ev) (discard io q)" if "p \<noteq> q"
  using that by (simp add: discard_def)

section \<open>Reading a file\<close>

text \<open>
  POSIX \<open>read\<close> on a regular file: no more bytes than asked for, 0 only at the end, and not
  interrupted for ever.
\<close>

definition reads_file :: "transfer_kernel \<Rightarrow> bool" where
  "reads_file k \<longleftrightarrow> never_more k \<and> (\<forall>i n. 0 < n \<longrightarrow> k i n \<noteq> Sys_ok 0) \<and>
     (\<forall>i n. \<exists>j\<ge>i. k j n \<noteq> Sys_err EINTR)"

lemma readWholeFile_from:
  assumes "reads_file k" "no_hard_errors k" "offset \<le> length content"
  shows "readWholeFile k i content offset out = Some (Inr (out @ drop offset content))"
  using assms(3)
proof (induction "length content - offset" arbitrary: offset out i rule: less_induct)
  case less
  note IH = less.hyps and le = less.prems
  let ?n = "min (64 * 1024) (length content - offset)"
  obtain j where j: "i \<le> j" "k j ?n \<noteq> Sys_err EINTR"
    using assms(1) unfolding reads_file_def by blast
  have step: "readWholeFile k i content offset out = Some (Inr (out @ drop offset content))"
    if r: "k i ?n = Sys_ok r" for i r
  proof (cases "r = 0")
    case True
    then have "length content - offset = 0" using r assms(1) unfolding reads_file_def
      by (metis gr0I min_def zero_neq_numeral mult_is_0)
    with True r show ?thesis by (subst readWholeFile.simps) simp
  next
    case False
    then have b: "0 < r" "r \<le> length content - offset"
      using r assms(1) unfolding reads_file_def never_more_def by fastforce+
    have "readWholeFile k (Suc i) content (offset + r) (out @ take r (drop offset content)) =
        Some (Inr ((out @ take r (drop offset content)) @ drop (offset + r) content))"
      using b le by (intro IH) auto
    moreover have "take r (drop offset content) @ drop (offset + r) content = drop offset content"
      by (metis add.commute append_take_drop_id drop_drop)
    ultimately show ?thesis using False r by (subst readWholeFile.simps) simp
  qed
  from j(1) show ?case
  proof (induction "j - i" arbitrary: i)
    case 0
    then have "i = j" by simp
    with j(2) assms(2) obtain r where "k i ?n = Sys_ok r"
      unfolding no_hard_errors_def by (metis sys_result.exhaust)
    then show ?case by (rule step)
  next
    case (Suc d)
    show ?case
    proof (cases "k i ?n")
      case (Sys_ok r)
      then show ?thesis by (rule step)
    next
      case (Sys_err e)
      then have "e = EINTR" using assms(2) unfolding no_hard_errors_def by blast
      moreover have "readWholeFile k (Suc i) content offset out = Some (Inr (out @ drop offset content))"
        using Suc by simp
      ultimately show ?thesis using Sys_err by (subst readWholeFile.simps) simp
    qed
  qed
qed

lemma readWholeFile_correct:
  assumes "reads_file k" "no_hard_errors k"
  shows "readWholeFile k 0 content 0 '''' = Some (Inr content)"
  using readWholeFile_from [OF assms, of 0 content 0 "''''"] by simp

lemma readWholeFile_returns:
  assumes "reads_file k" "offset \<le> length content"
  shows "\<exists>r. readWholeFile k i content offset out = Some r"
  using assms(2)
proof (induction "length content - offset" arbitrary: offset out i rule: less_induct)
  case less
  let ?n = "min (64 * 1024) (length content - offset)"
  obtain j where j: "i \<le> j" "k j ?n \<noteq> Sys_err EINTR" using assms(1) unfolding reads_file_def by blast
  have now: "\<exists>r. readWholeFile k i content offset out = Some r" if "k i ?n \<noteq> Sys_err EINTR" for i
  proof (cases "k i ?n")
    case (Sys_ok r)
    then have "r \<le> ?n" using assms(1) unfolding reads_file_def never_more_def by blast
    then have "r \<noteq> 0 \<Longrightarrow> \<exists>r'. readWholeFile k (Suc i) content (offset + r) (out @ take r (drop offset content)) = Some r'"
      using less.prems by (intro less.hyps) auto
    with Sys_ok show ?thesis by (subst readWholeFile.simps) auto
  next
    case (Sys_err e)
    with that show ?thesis by (subst readWholeFile.simps) auto
  qed
  from j show ?case
  proof (induction rule: inc_induct)
    case base
    then show ?case by (rule now)
  next
    case (step i)
    then show ?case using now [of i]
      by (cases "k i ?n = Sys_err EINTR") (subst readWholeFile.simps, simp_all)
  qed
qed

section \<open>The reloaded keyspace\<close>

lemma reload_entry_key: "e' \<in> set (reload_entry tick now clk clk' e) \<Longrightarrow> e_key e' = e_key e"
  by (auto simp: reload_entry_def split: option.splits if_splits)

lemma reload_entry_length: "length (reload_entry tick now clk clk' e) \<le> 1"
  by (auto simp: reload_entry_def split: option.splits)

lemma set_reload:
  "set (reload tick now clks clks' i es) =
   (\<Union>j<length es. set (reload_entry tick now (clks (i + j)) (clks' (i + j)) (es ! j)))"
proof (induction es arbitrary: i)
  case (Cons e es)
  show ?case by (simp add: Cons.IH lessThan_Suc_eq_insert_0 image_image)
qed simp

lemma reload_keys: "e' \<in> set (reload tick now clks clks' i es) \<Longrightarrow> e_key e' \<in> e_key ` set es"
  by (induction es arbitrary: i) (auto dest: reload_entry_key)

lemma reload_distinct:
  "distinct (map e_key es) \<Longrightarrow> distinct (map e_key (reload tick now clks clks' i es))"
proof (induction es arbitrary: i)
  case (Cons e es)
  have "distinct (map e_key (reload_entry tick now (clks i) (clks' i) e))"
    by (auto simp: reload_entry_def split: option.splits)
  moreover have "e_key x \<noteq> e_key y" if "x \<in> set (reload_entry tick now (clks i) (clks' i) e)"
      "y \<in> set (reload tick now clks clks' (Suc i) es)" for x y
    using reload_entry_key [OF that(1)] reload_keys [OF that(2)] Cons.prems by auto
  ultimately show ?case using Cons by auto
qed simp

lemma restored_iff:
  assumes "distinct (map e_key es)"
  shows "restored now es k = Some e \<longleftrightarrow> e \<in> set es \<and> \<not> isExpiredAt now e \<and> e_key e = k"
proof -
  have "distinct (map e_key (filter (\<lambda>e. \<not> isExpiredAt now e) es))" using assms by (rule distinct_map_filter)
  then have "distinct (map e_key (rev (filter (\<lambda>e. \<not> isExpiredAt now e) es)))" by (simp add: rev_map [symmetric])
  then show ?thesis unfolding restored_def by (subst lru_find_iff) auto
qed

end
