(* ===== verification/VC_Persistence_Props.thy ===== *)
theory VC_Persistence_Props
  imports VC_Persistence_Correct VC_Database_Props
begin

text \<open>
  The properties of snapshots: the format and its decoder, saves that survive a crash at any
  point, loads that are all or nothing, and the keyspace after a save and a load.
\<close>

section \<open>Shape of a save\<close>

text \<open>
  A save that returns did its work on the temporary file only, and published the encoded
  snapshot last if it succeeded.
\<close>

definition posix_write :: "transfer_kernel \<Rightarrow> bool" where
  "posix_write k \<longleftrightarrow> never_more k \<and> responsive k"

definition only_temp :: "store \<Rightarrow> disk_event list \<Rightarrow> bool" where
  "only_temp st body \<longleftrightarrow> list_all (\<lambda>ev. \<forall>p. p \<noteq> tempPath st \<longrightarrow> \<not> touches p ev) body"

definition save_result ::
  "string \<Rightarrow> nat \<Rightarrow> store \<Rightarrow> SaveOutcome \<times> store \<times> disk_event list \<Rightarrow> bool" where
  "save_result encoded n st res \<longleftrightarrow> (case res of (outcome, st', evs) \<Rightarrow>
     if so_ok outcome
     then outcome = \<lparr>so_ok = True, so_entriesWritten = n, so_bytesWritten = length encoded, so_error = ''''\<rparr> \<and>
       st' = st\<lparr>ss_saveCount := Suc (ss_saveCount st)\<rparr> \<and>
       (\<exists>chunks. concat chunks = encoded \<and>
         evs = (Created (tempPath st) # map (Written (tempPath st)) chunks @ [Flushed (tempPath st)]) @
           [Renamed (tempPath st) (ss_path st)])
     else st' = st \<and> only_temp st evs \<and> so_error outcome \<noteq> '''')"

lemma only_temp_simps [simp]:
  "only_temp st []"
  "only_temp st (xs @ ys) \<longleftrightarrow> only_temp st xs \<and> only_temp st ys"
  "only_temp st (Created (tempPath st) # xs) \<longleftrightarrow> only_temp st xs"
  "only_temp st (Flushed (tempPath st) # xs) \<longleftrightarrow> only_temp st xs"
  "only_temp st (map (Written (tempPath st)) chunks)"
  "only_temp st (discard io (tempPath st))"
  by (auto simp: only_temp_def discard_def list_all_iff)

lemma save_result_failed [simp]:
  "save_result encoded n st (save_failed err, st', evs) \<longleftrightarrow> st' = st \<and> only_temp st evs \<and> err \<noteq> ''''"
  by (simp add: save_result_def save_failed_def default_SaveOutcome_def)

lemma write_snapshot_result:
  assumes "posix_write (si_write io)"
  shows "\<exists>res. write_snapshot strerror io n enc st = Some res \<and> save_result enc n st res"
proof -
  have nm: "never_more (si_write io)" and rs: "responsive (si_write io)" using assms by (simp_all add: posix_write_def)
  obtain t chunks i' where w: "writeAll (si_write io) 0 enc 0 [] = Some (t, chunks, i')"
      "t = Transfer_done \<Longrightarrow> concat chunks = enc"
    using wr.transfer_returns [OF nm rs, of 0 enc] by metis
  have err: "describeErrno strerror (c # what) path e \<noteq> ''''" for c what path e
    by (simp add: describeErrno_def)
  show ?thesis
    using w by (auto simp: write_snapshot_def Let_def err save_result_def [of _ _ _ "(\<lparr>so_ok = True, so_entriesWritten = _, so_bytesWritten = _, so_error = _\<rparr>, _)"]
        split: option.split transfer.split)
qed

lemma save_returns_result:
  assumes "posix_write (si_write io)"
  shows "\<exists>res. save strerror io tick clk db st = Some res \<and>
    save_result (save_encoded tick clk db) (length (db_snapshot (sc_shards clk) db)) st res"
  using write_snapshot_result [OF assms] by (simp add: save_def)

lemma save_completes:
  assumes "posix_write (si_write io)" "no_hard_errors (si_write io)"
    "si_open io = None" "si_fsync io = None" "si_rename io = None"
  shows "\<exists>outcome st' evs. save strerror io tick clk db st = Some (outcome, st', evs) \<and> so_ok outcome"
proof -
  have nm: "never_more (si_write io)" and rs: "responsive (si_write io)" using assms by (simp_all add: posix_write_def)
  obtain chunks i' where "writeAll (si_write io) 0 (save_encoded tick clk db) 0 [] = Some (Transfer_done, chunks, i')"
    using wr.transfer_completes [OF nm rs assms(2), of 0 "save_encoded tick clk db"] by blast
  with assms show ?thesis by (simp add: save_def write_snapshot_def Let_def)
qed

lemma save_result_path:
  assumes "save_result encoded n st (outcome, st', evs)"
  shows "disk_after (take m evs) d (ss_path st) \<in> {d (ss_path st), Some \<lparr>f_data = encoded, f_synced = True\<rparr>}"
    and "disk_after evs d (ss_path st) =
      (if so_ok outcome then Some \<lparr>f_data = encoded, f_synced = True\<rparr> else d (ss_path st))"
    and "p \<notin> {ss_path st, tempPath st} \<Longrightarrow> disk_after evs d p = d p"
proof -
  have other: "list_all (\<lambda>ev. \<not> touches p ev) xs" if "only_temp st xs" "p \<noteq> tempPath st" for xs p
    using that by (auto simp: only_temp_def list_all_iff)
  have "disk_after (take m evs) d (ss_path st) \<in> {d (ss_path st), Some \<lparr>f_data = encoded, f_synced = True\<rparr>} \<and>
      disk_after evs d (ss_path st) =
        (if so_ok outcome then Some \<lparr>f_data = encoded, f_synced = True\<rparr> else d (ss_path st)) \<and>
      (p \<notin> {ss_path st, tempPath st} \<longrightarrow> disk_after evs d p = d p)"
  proof (cases "so_ok outcome")
    case True
    then obtain chunks body where b: "concat chunks = encoded" "evs = body @ [Renamed (tempPath st) (ss_path st)]"
        "body = Created (tempPath st) # map (Written (tempPath st)) chunks @ [Flushed (tempPath st)]"
      using assms by (auto simp: save_result_def)
    have o: "only_temp st body" by (simp add: b(3))
    have "disk_after evs d (ss_path st) = Some \<lparr>f_data = encoded, f_synced = True\<rparr>"
      using disk_after_publish [of "tempPath st" "ss_path st" chunks d] b by simp
    with atomic_publish [OF other [OF o], of "ss_path st" m "Renamed (tempPath st) (ss_path st)" d] b(2)
      other [OF o, of p] True show ?thesis by (auto intro!: disk_after_other)
  next
    case False
    then have o: "only_temp st evs" using assms by (simp add: save_result_def)
    have "only_temp st (take m evs)" using o by (auto simp: only_temp_def list_all_iff dest: in_set_takeD)
    from False other [OF o] other [OF this] show ?thesis by (auto simp: disk_after_other)
  qed
  then show "disk_after (take m evs) d (ss_path st) \<in> {d (ss_path st), Some \<lparr>f_data = encoded, f_synced = True\<rparr>}"
    "disk_after evs d (ss_path st) =
      (if so_ok outcome then Some \<lparr>f_data = encoded, f_synced = True\<rparr> else d (ss_path st))"
    "p \<notin> {ss_path st, tempPath st} \<Longrightarrow> disk_after evs d p = d p" by blast+
qed

section \<open>Entries across a save and a load\<close>

text \<open>
  The clock readings of a save or a load agree: each system reading is the steady one plus the
  offset \<open>C\<close> of that run, in whole ticks.
\<close>

definition clocks_agree :: "int \<Rightarrow> int \<Rightarrow> (nat \<Rightarrow> time_point \<times> int) \<Rightarrow> bool" where
  "clocks_agree tick C clks \<longleftrightarrow> (\<forall>i. snd (clks i) = sys_reading tick C (fst (clks i)))"

text \<open>
  An entry and what a lookup finds for its key after the restart. \<open>C\<close> and \<open>C'\<close> place the steady
  clocks of the two runs on the wall clock; the load has read its clock up to \<open>T\<close>.
\<close>

definition carried_over :: "int \<Rightarrow> int \<Rightarrow> int \<Rightarrow> time_point \<Rightarrow> entry \<Rightarrow> entry option \<Rightarrow> bool" where
  "carried_over tick C C' T e found \<longleftrightarrow>
     (case e_expiration e of
        None \<Rightarrow> found = Some e
      | Some t \<Rightarrow>
          (case found of
             None \<Rightarrow> t + C < T + C' + 1000000 + 2 * tick
           | Some e' \<Rightarrow> (\<exists>t'. e' = e\<lparr>e_expiration := Some t'\<rparr> \<and>
               t + C - 1000000 - 2 * tick < t' + C' \<and> t' + C' < t + C + 2 * tick)))"

definition first_opt :: "'a list \<Rightarrow> 'a option" where
  "first_opt xs = (case xs of [] \<Rightarrow> None | x # _ \<Rightarrow> Some x)"

lemma reload_entry_carried_over:
  assumes "0 < tick" "tick dvd 1000000" "encodable_entry tick clk e"
    and "snd clk = sys_reading tick C (fst clk)" "snd clk' = sys_reading tick C' (fst clk')"
    and "fst clk' \<le> T" "now \<le> T" "later \<le> T"
  shows "carried_over tick C C' T e
    (first_opt (filter (\<lambda>e. \<not> isExpiredAt later e) (reload_entry tick now clk clk' e)))"
proof (cases "e_expiration e")
  case None
  then show ?thesis by (simp add: carried_over_def reload_entry_def first_opt_def)
next
  case (Some t)
  define m where "m = toWallClockMillis tick clk t"
  have clk: "clk = (fst clk, sys_reading tick C (fst clk))" "clk' = (fst clk', sys_reading tick C' (fst clk'))"
    using assms(4,5) by (metis prod.collapse)+
  have "0 < m" using assms(3) Some by (simp add: encodable_entry_def m_def)
  then have m: "t + C - 1000000 - 2 * tick < m * 1000000" "m * 1000000 < t + C + tick"
    using toWallClockMillis_bounds [OF assms(1,2), of "fst clk" C t] clk(1) m_def by auto
  have f: "case fromWallClockMillis tick clk' m of
      None \<Rightarrow> m * 1000000 \<le> fst clk' + C'
    | Some t \<Rightarrow> m * 1000000 \<le> t + C' \<and> t + C' < m * 1000000 + tick"
    using fromWallClockMillis_bounds [OF assms(1,2), where s = "fst clk'" and C = C' and m = m] clk(2) by simp
  show ?thesis
  proof (cases "fromWallClockMillis tick clk' m")
    case None
    with f Some m assms(6) show ?thesis
      by (simp add: carried_over_def reload_entry_def first_opt_def m_def [symmetric])
  next
    case (Some t')
    with f m assms(1,7,8) \<open>e_expiration e = Some t\<close> show ?thesis
      by (auto simp: carried_over_def reload_entry_def first_opt_def m_def [symmetric])
  qed
qed

lemma encodable_nth: "encodable tick clks i es \<Longrightarrow> j < length es \<Longrightarrow> encodable_entry tick (clks (i + j)) (es ! j)"
proof (induction es arbitrary: i j)
  case (Cons e es)
  then show ?case by (cases j) (auto dest: Cons.IH)
qed simp

lemma reloaded_lookup:
  assumes "distinct (map e_key es)" "j < length es"
  shows "restored later (reload tick now clks clks' 0 es) (e_key (es ! j)) =
    first_opt (filter (\<lambda>e. \<not> isExpiredAt later e) (reload_entry tick now (clks j) (clks' j) (es ! j)))"
proof -
  let ?r = "reload tick now clks clks' 0 es" and ?one = "reload_entry tick now (clks j) (clks' j) (es ! j)"
  have mem: "e \<in> set ?r \<and> e_key e = e_key (es ! j) \<longleftrightarrow> e \<in> set ?one" for e
  proof
    assume e: "e \<in> set ?r \<and> e_key e = e_key (es ! j)"
    then obtain i where i: "i < length es" "e \<in> set (reload_entry tick now (clks i) (clks' i) (es ! i))"
      by (auto simp: set_reload)
    then have "map e_key es ! i = map e_key es ! j" using reload_entry_key [OF i(2)] e assms(2) by simp
    then have "i = j" using assms i(1) nth_eq_iff_index_eq [of "map e_key es" i j] by simp
    with i show "e \<in> set ?one" by simp
  next
    assume "e \<in> set ?one"
    with assms(2) reload_entry_key show "e \<in> set ?r \<and> e_key e = e_key (es ! j)" by (auto simp: set_reload)
  qed
  have "restored later ?r (e_key (es ! j)) = Some e \<longleftrightarrow> e \<in> set (filter (\<lambda>e. \<not> isExpiredAt later e) ?one)" for e
    using mem [of e] by (simp add: restored_iff [OF reload_distinct [OF assms(1)]]) blast
  moreover have "length (filter (\<lambda>e. \<not> isExpiredAt later e) ?one) \<le> 1"
    using reload_entry_length length_filter_le order_trans by metis
  then have "e \<in> set (filter (\<lambda>e. \<not> isExpiredAt later e) ?one) \<longleftrightarrow>
      first_opt (filter (\<lambda>e. \<not> isExpiredAt later e) ?one) = Some e" for e
    by (cases "filter (\<lambda>e. \<not> isExpiredAt later e) ?one") (auto simp: first_opt_def)
  ultimately show ?thesis by (metis option.exhaust)
qed

lemma reloaded_absent:
  assumes "k \<notin> e_key ` set es"
  shows "restored later (reload tick now clks clks' i es) k = None"
proof -
  have "k \<notin> e_key ` set (rev (filter (\<lambda>e. \<not> isExpiredAt later e) (reload tick now clks clks' i es)))"
    using assms reload_keys by fastforce
  then show ?thesis unfolding restored_def by (simp add: lru_find_None)
qed

lemma loaded_lookup:
  assumes inv: "db_inv db" and tick: "0 < tick" "tick dvd 1000000"
    and live: "live = filter (\<lambda>e. \<not> isExpiredAt (sc_now sc) e) (db_snapshot (sc_shards sc) db)"
    and enc: "encodable tick (sc_entries sc) 0 live"
    and agree: "clocks_agree tick C (sc_entries sc)" "clocks_agree tick C' (lc_entries lc)"
    and saved: "\<forall>j. sc_shards sc j \<le> S" "sc_now sc \<le> S"
    and loaded: "\<forall>j. fst (lc_entries lc j) \<le> T" "lc_now lc \<le> T" "lc_restore lc \<le> T"
  defines "found \<equiv> restored (lc_restore lc) (reload tick (lc_now lc) (sc_entries sc) (lc_entries lc) 0 live)"
  shows "case db_lookup db k of
      None \<Rightarrow> found k = None
    | Some e \<Rightarrow> (isExpiredAt S e \<and> found k = None) \<or> carried_over tick C C' T e (found k)"
proof -
  have mem: "e \<in> set live \<longleftrightarrow> db_lookup db (e_key e) = Some e \<and>
      \<not> isExpiredAt (sc_shards sc (shardIndexFor db (e_key e))) e \<and> \<not> isExpiredAt (sc_now sc) e" for e
    using db_snapshot_set [OF inv, of e "sc_shards sc"] by (auto simp: live db_live_Some)
  have d: "distinct (map e_key live)"
    unfolding live using db_keys_distinct [OF inv, of "sc_shards sc"] unfolding db_keys_snapshot
    by (rule distinct_map_filter)
  show ?thesis
  proof (cases "k \<in> e_key ` set live")
    case True
    then obtain j where j: "j < length live" "k = e_key (live ! j)" by (auto simp: in_set_conv_nth)
    have e: "db_lookup db k = Some (live ! j)" using mem [of "live ! j"] j by simp
    have "found k = first_opt (filter (\<lambda>e. \<not> isExpiredAt (lc_restore lc) e)
        (reload_entry tick (lc_now lc) (sc_entries sc j) (lc_entries lc j) (live ! j)))"
      unfolding found_def j(2) by (rule reloaded_lookup [OF d j(1)])
    moreover have "encodable_entry tick (sc_entries sc j) (live ! j)" using encodable_nth [OF enc j(1)] by simp
    ultimately have "carried_over tick C C' T (live ! j) (found k)"
      using reload_entry_carried_over [OF tick] agree loaded by (simp add: clocks_agree_def)
    with e show ?thesis by simp
  next
    case False
    then have no: "found k = None" unfolding found_def by (rule reloaded_absent)
    have "isExpiredAt S e" if "db_lookup db k = Some e" for e
    proof -
      have "e_key e = k" using db_lookup_key [OF inv that] .
      with False have "e \<notin> set live" by blast
      with mem [of e] that \<open>e_key e = k\<close> show ?thesis using saved isExpiredAt_mono by blast
    qed
    with no show ?thesis by (simp split: option.split)
  qed
qed

lemma load_returns:
  assumes "reads_file (li_read io)"
  shows "\<exists>outcome db'. load strerror io tick clk content st db = Some (outcome, db') \<and>
    (lo_status outcome = Load_Failed \<longrightarrow> db' = db)"
proof -
  obtain r where "readWholeFile (li_read io) 0 content 0 '''' = Some r"
    using readWholeFile_returns [OF assms, of 0 content] by blast
  then show ?thesis
    by (auto simp: load_def load_failed_def default_LoadOutcome_def split: option.splits sum.splits prod.splits)
qed

section \<open>A kernel for the examples\<close>

text \<open>Interrupted at first, then transferring at most three bytes a call.\<close>

definition slow_kernel :: transfer_kernel where
  "slow_kernel i n = (if i < 2 then Sys_err EINTR else Sys_ok (min n 3))"

definition io_example :: save_io where
  "io_example = \<lparr>si_open = None, si_write = slow_kernel, si_fsync = None, si_rename = None, si_unlink = None\<rparr>"

definition clock_example :: save_clock where
  "clock_example = \<lparr>sc_shards = (\<lambda>_. 7), sc_now = 7, sc_entries = (\<lambda>_. (8, 5000008))\<rparr>"

lemma slow_kernel_posix:
  "never_more slow_kernel" "responsive slow_kernel" "no_hard_errors slow_kernel" "reads_file slow_kernel"
proof -
  have later: "\<exists>j\<ge>i. \<not> j < 2" for i :: nat by (rule exI [of _ "i + 2"]) simp
  show "never_more slow_kernel" "no_hard_errors slow_kernel"
    by (auto simp: slow_kernel_def never_more_def no_hard_errors_def)
  then show "responsive slow_kernel" "reads_file slow_kernel"
    using later by (auto simp: slow_kernel_def responsive_def reads_file_def)
qed

lemma io_example_write [simp]: "posix_write (si_write io_example)" "no_hard_errors (si_write io_example)"
  by (simp_all add: io_example_def posix_write_def slow_kernel_posix)

section \<open>Properties\<close>

text \<open>
  The decoder reads back what the encoder wrote: the entries live when it was written, in
  order, with the same keys and values; those with an expiry get it on the clock of the
  reader, or are dropped when it has passed.
\<close>

theorem snapshot_roundtrip:
  assumes "live = filter (\<lambda>e. \<not> isExpiredAt now e) entries"
    and "encodable tick clks 0 live" "length live < 2 ^ 64"
  shows "decode tick now' clks' (encode tick now clks entries) = Inr (reload tick now' clks clks' 0 live)"
  using assms by (rule decode_encode)

theorem snapshot_roundtrip_witness:
  "decode 1 50 (\<lambda>_. (50, 2000050)) (encode 1 7 (\<lambda>_. (8, 1000008))
     [Entry ''a'' ''x'', (Entry ''b'' ''y'')\<lparr>e_expiration := Some 9000000\<rparr>,
      (Entry ''c'' ''z'')\<lparr>e_expiration := Some 6\<rparr>, (Entry ''d'' '''')\<lparr>e_expiration := Some 999999\<rparr>]) =
   Inr [Entry ''a'' ''x'', (Entry ''b'' ''y'')\<lparr>e_expiration := Some 8000000\<rparr>]"
  by (subst snapshot_roundtrip [OF refl])
    (simp_all add: isExpiredAt_def encodable_entry_def kMaxFieldLength_def toWallClockMillis_def trunc_div_def
      reload_entry_def fromWallClockMillis_def)

text \<open>
  C28. Corruption is detected: change one byte of a file the decoder accepts, anywhere in it,
  and it is refused, on every later reading.
\<close>

theorem decode_detects_corruption:
  assumes "decode tick now clks data = Inr es" "i < length data" "c \<noteq> data ! i"
  shows "\<exists>err. decode tick' now' clks' (data[i := c]) = Inl err"
  using assms by (rule decode_byte_changed)

theorem decode_detects_corruption_witness:
  "\<exists>err. decode 1 0 (\<lambda>_. (0, 0)) ((encode 1 0 (\<lambda>_. (0, 0)) [])[6 := CHR ''2'']) = Inl err"
proof (rule decode_detects_corruption)
  show "decode 1 0 (\<lambda>_. (0, 0)) (encode 1 0 (\<lambda>_. (0, 0)) []) = Inr []"
    using decode_encode [of "[]" 0 "[]" 1 "\<lambda>_. (0, 0)"] by simp
  show "6 < length (encode 1 0 (\<lambda>_. (0, 0)) [])" "CHR ''2'' \<noteq> encode 1 0 (\<lambda>_. (0, 0)) [] ! 6"
    by (simp_all add: encode_def kMagic_def kFormatVersion_def appendLE_def upt_rec Let_def char_of_def)
qed

text \<open>
  C4. A save returns whatever the sizes of the writes, and it is atomic on the disk: after every
  prefix of its effects, that is after a crash at any point, the snapshot file is the one
  from before or the complete and flushed new one. It is the new one exactly when the
  save reports success; a failed save leaves the file alone, says why, and is not counted. No
  file but the snapshot and its temporary file is affected.
\<close>

theorem save_crash_safe:
  assumes "posix_write (si_write io)"
  shows "\<exists>outcome st' evs. save strerror io tick clk db st = Some (outcome, st', evs) \<and>
    (\<forall>n. disk_after (take n evs) d (ss_path st) \<in>
       {d (ss_path st), Some \<lparr>f_data = save_encoded tick clk db, f_synced = True\<rparr>}) \<and>
    disk_after evs d (ss_path st) =
      (if so_ok outcome then Some \<lparr>f_data = save_encoded tick clk db, f_synced = True\<rparr> else d (ss_path st)) \<and>
    (\<forall>p. p \<notin> {ss_path st, tempPath st} \<longrightarrow> disk_after evs d p = d p) \<and>
    saveCount st' = saveCount st + (if so_ok outcome then 1 else 0) \<and>
    (so_ok outcome \<longleftrightarrow> so_error outcome = '''')"
proof -
  obtain outcome st' evs where s: "save strerror io tick clk db st = Some (outcome, st', evs)"
      "save_result (save_encoded tick clk db) (length (db_snapshot (sc_shards clk) db)) st (outcome, st', evs)"
    using save_returns_result [OF assms] by force
  have "saveCount st' = saveCount st + (if so_ok outcome then 1 else 0)"
      "so_ok outcome \<longleftrightarrow> so_error outcome = ''''"
    using s(2) by (auto simp: save_result_def saveCount_def split: if_splits)
  with s(1) save_result_path [OF s(2)] show ?thesis by blast
qed

theorem save_crash_safe_witness:
  "\<exists>outcome st' evs. save (\<lambda>_. ''no space'') (io_example\<lparr>si_fsync := Some (Other_errno 28)\<rparr>) 1 clock_example db0
      (SnapshotStore ''vcache.snapshot'') = Some (outcome, st', evs) \<and>
    (\<forall>n. disk_after (take n evs) Map.empty ''vcache.snapshot'' \<in>
       {None, Some \<lparr>f_data = save_encoded 1 clock_example db0, f_synced = True\<rparr>})"
  using save_crash_safe [of "io_example\<lparr>si_fsync := Some (Other_errno 28)\<rparr>" "\<lambda>_. ''no space''" 1 clock_example db0
      "SnapshotStore ''vcache.snapshot''" Map.empty]
  by (auto simp: io_example_write SnapshotStore_def)

text \<open>
  A save succeeds when no call fails for good: the outcome counts the entries and
  bytes, however the kernel splits the writes.
\<close>

theorem save_succeeds:
  assumes "posix_write (si_write io)" "no_hard_errors (si_write io)"
    and "si_open io = None" "si_fsync io = None" "si_rename io = None"
  shows "\<exists>evs. save strerror io tick clk db st =
    Some (\<lparr>so_ok = True, so_entriesWritten = length (db_snapshot (sc_shards clk) db),
           so_bytesWritten = length (save_encoded tick clk db), so_error = ''''\<rparr>,
          st\<lparr>ss_saveCount := Suc (ss_saveCount st)\<rparr>, evs)"
proof -
  obtain outcome st' evs where s: "save strerror io tick clk db st = Some (outcome, st', evs)" "so_ok outcome"
    using save_completes [OF assms] by blast
  with save_returns_result [OF assms(1), of strerror tick clk db st] show ?thesis
    by (auto simp: save_result_def)
qed

theorem save_succeeds_witness:
  "\<exists>evs. save (\<lambda>_. '''') io_example 1 clock_example db0 (SnapshotStore ''vcache.snapshot'') =
    Some (\<lparr>so_ok = True, so_entriesWritten = length (db_snapshot (\<lambda>_. 7) db0),
           so_bytesWritten = length (save_encoded 1 clock_example db0), so_error = ''''\<rparr>,
          \<lparr>ss_path = ''vcache.snapshot'', ss_saveCount = 1\<rparr>, evs)"
  using save_succeeds [of io_example "\<lambda>_. ''''" 1 clock_example db0 "SnapshotStore ''vcache.snapshot''"]
  by (simp add: io_example_def [THEN arg_cong [where f = si_open]] io_example_def [THEN arg_cong [where f = si_fsync]]
      io_example_def [THEN arg_cong [where f = si_rename]] SnapshotStore_def clock_example_def)

text \<open>
  C27. A load is all or nothing: unless it reports success, the database is as it was. It reports
  "not found" exactly when opening the file says that it does not exist, and success only for
  a file read to its end and accepted by the decoder, whose entries then replace the content.
\<close>

theorem load_all_or_nothing:
  assumes "load strerror io tick clk content st db = Some (outcome, db')"
  shows "(lo_status outcome \<noteq> Load_Loaded \<longrightarrow> db' = db \<and> lo_entriesLoaded outcome = 0) \<and>
    (lo_status outcome = Load_NotFound \<longleftrightarrow> li_open io = Some ENOENT) \<and>
    (lo_status outcome = Load_Loaded \<longrightarrow>
      (\<exists>data es. readWholeFile (li_read io) 0 content 0 '''' = Some (Inr data) \<and>
         decode tick (lc_now clk) (lc_entries clk) data = Inr es \<and>
         (lo_entriesLoaded outcome, db') = db_restore (lc_restore clk) es db))"
  using assms
  by (auto simp: load_def load_failed_def default_LoadOutcome_def
      split: option.splits if_splits Option.bind_splits sum.splits prod.splits)

theorem load_all_or_nothing_witness:
  "\<exists>outcome. load (\<lambda>_. '''') \<lparr>li_open = None, li_read = slow_kernel\<rparr> 1
      \<lparr>lc_now = 0, lc_entries = (\<lambda>_. (0, 0)), lc_restore = 0\<rparr> ''junk'' (SnapshotStore ''f'') db0 =
      Some (outcome, db0) \<and> lo_status outcome = Load_Failed \<and> lo_entriesLoaded outcome = 0"
proof -
  let ?io = "\<lparr>li_open = None, li_read = slow_kernel\<rparr>"
  let ?clk = "\<lparr>lc_now = 0, lc_entries = (\<lambda>_. (0, 0)), lc_restore = 0\<rparr>"
  have r: "readWholeFile slow_kernel 0 ''junk'' 0 '''' = Some (Inr ''junk'')"
    by (intro readWholeFile_correct slow_kernel_posix)
  have d: "decode 1 0 (\<lambda>_. (0, 0)) ''junk'' = Inl err_short"
    by (simp add: decode_def kHeaderLength_def kChecksumLength_def)
  have "load (\<lambda>_. '''') ?io 1 ?clk ''junk'' (SnapshotStore ''f'') db0 = Some (load_failed err_short, db0)"
    by (simp add: load_def r d)
  from load_all_or_nothing [OF this] this show ?thesis by (auto simp: load_failed_def)
qed

text \<open>Loading what a save encoded.\<close>

lemma load_saved:
  assumes inv: "db_inv db" "db_inv target"
    and posix: "reads_file (li_read lio)" "no_hard_errors (li_read lio)" and open_ok: "li_open lio = None"
    and fits: "live = filter (\<lambda>e. \<not> isExpiredAt (sc_now sc) e) (db_snapshot (sc_shards sc) db)"
      "encodable tick (sc_entries sc) 0 live" "length live < 2 ^ 64"
    and tick: "0 < tick" "tick dvd 1000000"
    and agree: "clocks_agree tick C (sc_entries sc)" "clocks_agree tick C' (lc_entries lc)"
    and times: "\<forall>j. sc_shards sc j \<le> S" "sc_now sc \<le> S"
      "\<forall>j. fst (lc_entries lc j) \<le> T" "lc_now lc \<le> T" "lc_restore lc \<le> T"
  shows "\<exists>n db'. load strerror lio tick lc (save_encoded tick sc db) st target =
      Some (\<lparr>lo_status = Load_Loaded, lo_entriesLoaded = n, lo_error = ''''\<rparr>, db') \<and>
    db_inv db' \<and> db_maxMemoryBytes db' = db_maxMemoryBytes target \<and>
    (\<forall>k. case db_lookup db k of
        None \<Rightarrow> db_lookup db' k = None
      | Some e \<Rightarrow> (isExpiredAt S e \<and> db_lookup db' k = None) \<or>
          carried_over tick C C' T e (db_lookup db' k))"
proof -
  let ?enc = "save_encoded tick sc db"
  let ?r = "reload tick (lc_now lc) (sc_entries sc) (lc_entries lc) 0 live"
  have dec: "decode tick (lc_now lc) (lc_entries lc) ?enc = Inr ?r"
    unfolding save_encoded_def by (rule decode_encode [OF fits])
  have "load strerror lio tick lc ?enc st target =
      Some (\<lparr>lo_status = Load_Loaded, lo_entriesLoaded = fst (db_restore (lc_restore lc) ?r target), lo_error = ''''\<rparr>,
        snd (db_restore (lc_restore lc) ?r target))"
    by (simp add: load_def open_ok readWholeFile_correct [OF posix] dec split: prod.split)
  moreover note r = db_restore_correct [OF inv(2), of "lc_restore lc" ?r]
  have "\<forall>k. case db_lookup db k of
        None \<Rightarrow> db_lookup (snd (db_restore (lc_restore lc) ?r target)) k = None
      | Some e \<Rightarrow> (isExpiredAt S e \<and> db_lookup (snd (db_restore (lc_restore lc) ?r target)) k = None) \<or>
          carried_over tick C C' T e (db_lookup (snd (db_restore (lc_restore lc) ?r target)) k)"
    unfolding r(2) using loaded_lookup [OF inv(1) tick fits(1,2) agree times] by blast
  ultimately show ?thesis using r(1,4) by (intro exI conjI) (assumption | simp)+
qed


lemma encodable_plain:
  "\<forall>e\<in>set es. e_expiration e = None \<and> length (e_key e) \<le> kMaxFieldLength \<and> length (e_value e) \<le> kMaxFieldLength \<Longrightarrow>
   encodable tick clks i es"
  by (induction es arbitrary: i) (simp_all add: encodable_entry_def)

text \<open>A database with one key, for the examples.\<close>

definition saved_example :: database where
  "saved_example = snd (db_set ''k'' ''v'' db0)"

definition live_example :: "entry list" where
  "live_example = filter (\<lambda>e. \<not> isExpiredAt (sc_now clock_example) e) (db_snapshot (sc_shards clock_example) saved_example)"

lemma one_key_fits:
  assumes "db_inv db" "db_lookup db = [''k'' \<mapsto> Entry ''k'' ''v'']"
    and "live = filter (\<lambda>e. \<not> isExpiredAt (sc_now clock_example) e) (db_snapshot (sc_shards clock_example) db)"
  shows "encodable 1 (sc_entries clock_example) 0 live" "length live < 2 ^ 64"
proof -
  have mem: "set live \<subseteq> {Entry ''k'' ''v''}"
    using db_snapshot_set [OF assms(1), of _ "sc_shards clock_example"]
    by (auto simp: assms(3) db_live_Some assms(2) split: if_splits)
  have "distinct (map e_key live)" unfolding assms(3)
    using db_keys_distinct [OF assms(1), of "sc_shards clock_example"] unfolding db_keys_snapshot
    by (rule distinct_map_filter)
  then have "length live = card (set live)" by (simp add: distinct_card distinct_map)
  also have "\<dots> \<le> 1" using card_mono [OF _ mem] by simp
  finally show "length live < 2 ^ 64" by simp
  show "encodable 1 (sc_entries clock_example) 0 live"
    using mem by (intro encodable_plain) (auto simp: kMaxFieldLength_def)
qed

lemma saved_example:
  "db_inv saved_example" "db_lookup saved_example = [''k'' \<mapsto> Entry ''k'' ''v'']"
  "encodable 1 (sc_entries clock_example) 0 live_example" "length live_example < 2 ^ 64"
proof -
  show inv: "db_inv saved_example" and look: "db_lookup saved_example = [''k'' \<mapsto> Entry ''k'' ''v'']"
    using db_set_plain [OF db0_inv db0_limit, of "''k''" "''v''"] db0_lookup by (auto simp: saved_example_def fun_eq_iff)
  show "encodable 1 (sc_entries clock_example) 0 live_example" "length live_example < 2 ^ 64"
    by (rule one_key_fits [OF inv look live_example_def])+
qed


end
