(* ===== verification/VC_Executor.thy ===== *)
theory VC_Executor
  imports VC_CommandParser_Props VC_Protocol VC_Persistence_Props
begin

text \<open>
  The class \<open>CommandExecutor\<close> of include/CommandExecutor.h and src/CommandExecutor.cpp: one request
  line is parsed, run against the database or the snapshot store, and answered. The
  database and the store are the state; the environment of a request is what it reads of the
  clocks and, for SAVE, of the kernel.
\<close>

record exec_state =
  ex_database :: database
  ex_store :: "store option"

definition CommandExecutor :: "database \<Rightarrow> store option \<Rightarrow> exec_state" where
  "CommandExecutor db st = \<lparr>ex_database = db, ex_store = st\<rparr>"

record request_env =
  en_now :: time_point
  en_shards :: "nat \<Rightarrow> time_point"
  en_tick :: int
  en_clock :: save_clock
  en_io :: save_io
  en_strerror :: "errno \<Rightarrow> string"

definition run_set :: "request_env \<Rightarrow> Command \<Rightarrow> database \<Rightarrow> SetOutcome \<times> database" where
  "run_set env command db =
     (case cmd_expireSeconds command of
        Some secs \<Rightarrow> db_set_ttl (en_now env) (cmd_key command) (cmd_value command) secs db
      | None \<Rightarrow> db_set (cmd_key command) (cmd_value command) db)"

definition keys_reply :: "string list \<Rightarrow> string" where
  "keys_reply keys =
     foldl (\<lambda>response key. response @ [LF] @ proto_value (escapeForWire key)) (proto_arrayHeader (length keys)) keys"

definition err_too_big :: string where
  "err_too_big = ''ERR value is larger than the configured max-memory''"

text \<open>
  The result is the reply, if any, the new state, and what a save did to the disk. As for
  \<open>save\<close>, no result means that the request does not return.
\<close>

definition execute ::
  "request_env \<Rightarrow> string \<Rightarrow> exec_state \<Rightarrow> (string option \<times> exec_state \<times> disk_event list) option" where
  "execute env requestLine ex =
     (case parse requestLine of
        Inl err \<Rightarrow> Some (Some (proto_error err), ex, [])
      | Inr command \<Rightarrow>
          (case cmd_type command of
             Cmd_Empty \<Rightarrow> Some (None, ex, [])
           | Cmd_Set \<Rightarrow>
               (case run_set env command (ex_database ex) of
                  (outcome, db) \<Rightarrow>
                    Some (Some (if outcome = Rejected then proto_error err_too_big else proto_status ''OK''),
                          ex\<lparr>ex_database := db\<rparr>, []))
           | Cmd_Get \<Rightarrow>
               (case db_get (en_now env) (cmd_key command) (ex_database ex) of
                  (val, db) \<Rightarrow>
                    Some (Some (case val of None \<Rightarrow> proto_nil | Some v \<Rightarrow> proto_value (escapeForWire v)),
                          ex\<lparr>ex_database := db\<rparr>, []))
           | Cmd_Del \<Rightarrow>
               (case db_del (en_now env) (cmd_key command) (ex_database ex) of
                  (removed, db) \<Rightarrow>
                    Some (Some (proto_integer (if removed then 1 else 0)), ex\<lparr>ex_database := db\<rparr>, []))
           | Cmd_Exists \<Rightarrow>
               Some (Some (proto_integer (if db_exists (en_now env) (cmd_key command) (ex_database ex) then 1 else 0)),
                     ex, [])
           | Cmd_Keys \<Rightarrow> Some (Some (keys_reply (db_keys (en_shards env) (ex_database ex))), ex, [])
           | Cmd_Save \<Rightarrow>
               (case ex_store ex of
                  None \<Rightarrow> Some (Some (proto_error ''ERR persistence is not configured''), ex, [])
                | Some st \<Rightarrow> do {
                    (outcome, st', evs) \<leftarrow>
                      save (en_strerror env) (en_io env) (en_tick env) (en_clock env) (ex_database ex) st;
                    Some (Some (if \<not> so_ok outcome then proto_error (''ERR '' @ so_error outcome) else proto_status ''OK''),
                          ex\<lparr>ex_store := Some st'\<rparr>, evs)
                  })))"

section \<open>Lines of a reply\<close>

text \<open>The text cut at its line feeds; always at least one line.\<close>

fun split_lines :: "string \<Rightarrow> string list" where
  "split_lines [] = [[]]"
| "split_lines (c # cs) =
     (if c = LF then [] # split_lines cs
      else case split_lines cs of [] \<Rightarrow> [[c]] | l # ls \<Rightarrow> (c # l) # ls)"

lemma split_lines_plain: "LF \<notin> set s \<Longrightarrow> split_lines s = [s]"
  by (induction s) auto

lemma split_lines_append: "LF \<notin> set s \<Longrightarrow> split_lines (s @ LF # rest) = s # split_lines rest"
  by (induction s) auto

lemma split_lines_nonempty [simp]: "split_lines s \<noteq> []"
  by (induction s) (auto split: list.splits)

definition line_free :: "string \<Rightarrow> bool" where
  "line_free s \<longleftrightarrow> LF \<notin> set s"

lemma line_free_simps [simp]:
  "line_free []" "line_free (c # s) \<longleftrightarrow> c \<noteq> LF \<and> line_free s"
  "line_free (s @ t) \<longleftrightarrow> line_free s \<and> line_free t"
  by (auto simp: line_free_def)

lemma line_free_escaped [simp]: "line_free (escapeForWire s)"
  using printable_no_LF [OF escape_printable] by (simp add: line_free_def)

lemma line_free_printable: "printable s \<Longrightarrow> line_free s"
  by (simp add: line_free_def printable_no_LF)

lemma line_free_to_string [simp]: "line_free (to_string n)"
  using to_string_digits [of n] by (auto simp: line_free_def is_digit_iff byte_def)

lemma line_free_tagged [simp]:
  "line_free (proto_status s) \<longleftrightarrow> line_free s" "line_free (proto_error s) \<longleftrightarrow> line_free s"
  "line_free (proto_value s) \<longleftrightarrow> line_free s" "line_free proto_nil" "line_free (proto_arrayHeader n)"
  "line_free (proto_integer 0)" "line_free (proto_integer 1)"
  by (simp_all add: proto_status_def proto_error_def proto_value_def proto_nil_def proto_arrayHeader_def
      proto_integer_def to_string_int_def)

lemma split_line_free: "line_free s \<Longrightarrow> split_lines s = [s]"
  by (simp add: line_free_def split_lines_plain)

lemma keys_reply_conv:
  "keys_reply keys = proto_arrayHeader (length keys) @ concat (map (\<lambda>k. LF # proto_value (escapeForWire k)) keys)"
proof -
  have "foldl (\<lambda>response key. response @ [LF] @ proto_value (escapeForWire key)) r ks =
      r @ concat (map (\<lambda>k. LF # proto_value (escapeForWire k)) ks)" for r ks
    by (induction ks arbitrary: r) simp_all
  then show ?thesis by (simp add: keys_reply_def)
qed

lemma split_keys:
  "line_free s \<Longrightarrow> split_lines (s @ concat (map (\<lambda>k. LF # proto_value (escapeForWire k)) keys)) =
   s # map (\<lambda>k. proto_value (escapeForWire k)) keys"
proof (induction keys arbitrary: s)
  case Nil
  then show ?case by (simp add: split_line_free)
next
  case (Cons k keys)
  have "split_lines (proto_value (escapeForWire k) @ concat (map (\<lambda>k. LF # proto_value (escapeForWire k)) keys)) =
      proto_value (escapeForWire k) # map (\<lambda>k. proto_value (escapeForWire k)) keys"
    by (rule Cons.IH) simp
  with Cons.prems show ?case by (simp add: split_lines_append line_free_def)
qed

lemma split_keys_reply:
  "split_lines (keys_reply keys) = proto_arrayHeader (length keys) # map (\<lambda>k. proto_value (escapeForWire k)) keys"
  by (simp add: keys_reply_conv split_keys)

end
