(* ===== verification/VC_Connection.thy ===== *)
theory VC_Connection
  imports VC_Executor
begin

text \<open>
  A connection of the server: \<open>handleConnection\<close>, \<open>sendLine\<close> and \<open>sendAll\<close> of src/Server.cpp. The bytes
  that arrive, the kernel's answers to \<open>send\<close>, the value of \<open>running_\<close> at each turn of the loop, the
  environment of each request, and what the other workers do to the shared database and store
  between two requests of this connection are the connection's environment.
\<close>

definition kReadChunkSize :: nat where
  "kReadChunkSize = 64 * 1024"

definition isRetryable :: "errno \<Rightarrow> bool" where
  "isRetryable e \<longleftrightarrow> e = EINTR"

section \<open>Sending\<close>

partial_function (option) server_sendAll ::
  "transfer_kernel \<Rightarrow> nat \<Rightarrow> string \<Rightarrow> nat \<Rightarrow> string list \<Rightarrow> (transfer \<times> string list \<times> nat) option" where
  "server_sendAll k i data sent out =
     (if sent < length data
      then (case k i (length data - sent) of
              Sys_err e \<Rightarrow>
                if isRetryable e then server_sendAll k (Suc i) data sent out
                else Some (Transfer_failed (Some e), out, Suc i)
            | Sys_ok written \<Rightarrow>
                server_sendAll k (Suc i) data (sent + written) (out @ [take written (drop sent data)]))
      else Some (Transfer_done, out, i))"

interpretation snd_srv: transfer_loop server_sendAll False
  by unfold_locales (subst server_sendAll.simps, simp add: isRetryable_def split: sys_result.split)

declare server_sendAll.simps [code]

text \<open>A result of \<open>recv\<close>: an error, or the bytes received, none at the end of the stream.\<close>

datatype recv_result = Recv_err errno | Recv_bytes string

record conn_env =
  ce_running :: "nat \<Rightarrow> bool"
  ce_recv :: "nat \<Rightarrow> recv_result"
  ce_send :: transfer_kernel
  ce_env :: "nat \<Rightarrow> request_env"
  ce_others :: "nat \<Rightarrow> exec_state \<Rightarrow> exec_state"
  ce_maxRequestBytes :: nat

text \<open>
  The local state of a connection, with the shared state as this worker last left it, the number
  of requests and of calls to \<open>send\<close> so far, and the bytes and disk effects so far.
\<close>

record conn =
  cn_pending :: string
  cn_state :: exec_state
  cn_requests :: nat
  cn_sends :: nat
  cn_out :: string
  cn_disk :: "disk_event list"

definition sendLine :: "transfer_kernel \<Rightarrow> nat \<Rightarrow> string \<Rightarrow> (bool \<times> string \<times> nat) option" where
  "sendLine k i line =
     (case server_sendAll k i (line @ [LF]) 0 [] of
        None \<Rightarrow> None
      | Some (t, chunks, i') \<Rightarrow> Some (t = Transfer_done, concat chunks, i'))"

section \<open>Receiving\<close>

text \<open>\<open>pending.find\<close> of a line feed, with the text before it and the text after it.\<close>

definition cut_line :: "string \<Rightarrow> (string \<times> string) option" where
  "cut_line s =
     (case dropWhile (\<lambda>c. c \<noteq> LF) s of [] \<Rightarrow> None | _ # rest \<Rightarrow> Some (takeWhile (\<lambda>c. c \<noteq> LF) s, rest))"

lemma cut_line_length: "cut_line s = Some (line, rest) \<Longrightarrow> length rest < length s"
  using length_dropWhile_le [of "\<lambda>c. c \<noteq> LF" s] by (auto simp: cut_line_def split: list.splits)

text \<open>
  The inner loop over the complete lines in \<open>pending\<close>. The result says whether the connection is
  still usable.
\<close>

function process_lines :: "conn_env \<Rightarrow> conn \<Rightarrow> (bool \<times> conn) option" where
  "process_lines env c =
     (case cut_line (cn_pending c) of
        None \<Rightarrow> Some (True, c)
      | Some (line, rest) \<Rightarrow>
          (case execute (ce_env env (cn_requests c)) line (ce_others env (cn_requests c) (cn_state c)) of
             None \<Rightarrow> None
           | Some (response, st, evs) \<Rightarrow>
               let c' = c\<lparr>cn_pending := rest, cn_state := st, cn_requests := Suc (cn_requests c),
                          cn_disk := cn_disk c @ evs\<rparr> in
               (case response of
                  None \<Rightarrow> process_lines env c'
                | Some reply \<Rightarrow>
                    (case sendLine (ce_send env) (cn_sends c') reply of
                       None \<Rightarrow> None
                     | Some (ok, bytes, sends) \<Rightarrow>
                         let c'' = c'\<lparr>cn_out := cn_out c' @ bytes, cn_sends := sends\<rparr> in
                         if ok then process_lines env c'' else Some (False, c'')))))"
  by pat_completeness auto
termination
  by (relation "measure (\<lambda>(env, c). length (cn_pending c))") (auto dest: cut_line_length)

declare process_lines.simps [simp del]

definition err_too_large :: string where
  "err_too_large = ''ERR request too large''"

text \<open>The outer loop; \<open>i\<close> counts its turns, each of which calls \<open>recv\<close> once.\<close>

partial_function (option) connection_loop :: "conn_env \<Rightarrow> nat \<Rightarrow> conn \<Rightarrow> conn option" where
  "connection_loop env i c =
     (if \<not> ce_running env i then Some c
      else case ce_recv env i of
        Recv_err e \<Rightarrow> if isRetryable e then connection_loop env (Suc i) c else Some c
      | Recv_bytes bytes \<Rightarrow>
          if bytes = [] then Some c
          else (case process_lines env (c\<lparr>cn_pending := cn_pending c @ bytes\<rparr>) of
                  None \<Rightarrow> None
                | Some (usable, c') \<Rightarrow>
                    if \<not> usable then Some c'
                    else if length (cn_pending c') > ce_maxRequestBytes env
                    then (case sendLine (ce_send env) (cn_sends c') (proto_error err_too_large) of
                            None \<Rightarrow> None
                          | Some (_, bytes, sends) \<Rightarrow>
                              Some (c'\<lparr>cn_out := cn_out c' @ bytes, cn_sends := sends\<rparr>))
                    else connection_loop env (Suc i) c'))"

declare connection_loop.simps [code]

definition handleConnection :: "conn_env \<Rightarrow> exec_state \<Rightarrow> conn option" where
  "handleConnection env ex =
     connection_loop env 0
       \<lparr>cn_pending = '''', cn_state = ex, cn_requests = 0, cn_sends = 0, cn_out = '''', cn_disk = []\<rparr>"

end
