(* ===== verification/VC_Client.thy ===== *)
theory VC_Client
  imports VC_Connection
begin

text \<open>
  The client library of include/VCacheClient.h and src/VCacheClient.cpp: connecting, sending a command
  and reading its reply. The results of the socket calls are arguments: \<open>recv\<close> and \<open>send\<close> as for the
  server, and for \<open>connect\<close> the addresses found and what became of each.
\<close>

section \<open>State\<close>

text \<open>\<open>fd_ >= 0\<close> is \<open>cl_connected\<close>; the numbers count the calls of \<open>send\<close> and \<open>recv\<close> so far.\<close>

record client =
  cl_connected :: bool
  cl_buffer :: string
  cl_sends :: nat
  cl_recvs :: nat

record client_env =
  cv_send :: transfer_kernel
  cv_recv :: "nat \<Rightarrow> recv_result"
  cv_strerror :: "errno \<Rightarrow> string"

record Reply =
  rp_delivered :: bool
  rp_type :: ReplyType
  rp_payload :: string
  rp_elements :: "string list"
  rp_transportError :: string

definition default_Reply :: Reply where
  "default_Reply = \<lparr>rp_delivered = False, rp_type = Reply_Unknown, rp_payload = '''', rp_elements = [],
     rp_transportError = ''''\<rparr>"

definition isError :: "Reply \<Rightarrow> bool" where
  "isError r \<longleftrightarrow> rp_type r = Reply_Error"

definition isNil :: "Reply \<Rightarrow> bool" where
  "isNil r \<longleftrightarrow> rp_type r = Reply_Nil"

definition isArray :: "Reply \<Rightarrow> bool" where
  "isArray r \<longleftrightarrow> rp_type r = Reply_Array"

section \<open>Connecting\<close>

definition disconnect :: "client \<Rightarrow> client" where
  "disconnect cl = cl\<lparr>cl_connected := False, cl_buffer := ''''\<rparr>"

text \<open>
  An address and what the kernel answers for it: the error of \<open>socket\<close>, the error of \<open>connect\<close>, or
  none.
\<close>

datatype candidate = No_socket errno | Refused errno | Accepted

text \<open>The loop over the addresses; without success, the last \<open>errno\<close> is left.\<close>

fun try_candidates :: "candidate list \<Rightarrow> errno \<Rightarrow> errno option" where
  "try_candidates [] err = Some err"
| "try_candidates (No_socket e # cs) err = try_candidates cs e"
| "try_candidates (Refused e # cs) err = try_candidates cs e"
| "try_candidates (Accepted # cs) err = None"

text \<open>
  \<open>resolved\<close> is the answer of \<open>getaddrinfo\<close>, an error text or the addresses, and \<open>err\<close> the value of
  \<open>errno\<close> before. The result is the error text, or none on success.
\<close>

definition client_connect ::
  "(errno \<Rightarrow> string) \<Rightarrow> string \<Rightarrow> nat \<Rightarrow> string + candidate list \<Rightarrow> errno \<Rightarrow> client \<Rightarrow> string option \<times> client" where
  "client_connect strerror host port resolved err cl =
     (let cl' = disconnect cl; portText = to_string port in
      case resolved of
        Inl reason \<Rightarrow> (Some (''cannot resolve '' @ [apostrophe] @ host @ [apostrophe] @ '': '' @ reason), cl')
      | Inr candidates \<Rightarrow>
          (case try_candidates candidates err of
             None \<Rightarrow> (None, cl'\<lparr>cl_connected := True\<rparr>)
           | Some e \<Rightarrow> (Some (''cannot connect to '' @ host @ '':'' @ portText @ '': '' @ strerror e), cl')))"

section \<open>Sending and receiving\<close>

partial_function (option) client_sendAll ::
  "transfer_kernel \<Rightarrow> nat \<Rightarrow> string \<Rightarrow> nat \<Rightarrow> string list \<Rightarrow> (transfer \<times> string list \<times> nat) option" where
  "client_sendAll k i data sent out =
     (if sent < length data
      then (case k i (length data - sent) of
              Sys_err e \<Rightarrow>
                if e = EINTR then client_sendAll k (Suc i) data sent out
                else Some (Transfer_failed (Some e), out, Suc i)
            | Sys_ok written \<Rightarrow>
                if written = 0 then Some (Transfer_failed None, out, Suc i)
                else client_sendAll k (Suc i) data (sent + written) (out @ [take written (drop sent data)]))
      else Some (Transfer_done, out, i))"

interpretation snd_cl: transfer_loop client_sendAll True
  by unfold_locales (subst client_sendAll.simps, simp split: sys_result.split)

text \<open>\<open>EWOULDBLOCK\<close> is another name of \<open>EAGAIN\<close>.\<close>

definition read_error :: "(errno \<Rightarrow> string) \<Rightarrow> errno \<Rightarrow> string" where
  "read_error strerror e =
     (if e = EAGAIN then ''timed out waiting for a reply'' else ''read failed: '' @ strerror e)"

text \<open>The line or the error, the buffer afterwards, and the number of calls of \<open>recv\<close>.\<close>

partial_function (option) readLine ::
  "(errno \<Rightarrow> string) \<Rightarrow> (nat \<Rightarrow> recv_result) \<Rightarrow> nat \<Rightarrow> string \<Rightarrow> ((string + string) \<times> string \<times> nat) option" where
  "readLine strerror recv i buffer =
     (case cut_line buffer of
        Some (line, rest) \<Rightarrow> Some (Inr line, rest, i)
      | None \<Rightarrow>
          (case recv i of
             Recv_bytes bytes \<Rightarrow>
               if bytes = [] then Some (Inl ''server closed the connection'', buffer, Suc i)
               else readLine strerror recv (Suc i) (buffer @ bytes)
           | Recv_err e \<Rightarrow>
               if e = EINTR then readLine strerror recv (Suc i) buffer
               else Some (Inl (read_error strerror e), buffer, Suc i)))"

declare client_sendAll.simps [code] readLine.simps [code]

section \<open>Commands\<close>

definition failed_reply :: "Reply \<Rightarrow> string \<Rightarrow> client \<Rightarrow> Reply \<times> client" where
  "failed_reply reply err cl = (reply\<lparr>rp_transportError := err\<rparr>, disconnect cl)"

text \<open>The loop over the elements of an array.\<close>

fun read_elements :: "client_env \<Rightarrow> nat \<Rightarrow> Reply \<Rightarrow> client \<Rightarrow> (Reply \<times> client) option" where
  "read_elements env 0 reply cl = Some (reply\<lparr>rp_delivered := True\<rparr>, cl)"
| "read_elements env (Suc n) reply cl =
     (case readLine (cv_strerror env) (cv_recv env) (cl_recvs cl) (cl_buffer cl) of
        None \<Rightarrow> None
      | Some (result, buffer, recvs) \<Rightarrow>
          let cl' = cl\<lparr>cl_buffer := buffer, cl_recvs := recvs\<rparr> in
          (case result of
             Inl err \<Rightarrow> Some (failed_reply reply err cl')
           | Inr line \<Rightarrow>
               let element = proto_parse line in
               if tl_type element = Reply_Unknown
               then Some (failed_reply reply (''unrecognised element tag in: '' @ line) cl')
               else read_elements env n
                      (reply\<lparr>rp_elements := rp_elements reply @ [tl_payload element]\<rparr>) cl'))"

text \<open>What follows the first line of the reply.\<close>

definition read_reply :: "client_env \<Rightarrow> string \<Rightarrow> client \<Rightarrow> (Reply \<times> client) option" where
  "read_reply env line cl =
     (let head = proto_parse line in
      if tl_type head = Reply_Unknown
      then Some (failed_reply default_Reply (''unrecognised reply tag in: '' @ line) cl)
      else
        let reply = default_Reply\<lparr>rp_type := tl_type head, rp_payload := tl_payload head\<rparr> in
        if tl_type head = Reply_Array
        then (case parseCount (tl_payload head) of
                None \<Rightarrow> Some (failed_reply reply (''malformed array header: '' @ line) cl)
              | Some n \<Rightarrow> read_elements env n (reply\<lparr>rp_payload := ''''\<rparr>) cl)
        else Some (reply\<lparr>rp_delivered := True\<rparr>, cl))"

text \<open>
  The reply, the client and the bytes sent. When \<open>send\<close> accepts nothing without an error, \<open>errno\<close> is that
  of an earlier call, here the one without a meaning.
\<close>

definition client_command :: "client_env \<Rightarrow> string \<Rightarrow> client \<Rightarrow> (Reply \<times> client \<times> string) option" where
  "client_command env commandLine cl =
     (if \<not> cl_connected cl then Some (default_Reply\<lparr>rp_transportError := ''not connected''\<rparr>, cl, '''')
      else case client_sendAll (cv_send env) (cl_sends cl) (commandLine @ [LF]) 0 [] of
        None \<Rightarrow> None
      | Some (sent, chunks, sends) \<Rightarrow>
          let cl' = cl\<lparr>cl_sends := sends\<rparr> in
          (case sent of
             Transfer_failed e \<Rightarrow>
               (case failed_reply default_Reply (''send failed: '' @ cv_strerror env (errno_of e)) cl' of
                  (reply, cl'') \<Rightarrow> Some (reply, cl'', concat chunks))
           | Transfer_done \<Rightarrow>
               (case readLine (cv_strerror env) (cv_recv env) (cl_recvs cl') (cl_buffer cl') of
                  None \<Rightarrow> None
                | Some (result, buffer, recvs) \<Rightarrow>
                    let cl'' = cl'\<lparr>cl_buffer := buffer, cl_recvs := recvs\<rparr> in
                    (case (case result of Inl err \<Rightarrow> Some (failed_reply default_Reply err cl'')
                                        | Inr line \<Rightarrow> read_reply env line cl'') of
                       None \<Rightarrow> None
                     | Some (reply, cl3) \<Rightarrow> Some (reply, cl3, concat chunks)))))"

end
