(* ===== verification/VC_Executor_Props.thy ===== *)
theory VC_Executor_Props
  imports VC_Executor
begin

text \<open>
  The executor against an abstract store: the reply and the next state of every command in terms of
  a map from keys to entries, and the framing of replies.
\<close>

section \<open>The abstract store\<close>

definition live_at :: "time_point \<Rightarrow> (string \<Rightarrow> entry option) \<Rightarrow> string \<Rightarrow> entry option" where
  "live_at now m k = (case m k of None \<Rightarrow> None | Some e \<Rightarrow> if isExpiredAt now e then None else Some e)"

definition written_entry :: "time_point \<Rightarrow> Command \<Rightarrow> entry" where
  "written_entry now c =
     \<lparr>e_key = cmd_key c, e_value = cmd_value c,
      e_expiration = map_option (\<lambda>secs. now + seconds secs) (cmd_expireSeconds c)\<rparr>"

text \<open>
  \<open>keys\<close> lists the live keys, each once; a key that expires while they are collected may be in or
  out.
\<close>

definition lists_keys :: "(nat \<Rightarrow> time_point) \<Rightarrow> (string \<Rightarrow> entry option) \<Rightarrow> string list \<Rightarrow> bool" where
  "lists_keys clk m keys \<longleftrightarrow> distinct keys \<and>
     (\<forall>k e. m k = Some e \<and> (\<forall>j. \<not> isExpiredAt (clk j) e) \<longrightarrow> k \<in> set keys) \<and>
     (\<forall>k\<in>set keys. \<exists>e j. m k = Some e \<and> \<not> isExpiredAt (clk j) e)"

text \<open>
  One request on the map: the reply and the next map that the protocol promises, for a parsed
  request or a parse error. \<open>persistent\<close>: a snapshot store is configured.
\<close>

definition map_step ::
  "request_env \<Rightarrow> bool \<Rightarrow> string + Command \<Rightarrow> (string \<Rightarrow> entry option) \<Rightarrow> string option \<Rightarrow>
     (string \<Rightarrow> entry option) \<Rightarrow> bool" where
  "map_step env persistent request m reply m' \<longleftrightarrow>
     (case request of
        Inl err \<Rightarrow> reply = Some (proto_error err) \<and> m' = m
      | Inr c \<Rightarrow>
          (case cmd_type c of
             Cmd_Empty \<Rightarrow> reply = None \<and> m' = m
           | Cmd_Set \<Rightarrow> reply = Some (proto_status ''OK'') \<and> m' = m(cmd_key c \<mapsto> written_entry (en_now env) c)
           | Cmd_Get \<Rightarrow>
               m' = m \<and> reply = Some (case live_at (en_now env) m (cmd_key c) of
                 None \<Rightarrow> proto_nil | Some e \<Rightarrow> proto_value (escapeForWire (e_value e)))
           | Cmd_Del \<Rightarrow>
               m' = m(cmd_key c := None) \<and>
               reply = Some (proto_integer (if live_at (en_now env) m (cmd_key c) = None then 0 else 1))
           | Cmd_Exists \<Rightarrow>
               m' = m \<and> reply = Some (proto_integer (if live_at (en_now env) m (cmd_key c) = None then 0 else 1))
           | Cmd_Keys \<Rightarrow> m' = m \<and> (\<exists>keys. lists_keys (en_shards env) m keys \<and> reply = Some (keys_reply keys))
           | Cmd_Save \<Rightarrow>
               m' = m \<and> (reply = Some (proto_status ''OK'') \<and> persistent \<or> (\<exists>err. reply = Some (proto_error err)))))"

lemma live_at_lookup: "live_at now (db_lookup db) = db_live now db"
  by (auto simp: live_at_def db_live_def fun_eq_iff split: option.splits)

section \<open>Commands on the database\<close>

lemma write_limit [simp]: "db_maxMemoryBytes (set_shardFor db k s) = db_maxMemoryBytes db"
  by (simp add: set_shardFor_def)

lemma op_limits [simp]:
  "db_maxMemoryBytes (snd (db_set k v db)) = db_maxMemoryBytes db"
  "db_maxMemoryBytes (snd (db_set_ttl now k v ttl db)) = db_maxMemoryBytes db"
  "db_maxMemoryBytes (snd (db_get now k db)) = db_maxMemoryBytes db"
  "db_maxMemoryBytes (snd (db_del now k db)) = db_maxMemoryBytes db"
  by (auto simp: db_set_def db_set_ttl_def db_get_def db_del_def Let_def split: prod.splits option.splits)

lemma db_set_ttl_plain:
  assumes "db_inv db" "db_maxMemoryBytes db = 0"
  shows "db_lookup (snd (db_set_ttl now k v ttl db)) =
      (db_lookup db)(k \<mapsto> \<lparr>e_key = k, e_value = v, e_expiration = Some (now + seconds ttl)\<rparr>) \<and>
    fst (db_set_ttl now k v ttl db) \<noteq> Rejected"
  using assms(1)
proof (cases rule: db_set_ttl_cases [where key = k and val = v and now = now and ttl = ttl])
  case (fits t)
  with db_write(5) [OF assms(1) fits(2,3)] assms(2) show ?thesis by (simp add: write_entry_def Entry_def)
next
  case rejected
  with assms(2) show ?thesis by (simp add: fitsWithinLimit_def)
qed

lemma run_set_plain:
  assumes "db_inv db" "db_maxMemoryBytes db = 0"
  shows "db_inv (snd (run_set env c db)) \<and> db_maxMemoryBytes (snd (run_set env c db)) = 0 \<and>
    fst (run_set env c db) \<noteq> Rejected \<and>
    db_lookup (snd (run_set env c db)) = (db_lookup db)(cmd_key c \<mapsto> written_entry (en_now env) c)"
  using assms db_set_plain [OF assms, of "cmd_key c" "cmd_value c"]
    db_set_ttl_plain [OF assms, of "en_now env" "cmd_key c" "cmd_value c"] db_set_ttl_inv [OF assms(1)]
  by (simp add: run_set_def written_entry_def Entry_def split: option.split)

lemma db_keys_lists:
  assumes "db_inv db"
  shows "lists_keys clk (db_lookup db) (db_keys clk db)"
proof -
  have mem: "k \<in> set (db_keys clk db) \<longleftrightarrow>
      (\<exists>e. db_lookup db k = Some e \<and> \<not> isExpiredAt (clk (shardIndexFor db k)) e)" for k
    using db_snapshot_set [OF assms, of _ clk] db_lookup_key [OF assms]
    by (auto simp: db_keys_snapshot db_live_Some image_iff)
  then show ?thesis using db_keys_distinct [OF assms] unfolding lists_keys_def by blast
qed

lemma execute_map_step:
  assumes "db_inv (ex_database ex)" "db_maxMemoryBytes (ex_database ex) = 0" "posix_write (si_write (en_io env))"
  shows "\<exists>reply ex' evs. execute env line ex = Some (reply, ex', evs) \<and>
    db_inv (ex_database ex') \<and> db_maxMemoryBytes (ex_database ex') = 0 \<and>
    (ex_store ex' = None \<longleftrightarrow> ex_store ex = None) \<and>
    map_step env (ex_store ex \<noteq> None) (parse line) (db_lookup (ex_database ex)) reply (db_lookup (ex_database ex'))"
proof (cases "parse line")
  case (Inl err)
  with assms show ?thesis by (simp add: execute_def map_step_def)
next
  case (Inr c)
  let ?db = "ex_database ex"
  show ?thesis
  proof (cases "cmd_type c")
    case Cmd_Empty
    with Inr assms show ?thesis by (simp add: execute_def map_step_def)
  next
    case Cmd_Set
    with Inr run_set_plain [OF assms(1,2), of env c] show ?thesis
      by (cases "run_set env c ?db") (simp add: execute_def map_step_def)
  next
    case Cmd_Get
    with Inr assms db_get_correct [OF assms(1), of "en_now env" "cmd_key c"]
      op_limits(3) [of "en_now env" "cmd_key c" ?db] show ?thesis
      by (cases "db_get (en_now env) (cmd_key c) ?db")
        (auto simp: execute_def map_step_def live_at_lookup split: option.split)
  next
    case Cmd_Del
    with Inr assms db_del_correct [OF assms(1), of "en_now env" "cmd_key c"]
      op_limits(4) [of "en_now env" "cmd_key c" ?db] show ?thesis
      by (cases "db_del (en_now env) (cmd_key c) ?db") (auto simp: execute_def map_step_def live_at_lookup)
  next
    case Cmd_Exists
    with Inr assms show ?thesis by (auto simp: execute_def map_step_def live_at_lookup db_exists_correct)
  next
    case Cmd_Keys
    with Inr assms db_keys_lists [OF assms(1), of "en_shards env"] show ?thesis
      by (auto simp: execute_def map_step_def)
  next
    case Cmd_Save
    show ?thesis
    proof (cases "ex_store ex")
      case None
      with Inr Cmd_Save assms show ?thesis by (auto simp: execute_def map_step_def)
    next
      case (Some st)
      then obtain outcome st' evs where
        "save (en_strerror env) (en_io env) (en_tick env) (en_clock env) ?db st = Some (outcome, st', evs)"
        using save_returns_result [OF assms(3)] by (metis prod_cases3)
      with Inr Cmd_Save Some assms show ?thesis by (auto simp: execute_def map_step_def)
    qed
  qed
qed

section \<open>Framing\<close>

text \<open>
  The lines of a complete reply: an array header announces how many value lines follow, and
  every other reply is one line.
\<close>

definition framed :: "string list \<Rightarrow> bool" where
  "framed lines \<longleftrightarrow>
     (case lines of
        [] \<Rightarrow> False
      | head # rest \<Rightarrow>
          (case tl_type (proto_parse head) of
             Reply_Array \<Rightarrow> (length rest \<le> 100000000 \<longrightarrow> parseCount (tl_payload (proto_parse head)) = Some (length rest)) \<and>
               list_all (\<lambda>line. tl_type (proto_parse line) = Reply_Value) rest
           | Reply_Unknown \<Rightarrow> False
           | _ \<Rightarrow> rest = []))"

lemma framed_simps [simp]:
  "framed [proto_status s]" "framed [proto_error s]" "framed [proto_value s]" "framed [proto_nil]" "framed [proto_integer n]"
  by (simp_all add: framed_def)

lemma framed_keys: "framed (split_lines (keys_reply keys))"
  using to_string_digits [of "length keys"]
  by (simp add: split_keys_reply framed_def parseCount_to_string list_all_iff)

lemma save_error_line_free:
  assumes "save strerror io tick clk db st = Some (outcome, st', evs)"
    and "\<And>e. line_free (strerror e)" "line_free (ss_path st)"
  shows "line_free (so_error outcome)"
  using assms
  by (auto simp: save_def write_snapshot_def Let_def save_failed_def default_SaveOutcome_def describeErrno_def tempPath_def
      split: option.splits Option.bind_splits transfer.splits)

lemma execute_framed:
  assumes "execute env line ex = Some (Some reply, ex', evs)"
    and "\<And>e. line_free (en_strerror env e)" "\<And>st. ex_store ex = Some st \<Longrightarrow> line_free (ss_path st)"
  shows "framed (split_lines reply)"
proof (cases "parse line")
  case (Inl err)
  then have "reply = proto_error err" using assms(1) by (simp add: execute_def)
  then show ?thesis using line_free_printable parse_error_shape [OF Inl] by (simp add: split_line_free)
next
  case (Inr c)
  show ?thesis
  proof (cases "cmd_type c")
    case Cmd_Keys
    with Inr assms(1) show ?thesis by (auto simp: execute_def framed_keys)
  next
    case Cmd_Save
    show ?thesis
    proof (cases "ex_store ex")
      case None
      with Cmd_Save Inr assms(1) show ?thesis by (auto simp: execute_def split_line_free)
    next
      case (Some st)
      with Cmd_Save Inr assms(1) obtain outcome st' where
        "save (en_strerror env) (en_io env) (en_tick env) (en_clock env) (ex_database ex) st = Some (outcome, st', evs)"
        "reply = (if \<not> so_ok outcome then proto_error (''ERR '' @ so_error outcome) else proto_status ''OK'')"
        by (auto simp: execute_def split: Option.bind_splits)
      moreover from this(1) have "line_free (so_error outcome)" using assms(2,3) Some by (blast intro: save_error_line_free)
      ultimately show ?thesis by (simp add: split_line_free)
    qed
  qed (use Inr assms(1) in \<open>auto simp: execute_def split_line_free err_too_big_def split: prod.splits option.splits\<close>)
qed

section \<open>Properties\<close>

definition env_example :: request_env where
  "env_example = \<lparr>en_now = 5, en_shards = (\<lambda>_. 5), en_tick = 1, en_clock = clock_example, en_io = io_example,
     en_strerror = (\<lambda>_. ''No space left on device'')\<rparr>"



text \<open>
  C29. Replies are framed: whatever the request and the stored bytes, an array reply is its header
  and exactly the announced number of value lines, and any other reply is a single line with
  a known tag. The snapshot path and the error texts of the system are assumed to hold no line
  feed.
\<close>

theorem execute_replies_framed:
  assumes "execute env line ex = Some (Some reply, ex', evs)"
    and "\<And>e. line_free (en_strerror env e)" "\<And>st. ex_store ex = Some st \<Longrightarrow> line_free (ss_path st)"
  shows "framed (split_lines reply)"
  using assms by (rule execute_framed)

theorem execute_replies_framed_witness:
  "\<exists>reply ex' evs. execute env_example ''KEYS'' (CommandExecutor db0 None) = Some (Some reply, ex', evs) \<and>
    framed (split_lines reply)"
proof -
  have "parse ''KEYS'' = Inr (default_Command\<lparr>cmd_type := Cmd_Keys\<rparr>)" by code_simp
  then have e: "execute env_example ''KEYS'' (CommandExecutor db0 None) =
      Some (Some (keys_reply (db_keys (en_shards env_example) db0)), CommandExecutor db0 None, [])"
    by (simp add: execute_def CommandExecutor_def)
  have "framed (split_lines (keys_reply (db_keys (en_shards env_example) db0)))"
    by (rule execute_replies_framed [OF e]) (simp_all add: env_example_def CommandExecutor_def)
  with e show ?thesis by blast
qed

end
