(* ===== verification/VC_Connection_Props.thy ===== *)
theory VC_Connection_Props
  imports VC_Connection VC_Executor_Props
begin

text \<open>
  A connection answers the request lines of its byte stream, one after the other, however the
  stream is cut into packets and the replies are cut into writes.
\<close>

section \<open>Answering a list of lines\<close>

text \<open>The reference: the lines are executed in order, and the replies collected.\<close>

fun answer_lines :: "conn_env \<Rightarrow> nat \<Rightarrow> string list \<Rightarrow> exec_state \<Rightarrow>
    (string list \<times> exec_state \<times> disk_event list) option" where
  "answer_lines env n [] ex = Some ([], ex, [])"
| "answer_lines env n (line # lines) ex =
     (case execute (ce_env env n) line (ce_others env n ex) of
        None \<Rightarrow> None
      | Some (reply, ex', evs) \<Rightarrow>
          (case answer_lines env (Suc n) lines ex' of
             None \<Rightarrow> None
           | Some (replies, ex'', evs') \<Rightarrow>
               Some ((case reply of None \<Rightarrow> replies | Some r \<Rightarrow> r # replies), ex'', evs @ evs')))"

definition wire :: "string list \<Rightarrow> string" where
  "wire replies = concat (map (\<lambda>r. r @ [LF]) replies)"

lemma wire_simps [simp]: "wire [] = []" "wire (r # rs) = r @ LF # wire rs" "wire (rs @ rs') = wire rs @ wire rs'"
  by (simp_all add: wire_def)

lemma answer_lines_append:
  "answer_lines env n (xs @ ys) ex =
     (case answer_lines env n xs ex of
        None \<Rightarrow> None
      | Some (rs, ex', evs) \<Rightarrow>
          (case answer_lines env (n + length xs) ys ex' of
             None \<Rightarrow> None
           | Some (rs', ex'', evs') \<Rightarrow> Some (rs @ rs', ex'', evs @ evs')))"
  by (induction xs arbitrary: n ex) (auto split: option.split)

section \<open>Lines of a stream\<close>

lemma cut_line_Nil [simp]: "cut_line [] = None"
  by (simp add: cut_line_def)

lemma cut_line_Cons:
  "cut_line (c # s) = (if c = LF then Some ([], s) else
     case cut_line s of None \<Rightarrow> None | Some (l, r) \<Rightarrow> Some (c # l, r))"
  by (cases "dropWhile (\<lambda>c. c \<noteq> LF) s") (simp_all add: cut_line_def del: dropWhile_eq_Nil_conv)

lemma split_lines_cut:
  "split_lines s = (case cut_line s of None \<Rightarrow> [s] | Some (l, r) \<Rightarrow> l # split_lines r)"
proof (induction s)
  case (Cons c s)
  show ?case
  proof (cases "c = LF")
    case True
    then show ?thesis by (simp add: cut_line_Cons)
  next
    case False
    show ?thesis
    proof (cases "cut_line s")
      case None
      with Cons False show ?thesis by (simp add: cut_line_Cons)
    next
      case (Some p)
      with Cons False show ?thesis by (cases p) (simp add: cut_line_Cons)
    qed
  qed
qed simp

text \<open>Complete lines and the unfinished one.\<close>

definition complete :: "string \<Rightarrow> string list" where
  "complete s = butlast (split_lines s)"

definition unfinished :: "string \<Rightarrow> string" where
  "unfinished s = last (split_lines s)"

lemma complete_Nil [simp]: "complete [] = []" "unfinished [] = []"
  by (simp_all add: complete_def unfinished_def)

lemma complete_cut:
  "cut_line s = None \<Longrightarrow> complete s = [] \<and> unfinished s = s"
  "cut_line s = Some (l, r) \<Longrightarrow> complete s = l # complete r \<and> unfinished s = unfinished r"
  by (simp_all add: complete_def unfinished_def split_lines_cut [of s])

lemma split_lines_Cons:
  "c \<noteq> LF \<Longrightarrow> split_lines (c # s) = (c # hd (split_lines s)) # tl (split_lines s)"
  by (cases "split_lines s") simp_all

lemma split_lines_append_general:
  "split_lines (s @ t) = complete s @ split_lines (unfinished s @ t)"
proof (induction s)
  case (Cons c s)
  show ?case
  proof (cases "c = LF")
    case True
    with Cons show ?thesis by (simp add: complete_def unfinished_def)
  next
    case False
    show ?thesis
    proof (cases "tl (split_lines s) = []")
      case True
      then have one: "split_lines s = [hd (split_lines s)]" by (cases "split_lines s") simp_all
      then have "complete s = []" "unfinished s = hd (split_lines s)"
        by (metis butlast.simps(2) complete_def, metis last.simps unfinished_def)
      with Cons False True show ?thesis
        by (simp add: complete_def unfinished_def split_lines_Cons del: split_lines.simps)
    next
      case ne: False
      then have s: "complete s = hd (split_lines s) # butlast (tl (split_lines s))"
          "unfinished s = last (tl (split_lines s))"
        by (cases "split_lines s"; simp add: complete_def unfinished_def)+
      have "split_lines ((c # s) @ t) = (c # hd (split_lines (s @ t))) # tl (split_lines (s @ t))"
        using False by (simp add: split_lines_Cons del: split_lines.simps)
      with Cons s ne False show ?thesis
        by (simp add: complete_def unfinished_def split_lines_Cons del: split_lines.simps)
    qed
  qed
qed simp

lemma complete_append: "complete (s @ t) = complete s @ complete (unfinished s @ t)"
  unfolding complete_def [of "s @ t"] split_lines_append_general [of s t] by (simp add: butlast_append complete_def)

lemma unfinished_append: "unfinished (s @ t) = unfinished (unfinished s @ t)"
  unfolding unfinished_def [of "s @ t"] split_lines_append_general [of s t] by (simp add: unfinished_def)

text \<open>The unfinished line at any moment is the beginning of a line of the whole stream.\<close>

lemma split_lines_no_LF: "l \<in> set (split_lines s) \<Longrightarrow> LF \<notin> set l"
proof (induction s arbitrary: l)
  case (Cons c s)
  show ?case
  proof (cases "c = LF")
    case False
    then have "l = c # hd (split_lines s) \<or> l \<in> set (tl (split_lines s))"
      using Cons.prems by (simp add: split_lines_Cons del: split_lines.simps)
    moreover have "hd (split_lines s) \<in> set (split_lines s)" by simp
    ultimately show ?thesis using Cons.IH False by (auto dest: list.set_sel(2) [rotated])
  qed (use Cons in auto)
qed simp

lemma hd_split_append: "LF \<notin> set u \<Longrightarrow> hd (split_lines (u @ t)) = u @ hd (split_lines t)"
  by (induction u) (auto simp: split_lines_Cons simp del: split_lines.simps)

lemma unfinished_prefix: "\<exists>l\<in>set (split_lines (s @ t)). length (unfinished s) \<le> length l"
proof -
  have "LF \<notin> set (unfinished s)" unfolding unfinished_def by (rule split_lines_no_LF [of _ s]) (simp add: last_in_set)
  then have "hd (split_lines (unfinished s @ t)) = unfinished s @ hd (split_lines t)" by (rule hd_split_append)
  moreover have "hd (split_lines (unfinished s @ t)) \<in> set (split_lines (s @ t))"
    unfolding split_lines_append_general [of s t] by simp
  ultimately show ?thesis by (metis length_append le_add1)
qed

section \<open>The loops\<close>

text \<open>A peer that keeps reading: \<open>send\<close> accepts the bytes offered sooner or later, in whatever pieces.\<close>

definition posix_send :: "transfer_kernel \<Rightarrow> bool" where
  "posix_send k \<longleftrightarrow> never_more k \<and> responsive k \<and> no_hard_errors k"

lemma sendLine_sends:
  assumes "posix_send k"
  shows "\<exists>i'. sendLine k i line = Some (True, line @ [LF], i')"
proof -
  have "never_more k" "responsive k" "no_hard_errors k" using assms by (simp_all add: posix_send_def)
  then obtain chunks i' where "server_sendAll k i (line @ [LF]) 0 [] = Some (Transfer_done, chunks, i')"
      "concat chunks = line @ [LF]"
    using snd_srv.transfer_completes [of k i "line @ [LF]"] by blast
  then show ?thesis by (simp add: sendLine_def)
qed

definition answered :: "conn \<Rightarrow> string \<Rightarrow> string list \<Rightarrow> exec_state \<Rightarrow> disk_event list \<Rightarrow> nat \<Rightarrow> nat \<Rightarrow> conn" where
  "answered c pending replies ex evs n i =
     c\<lparr>cn_pending := pending, cn_state := ex, cn_requests := cn_requests c + n, cn_sends := i,
       cn_out := cn_out c @ wire replies, cn_disk := cn_disk c @ evs\<rparr>"

lemma answered_answered:
  "answered (answered c p rs ex evs n i) p' rs' ex' evs' n' i' =
   answered c p' (rs @ rs') ex' (evs @ evs') (n + n') i'"
  by (simp add: answered_def)

lemma process_lines_answers:
  assumes "posix_send (ce_send env)"
    and "answer_lines env (cn_requests c) (complete (cn_pending c)) (cn_state c) = Some (rs, ex, evs)"
  shows "\<exists>i. process_lines env c =
    Some (True, answered c (unfinished (cn_pending c)) rs ex evs (length (complete (cn_pending c))) i)"
  using assms(2)
proof (induction "length (cn_pending c)" arbitrary: c rs ex evs rule: less_induct)
  case less
  show ?case
  proof (cases "cut_line (cn_pending c)")
    case None
    with less.prems show ?thesis
      by (subst process_lines.simps) (auto simp: complete_cut answered_def intro!: exI [of _ "cn_sends c"])
  next
    case (Some p)
    then obtain l r where cut: "cut_line (cn_pending c) = Some (l, r)" by (cases p) auto
    note cc = complete_cut(2) [OF cut]
    obtain reply ex1 evs1 rs' evs' where
        e: "execute (ce_env env (cn_requests c)) l (ce_others env (cn_requests c) (cn_state c)) = Some (reply, ex1, evs1)"
      and a: "answer_lines env (Suc (cn_requests c)) (complete r) ex1 = Some (rs', ex, evs')"
      and rs: "rs = (case reply of None \<Rightarrow> rs' | Some x \<Rightarrow> x # rs')" "evs = evs1 @ evs'"
      using less.prems cc by (auto split: option.splits)
    let ?c = "c\<lparr>cn_pending := r, cn_state := ex1, cn_requests := Suc (cn_requests c), cn_disk := cn_disk c @ evs1\<rparr>"
    have IH: "\<exists>i. process_lines env c' = Some (True, answered c' (unfinished r) rs' ex evs' (length (complete r)) i)"
      if "cn_pending c' = r" "cn_state c' = ex1" "cn_requests c' = Suc (cn_requests c)" for c'
      using less.hyps [of c' rs' ex evs'] that a cut_line_length [OF cut] by simp
    show ?thesis
    proof (cases reply)
      case None
      with IH [of ?c] show ?thesis
        by (subst process_lines.simps) (auto simp: cut e cc rs Let_def answered_def)
    next
      case (Some x)
      obtain i where s: "sendLine (ce_send env) (cn_sends ?c) x = Some (True, x @ [LF], i)"
        using sendLine_sends [OF assms(1)] by blast
      with Some IH [of "?c\<lparr>cn_out := cn_out ?c @ x @ [LF], cn_sends := i\<rparr>"] show ?thesis
        by (subst process_lines.simps) (auto simp: cut e cc rs Let_def answered_def)
    qed
  qed
qed

text \<open>
  The first \<open>n\<close> results of \<open>recv\<close> are bytes or interruptions, while the server is running; \<open>received\<close>
  is what they brought.
\<close>

definition recv_bytes :: "recv_result \<Rightarrow> string" where
  "recv_bytes r = (case r of Recv_bytes bs \<Rightarrow> bs | Recv_err _ \<Rightarrow> [])"

definition received :: "conn_env \<Rightarrow> nat \<Rightarrow> string" where
  "received env n = concat (map (\<lambda>i. recv_bytes (ce_recv env i)) [0..<n])"

definition delivers :: "conn_env \<Rightarrow> nat \<Rightarrow> bool" where
  "delivers env n \<longleftrightarrow> (\<forall>i<n. ce_running env i \<and> ce_recv env i \<noteq> Recv_bytes [] \<and>
     (\<forall>e. ce_recv env i = Recv_err e \<longrightarrow> e = EINTR))"

lemma received_Suc: "received env (Suc n) = received env n @ recv_bytes (ce_recv env n)"
  by (simp add: received_def)

lemma received_prefix: "m \<le> n \<Longrightarrow> \<exists>t. received env n = received env m @ t"
  by (induction n) (auto simp: received_Suc le_Suc_eq)

definition start_conn :: "exec_state \<Rightarrow> conn" where
  "start_conn ex = \<lparr>cn_pending = '''', cn_state = ex, cn_requests = 0, cn_sends = 0, cn_out = '''', cn_disk = []\<rparr>"

text \<open>Where the loop is after \<open>m\<close> turns.\<close>

lemma connection_loop_reaches:
  assumes "posix_send (ce_send env)" "delivers env n" "m \<le> n"
    and "\<forall>l\<in>set (split_lines (received env n)). length l \<le> ce_maxRequestBytes env"
    and "answer_lines env 0 (complete (received env m)) ex = Some (rs, ex', evs)"
  shows "\<exists>i. connection_loop env 0 (start_conn ex) = connection_loop env m
    (answered (start_conn ex) (unfinished (received env m)) rs ex' evs (length (complete (received env m))) i)"
  using assms(3,5)
proof (induction m arbitrary: rs ex' evs)
  case 0
  then show ?case by (auto simp: received_def start_conn_def answered_def)
next
  case (Suc m)
  let ?s = "received env m" and ?bs = "recv_bytes (ce_recv env m)"
  have all: "complete (received env (Suc m)) = complete ?s @ complete (unfinished ?s @ ?bs)"
      "unfinished (received env (Suc m)) = unfinished (unfinished ?s @ ?bs)"
    by (simp_all add: received_Suc complete_append [of ?s] unfinished_append [of ?s])
  obtain rs1 ex1 evs1 rs2 evs2 where a1: "answer_lines env 0 (complete ?s) ex = Some (rs1, ex1, evs1)"
    and a2: "answer_lines env (length (complete ?s)) (complete (unfinished ?s @ ?bs)) ex1 = Some (rs2, ex', evs2)"
    and eq: "rs = rs1 @ rs2" "evs = evs1 @ evs2"
    using Suc.prems(2) unfolding all answer_lines_append by (auto split: option.splits)
  obtain i where i: "connection_loop env 0 (start_conn ex) = connection_loop env m
      (answered (start_conn ex) (unfinished ?s) rs1 ex1 evs1 (length (complete ?s)) i)" (is "_ = connection_loop env m ?c")
    using Suc.IH [OF _ a1] Suc.prems(1) by auto
  obtain i' where p: "process_lines env (?c\<lparr>cn_pending := cn_pending ?c @ ?bs\<rparr>) = Some (True,
      answered (start_conn ex) (unfinished (received env (Suc m))) rs ex' evs (length (complete (received env (Suc m)))) i')"
    using process_lines_answers [OF assms(1), of "?c\<lparr>cn_pending := cn_pending ?c @ ?bs\<rparr>" rs2 ex' evs2] a2
    by (auto simp: all eq answered_def start_conn_def)
  obtain t where t: "received env n = received env (Suc m) @ t" using received_prefix Suc.prems(1) by blast
  have small: "\<not> length (unfinished (received env (Suc m))) > ce_maxRequestBytes env"
    using unfinished_prefix [of "received env (Suc m)" t] assms(4) t by fastforce
  have run: "ce_running env m" "ce_recv env m \<noteq> Recv_bytes []" "\<And>e. ce_recv env m = Recv_err e \<Longrightarrow> e = EINTR"
    using assms(2) Suc.prems(1) by (auto simp: delivers_def Suc_le_eq)
  show ?case
  proof (cases "ce_recv env m")
    case (Recv_err e)
    then have "?bs = []" by (simp add: recv_bytes_def)
    with a1 Suc.prems(2) have "rs = rs1" "ex' = ex1" "evs = evs1" by (simp_all add: received_Suc)
    with \<open>?bs = []\<close> i run Recv_err show ?thesis
      by (auto simp: received_Suc connection_loop.simps [of env m] isRetryable_def)
  next
    case (Recv_bytes bs)
    then have "?bs = bs" by (simp add: recv_bytes_def)
    with i run Recv_bytes p small show ?thesis
      by (auto simp: connection_loop.simps [of env m] answered_def [of _ "unfinished (received env (Suc m))"])
  qed
qed

definition closes :: "conn_env \<Rightarrow> nat \<Rightarrow> bool" where
  "closes env n \<longleftrightarrow> \<not> ce_running env n \<or> ce_recv env n = Recv_bytes [] \<or>
     (\<exists>e. ce_recv env n = Recv_err e \<and> e \<noteq> EINTR)"

lemma connection_loop_closes: "closes env n \<Longrightarrow> connection_loop env n c = Some c"
  by (subst connection_loop.simps) (auto simp: closes_def isRetryable_def)

lemma handleConnection_start: "handleConnection env ex = connection_loop env 0 (start_conn ex)"
  by (simp add: handleConnection_def start_conn_def)

lemma handleConnection_answers:
  assumes "posix_send (ce_send env)" "delivers env n" "closes env n"
    and "\<forall>l\<in>set (split_lines (received env n)). length l \<le> ce_maxRequestBytes env"
    and "answer_lines env 0 (complete (received env n)) ex = Some (rs, ex', evs)"
  shows "\<exists>c. handleConnection env ex = Some c \<and> cn_out c = wire rs \<and> cn_state c = ex' \<and> cn_disk c = evs \<and>
    cn_requests c = length (complete (received env n)) \<and> cn_pending c = unfinished (received env n)"
  using connection_loop_reaches [OF assms(1,2) order_refl assms(4,5)] connection_loop_closes [OF assms(3)]
  by (auto simp: handleConnection_start answered_def start_conn_def)

section \<open>Sessions on the abstract store\<close>

text \<open>A sequence of requests on the map, with the replies in order; a blank line has none.\<close>

inductive map_session ::
  "(nat \<Rightarrow> request_env) \<Rightarrow> bool \<Rightarrow> nat \<Rightarrow> (string \<Rightarrow> entry option) \<Rightarrow> string list \<Rightarrow> string list \<Rightarrow>
     (string \<Rightarrow> entry option) \<Rightarrow> bool" for envs persistent where
  finished: "map_session envs persistent n m [] [] m"
| silent: "map_step (envs n) persistent (parse line) m None m' \<Longrightarrow>
    map_session envs persistent (Suc n) m' lines replies m'' \<Longrightarrow>
    map_session envs persistent n m (line # lines) replies m''"
| answers: "map_step (envs n) persistent (parse line) m (Some reply) m' \<Longrightarrow>
    map_session envs persistent (Suc n) m' lines replies m'' \<Longrightarrow>
    map_session envs persistent n m (line # lines) (reply # replies) m''"

inductive_cases map_session_NilE: "map_session envs persistent n m [] replies m'"
inductive_cases map_session_ConsE: "map_session envs persistent n m (line # lines) replies m'"

lemma answer_lines_map_session:
  assumes "ce_others env = (\<lambda>_ s. s)" "\<And>n. posix_write (si_write (en_io (ce_env env n)))"
    and "db_inv (ex_database ex)" "db_maxMemoryBytes (ex_database ex) = 0"
  shows "\<exists>rs ex' evs. answer_lines env n lines ex = Some (rs, ex', evs) \<and>
    map_session (ce_env env) (ex_store ex \<noteq> None) n (db_lookup (ex_database ex)) lines rs (db_lookup (ex_database ex'))"
  using assms(3,4)
proof (induction lines arbitrary: n ex)
  case Nil
  then show ?case by (simp add: map_session.finished)
next
  case (Cons line lines)
  obtain reply ex1 evs1 where e: "execute (ce_env env n) line ex = Some (reply, ex1, evs1)"
    and inv: "db_inv (ex_database ex1)" "db_maxMemoryBytes (ex_database ex1) = 0"
    and st: "ex_store ex1 = None \<longleftrightarrow> ex_store ex = None"
    and step: "map_step (ce_env env n) (ex_store ex \<noteq> None) (parse line) (db_lookup (ex_database ex)) reply
      (db_lookup (ex_database ex1))"
    using execute_map_step [OF Cons.prems assms(2), of n line] by (elim exE conjE)
  obtain rs ex' evs where a: "answer_lines env (Suc n) lines ex1 = Some (rs, ex', evs)"
    and s: "map_session (ce_env env) (ex_store ex \<noteq> None) (Suc n) (db_lookup (ex_database ex1)) lines rs
      (db_lookup (ex_database ex'))"
    using Cons.IH [OF inv, of "Suc n"] st by auto
  show ?case
    using e a step s assms(1)
    by (cases reply) (auto intro: map_session.silent map_session.answers)
qed

section \<open>A connection for the examples\<close>

definition connection_example :: conn_env where
  "connection_example =
     \<lparr>ce_running = (\<lambda>_. True),
      ce_recv = (\<lambda>i. if i = 0 then Recv_bytes ''SE'' else if i = 1 then Recv_err EINTR
                    else if i = 2 then Recv_bytes (''T k v'' @ LF # ''GET'') else Recv_bytes []),
      ce_send = slow_kernel, ce_env = (\<lambda>_. env_example), ce_others = (\<lambda>_ s. s), ce_maxRequestBytes = 16\<rparr>"

lemma connection_example_ok:
  "posix_send (ce_send connection_example)" "delivers connection_example 3" "closes connection_example 3"
  "ce_others connection_example = (\<lambda>_ s. s)" "posix_write (si_write (en_io (ce_env connection_example n)))"
  "received connection_example 3 = ''SET k v'' @ LF # ''GET''"
  by (auto simp: connection_example_def posix_send_def slow_kernel_posix delivers_def closes_def env_example_def
      received_def recv_bytes_def upt_rec less_Suc_eq numeral_3_eq_3)

lemma connection_example_lines:
  "split_lines (received connection_example 3) = [''SET k v'', ''GET'']"
  "complete (received connection_example 3) = [''SET k v'']"
  by (simp_all add: connection_example_ok(6) complete_def)

section \<open>Properties\<close>

text \<open>
  C33. Packets do not matter: however the network cuts the request stream into pieces and
  interrupts the calls, and however the kernel cuts the replies, a connection whose lines are
  within the limit executes exactly the complete lines of the stream in order and sends exactly
  their replies in order, each ended by a line feed. An unfinished last line is not executed.
\<close>

theorem connection_answers_lines:
  assumes "posix_send (ce_send env)" "delivers env n" "closes env n"
    and "\<forall>l\<in>set (split_lines (received env n)). length l \<le> ce_maxRequestBytes env"
    and "answer_lines env 0 (complete (received env n)) ex = Some (rs, ex', evs)"
  shows "\<exists>c. handleConnection env ex = Some c \<and> cn_out c = wire rs \<and> cn_state c = ex' \<and> cn_disk c = evs \<and>
    cn_requests c = length (complete (received env n)) \<and> cn_pending c = unfinished (received env n)"
  using assms by (rule handleConnection_answers)

theorem connection_answers_lines_witness:
  "\<exists>rs ex' evs c. answer_lines connection_example 0 [''SET k v''] (CommandExecutor db0 None) = Some (rs, ex', evs) \<and>
    handleConnection connection_example (CommandExecutor db0 None) = Some c \<and> cn_out c = wire rs \<and> cn_state c = ex'"
proof -
  obtain rs ex' evs where a: "answer_lines connection_example 0 [''SET k v''] (CommandExecutor db0 None) = Some (rs, ex', evs)"
    using answer_lines_map_session [OF connection_example_ok(4,5), of "CommandExecutor db0 None" 0 "[''SET k v'']"]
    by (auto simp: CommandExecutor_def db0_inv db0_limit)
  have "\<forall>l\<in>set (split_lines (received connection_example 3)). length l \<le> ce_maxRequestBytes connection_example"
    by (simp add: connection_example_lines) (simp add: connection_example_def)
  from connection_answers_lines [OF connection_example_ok(1-3) this, unfolded connection_example_lines(2), OF a] a
  show ?thesis by blast
qed



section \<open>Oversized requests\<close>

text \<open>
  What \<open>recv\<close> can deliver at once, and what is buffered after any turn of the loop: at most the limit
  and one more chunk, whatever the client sends.
\<close>

definition recv_bounded :: "conn_env \<Rightarrow> bool" where
  "recv_bounded env \<longleftrightarrow> (\<forall>i bs. ce_recv env i = Recv_bytes bs \<longrightarrow> length bs \<le> kReadChunkSize)"

lemma process_lines_pending:
  "process_lines env c = Some (usable, c') \<Longrightarrow> length (cn_pending c') \<le> length (cn_pending c)"
proof (induction env c arbitrary: usable c' rule: process_lines.induct)
  case (1 env c)
  show ?case
  proof (cases "cut_line (cn_pending c)")
    case None
    with "1.prems" show ?thesis by (subst (asm) process_lines.simps) simp
  next
    case (Some p)
    obtain l r where p: "p = (l, r)" by (cases p)
    note cut = cut_line_length [OF Some [unfolded p]]
    from "1.prems" obtain reply st evs where
      e: "execute (ce_env env (cn_requests c)) l (ce_others env (cn_requests c) (cn_state c)) = Some (reply, st, evs)"
      by (subst (asm) process_lines.simps) (auto simp: Some p split: option.splits)
    show ?thesis
    proof (cases reply)
      case None
      with "1.prems" "1.IH"(1) [OF Some p [symmetric] e refl refl refl None] cut show ?thesis
        by (subst (asm) process_lines.simps) (fastforce simp: Some p e Let_def)
    next
      case (Some x)
      from "1.prems" Some obtain ok bytes sends where
        s: "sendLine (ce_send env) (cn_sends c) x = Some (ok, bytes, sends)"
        by (subst (asm) process_lines.simps) (auto simp: \<open>cut_line _ = Some p\<close> p e Let_def split: option.splits)
      with "1.prems" "1.IH"(2) [OF \<open>cut_line _ = Some p\<close> p [symmetric] e refl refl refl Some] cut show ?thesis
        by (subst (asm) process_lines.simps)
          (fastforce simp: \<open>cut_line _ = Some p\<close> p e Let_def Some split: if_splits)
    qed
  qed
qed

lemma connection_loop_bounded:
  assumes "connection_loop env i c = Some c'" "recv_bounded env" "length (cn_pending c) \<le> ce_maxRequestBytes env"
  shows "length (cn_pending c') \<le> ce_maxRequestBytes env + kReadChunkSize"
  using assms
proof (induction env i c c' rule: connection_loop.raw_induct [rotated, consumes 1, case_names step])
  case (step loop env i c c')
  have turn: "length (cn_pending d) \<le> ce_maxRequestBytes env + kReadChunkSize"
    if "process_lines env (c\<lparr>cn_pending := cn_pending c @ bs\<rparr>) = Some (u, d)" "ce_recv env i = Recv_bytes bs" for bs u d
  proof -
    have "length bs \<le> kReadChunkSize" using step.prems(1) that(2) by (simp add: recv_bounded_def)
    with process_lines_pending [OF that(1)] step.prems(2) show ?thesis by simp
  qed
  show ?case
    using step.hyps step.IH turn step.prems
    by (auto split: if_splits recv_result.splits option.splits)
qed

lemma oversized_turn:
  assumes "posix_send (ce_send env)" "delivers env (Suc n)"
    and "\<forall>l\<in>set (split_lines (received env n)). length l \<le> ce_maxRequestBytes env"
    and "ce_maxRequestBytes env < length (unfinished (received env (Suc n)))"
    and "answer_lines env 0 (complete (received env (Suc n))) ex = Some (rs, ex', evs)"
  shows "\<exists>c. handleConnection env ex = Some c \<and> cn_out c = wire (rs @ [proto_error err_too_large]) \<and> cn_state c = ex'"
proof -
  let ?s = "received env n" and ?bs = "recv_bytes (ce_recv env n)"
  have all: "complete (received env (Suc n)) = complete ?s @ complete (unfinished ?s @ ?bs)"
      "unfinished (received env (Suc n)) = unfinished (unfinished ?s @ ?bs)"
    by (simp_all add: received_Suc complete_append [of ?s] unfinished_append [of ?s])
  obtain rs1 ex1 evs1 rs2 evs2 where a1: "answer_lines env 0 (complete ?s) ex = Some (rs1, ex1, evs1)"
    and a2: "answer_lines env (length (complete ?s)) (complete (unfinished ?s @ ?bs)) ex1 = Some (rs2, ex', evs2)"
    and eq: "rs = rs1 @ rs2"
    using assms(5) unfolding all answer_lines_append by (auto split: option.splits)
  have d: "delivers env n" and run: "ce_running env n" "ce_recv env n \<noteq> Recv_bytes []"
    using assms(2) unfolding delivers_def by (blast intro: less_SucI)+
  obtain i where i: "handleConnection env ex = connection_loop env n
      (answered (start_conn ex) (unfinished ?s) rs1 ex1 evs1 (length (complete ?s)) i)" (is "_ = connection_loop env n ?c")
    using connection_loop_reaches [OF assms(1) d order_refl assms(3) a1] by (auto simp: handleConnection_start)
  obtain i' where p: "process_lines env (?c\<lparr>cn_pending := cn_pending ?c @ ?bs\<rparr>) =
      Some (True, answered (?c\<lparr>cn_pending := cn_pending ?c @ ?bs\<rparr>) (unfinished (unfinished ?s @ ?bs)) rs2 ex' evs2
        (length (complete (unfinished ?s @ ?bs))) i')"
    using process_lines_answers [OF assms(1), of "?c\<lparr>cn_pending := cn_pending ?c @ ?bs\<rparr>" rs2 ex' evs2] a2
    by (auto simp: answered_def start_conn_def)
  obtain bs where bs: "ce_recv env n = Recv_bytes bs" "bs \<noteq> []"
  proof (cases "ce_recv env n")
    case (Recv_err e)
    then have "received env (Suc n) = received env n" by (simp add: received_Suc recv_bytes_def)
    with assms(3,4) show thesis using unfinished_prefix [of ?s "[]"] by fastforce
  qed (use run in auto)
  obtain i'' where s: "sendLine (ce_send env) i' (proto_error err_too_large) = Some (True, proto_error err_too_large @ [LF], i'')"
    using sendLine_sends [OF assms(1)] by blast
  show ?thesis
    using i p s bs run(1) assms(4) all(2)
    by (subst (asm) connection_loop.simps) (auto simp: recv_bytes_def answered_def start_conn_def eq)
qed

text \<open>
  C34. A request line that never ends is cut off: when the unfinished line passes the limit, the
  lines before it have been answered, the client is told that the request is too large, and the
  connection ends without reading on.
\<close>

theorem connection_refuses_oversized:
  assumes "posix_send (ce_send env)" "delivers env (Suc n)"
    and "\<forall>l\<in>set (split_lines (received env n)). length l \<le> ce_maxRequestBytes env"
    and "ce_maxRequestBytes env < length (unfinished (received env (Suc n)))"
    and "answer_lines env 0 (complete (received env (Suc n))) ex = Some (rs, ex', evs)"
  shows "\<exists>c. handleConnection env ex = Some c \<and> cn_out c = wire (rs @ [proto_error err_too_large]) \<and> cn_state c = ex'"
  using assms by (rule oversized_turn)

theorem connection_refuses_oversized_witness:
  "\<exists>c. handleConnection (connection_example\<lparr>ce_recv := (\<lambda>_. Recv_bytes ''aaaaaaaaaa'')\<rparr>) (CommandExecutor db0 None) = Some c \<and>
    cn_out c = ''-ERR request too large'' @ [LF]"
proof -
  let ?env = "connection_example\<lparr>ce_recv := (\<lambda>_. Recv_bytes ''aaaaaaaaaa'')\<rparr>"
  have "posix_send (ce_send ?env)" "delivers ?env (Suc 1)" "received ?env 1 = ''aaaaaaaaaa''"
      "received ?env (Suc 1) = ''aaaaaaaaaaaaaaaaaaaa''" "ce_maxRequestBytes ?env = 16"
    by (auto simp: connection_example_def posix_send_def slow_kernel_posix delivers_def received_def recv_bytes_def)
  then show ?thesis
    using connection_refuses_oversized [of ?env 1 "CommandExecutor db0 None" "[]" "CommandExecutor db0 None" "[]"]
    by (auto simp: complete_def unfinished_def wire_def proto_error_def err_too_large_def)
qed

text \<open>
  Buffering is bounded: whatever the client sends, a connection holds at most the configured
  limit and one chunk of unprocessed bytes when it ends.
\<close>

theorem connection_buffer_bounded:
  assumes "handleConnection env ex = Some c" "recv_bounded env"
  shows "length (cn_pending c) \<le> ce_maxRequestBytes env + kReadChunkSize"
  using connection_loop_bounded [OF _ assms(2), of 0 "start_conn ex" c] assms(1)
  by (simp add: handleConnection_start start_conn_def)

theorem connection_buffer_bounded_witness:
  "\<exists>c. handleConnection connection_example (CommandExecutor db0 None) = Some c \<and>
    length (cn_pending c) \<le> 16 + kReadChunkSize"
proof -
  have lim: "\<forall>l\<in>set (split_lines (received connection_example 3)). length l \<le> ce_maxRequestBytes connection_example"
    by (simp add: connection_example_lines) (simp add: connection_example_def)
  obtain rs ex' evs where "answer_lines connection_example 0 [''SET k v''] (CommandExecutor db0 None) = Some (rs, ex', evs)"
    using answer_lines_map_session [OF connection_example_ok(4,5), of "CommandExecutor db0 None" 0 "[''SET k v'']"]
    by (auto simp: CommandExecutor_def db0_inv db0_limit)
  from handleConnection_answers [OF connection_example_ok(1-3) lim, unfolded connection_example_lines(2), OF this]
  obtain c where c: "handleConnection connection_example (CommandExecutor db0 None) = Some c" by blast
  have "recv_bounded connection_example"
    by (auto simp: recv_bounded_def connection_example_def kReadChunkSize_def)
  with connection_buffer_bounded [OF c] c show ?thesis by (simp add: connection_example_def)
qed

end
