(* ===== verification/VC_Client_Props.thy ===== *)
theory VC_Client_Props
  imports VC_Client VC_Connection_Props
begin

text \<open>
  The client decodes replies however the network cuts them, and client and server together answer
  every request as the map does.
\<close>

section \<open>Reading lines\<close>

definition arrived :: "(nat \<Rightarrow> recv_result) \<Rightarrow> nat \<Rightarrow> nat \<Rightarrow> string" where
  "arrived recv i n = concat (map (\<lambda>j. recv_bytes (recv j)) [i..<n])"

definition keeps_coming :: "(nat \<Rightarrow> recv_result) \<Rightarrow> nat \<Rightarrow> nat \<Rightarrow> bool" where
  "keeps_coming recv i n \<longleftrightarrow> (\<forall>j. i \<le> j \<and> j < n \<longrightarrow> recv j \<noteq> Recv_bytes [] \<and>
     (\<forall>e. recv j = Recv_err e \<longrightarrow> e = EINTR))"

lemma arrived_step: "i < n \<Longrightarrow> arrived recv i n = recv_bytes (recv i) @ arrived recv (Suc i) n"
  by (simp add: arrived_def upt_conv_Cons)

lemma arrived_end [simp]: "n \<le> i \<Longrightarrow> arrived recv i n = []"
  by (simp add: arrived_def)

lemma keeps_coming_mono: "keeps_coming recv i n \<Longrightarrow> i \<le> j \<Longrightarrow> keeps_coming recv j n"
  unfolding keeps_coming_def by (meson order_trans)

lemma cut_line_append: "cut_line s = Some (l, r) \<Longrightarrow> cut_line (s @ t) = Some (l, r @ t)"
  by (induction s arbitrary: l) (auto simp: cut_line_Cons split: if_splits option.splits)

lemma cut_line_free: "line_free l \<Longrightarrow> cut_line (l @ LF # t) = Some (l, t)"
  by (induction l) (auto simp: cut_line_Cons)

lemma readLine_reads:
  assumes "keeps_coming recv i n" "i \<le> n" "cut_line (buffer @ arrived recv i n) = Some (line, rest)"
  shows "\<exists>buffer' j. readLine strerror recv i buffer = Some (Inr line, buffer', j) \<and> i \<le> j \<and> j \<le> n \<and>
    buffer' @ arrived recv j n = rest"
  using assms
proof (induction "n - i" arbitrary: i buffer)
  case 0
  then show ?case by (subst readLine.simps) simp
next
  case (Suc d)
  show ?case
  proof (cases "cut_line buffer")
    case (Some p)
    with Suc.prems(2,3) cut_line_append [of buffer] show ?thesis
      by (subst readLine.simps) (cases p, auto)
  next
    case None
    have i: "i < n" using Suc.hyps(2) by simp
    then have r: "recv i \<noteq> Recv_bytes []" "\<And>e. recv i = Recv_err e \<Longrightarrow> e = EINTR"
      using Suc.prems(1) by (auto simp: keeps_coming_def)
    have "\<exists>buffer' j. readLine strerror recv (Suc i) (buffer @ recv_bytes (recv i)) = Some (Inr line, buffer', j) \<and>
        Suc i \<le> j \<and> j \<le> n \<and> buffer' @ arrived recv j n = rest"
      using Suc.hyps(2) Suc.prems i keeps_coming_mono [OF Suc.prems(1), of "Suc i"]
      by (intro Suc.hyps(1)) (auto simp: arrived_step [OF i])
    with None r show ?thesis
      by (subst readLine.simps) (cases "recv i"; fastforce simp: recv_bytes_def)
  qed
qed

section \<open>Reading replies\<close>

lemma wire_split: "wire (split_lines r) = r @ [LF]"
proof (induction r)
  case (Cons c r)
  then show ?case by (cases "split_lines r") auto
qed simp

lemma split_lines_free: "list_all line_free (split_lines s)"
  using split_lines_no_LF by (auto simp: list_all_iff line_free_def)

lemma read_elements_reads:
  assumes "keeps_coming (cv_recv env) (cl_recvs cl) n" "cl_recvs cl \<le> n"
    and "cl_buffer cl @ arrived (cv_recv env) (cl_recvs cl) n = wire ls @ tail"
    and "list_all line_free ls" "list_all (\<lambda>l. tl_type (proto_parse l) \<noteq> Reply_Unknown) ls"
  shows "\<exists>cl'. read_elements env (length ls) reply cl =
      Some (reply\<lparr>rp_elements := rp_elements reply @ map (\<lambda>l. tl_payload (proto_parse l)) ls, rp_delivered := True\<rparr>, cl') \<and>
    cl_connected cl' = cl_connected cl \<and> cl_buffer cl' @ arrived (cv_recv env) (cl_recvs cl') n = tail"
  using assms
proof (induction ls arbitrary: reply cl)
  case (Cons l ls)
  obtain buffer j where r: "readLine (cv_strerror env) (cv_recv env) (cl_recvs cl) (cl_buffer cl) = Some (Inr l, buffer, j)"
      "cl_recvs cl \<le> j" "j \<le> n" "buffer @ arrived (cv_recv env) j n = wire ls @ tail"
    using readLine_reads [OF Cons.prems(1,2), of "cl_buffer cl" l "wire ls @ tail" "cv_strerror env"] Cons.prems(3,4)
      cut_line_free by auto
  let ?cl = "cl\<lparr>cl_buffer := buffer, cl_recvs := j\<rparr>"
  let ?reply = "reply\<lparr>rp_elements := rp_elements reply @ [tl_payload (proto_parse l)]\<rparr>"
  have "keeps_coming (cv_recv env) j n" using Cons.prems(1) r(2) by (rule keeps_coming_mono)
  then show ?case
    using Cons.IH [of ?cl ?reply] r Cons.prems(4,5) by (simp add: Let_def)
qed simp

text \<open>The reply that its text stands for.\<close>

definition reply_of :: "string \<Rightarrow> Reply" where
  "reply_of raw =
     (let lines = split_lines raw; head = proto_parse (hd lines) in
      \<lparr>rp_delivered = True, rp_type = tl_type head,
       rp_payload = (if tl_type head = Reply_Array then '''' else tl_payload head),
       rp_elements = map (\<lambda>l. tl_payload (proto_parse l)) (tl lines), rp_transportError = ''''\<rparr>)"

text \<open>As \<open>posix_send\<close>, and \<open>send\<close> never accepts nothing.\<close>

definition posix_socket :: "transfer_kernel \<Rightarrow> bool" where
  "posix_socket k \<longleftrightarrow> posix_send k \<and> (\<forall>i n. 0 < n \<longrightarrow> k i n \<noteq> Sys_ok 0)"

lemma client_sends:
  assumes "posix_socket k"
  shows "\<exists>chunks i'. client_sendAll k i data 0 [] = Some (Transfer_done, chunks, i') \<and> concat chunks = data"
  using assms snd_cl.transfer_completes [of k i data] unfolding posix_socket_def posix_send_def by blast

lemma client_command_decodes:
  assumes "cl_connected cl" "posix_socket (cv_send env)"
    and "keeps_coming (cv_recv env) (cl_recvs cl) n" "cl_recvs cl \<le> n"
    and "cl_buffer cl @ arrived (cv_recv env) (cl_recvs cl) n = raw @ LF # tail"
    and "framed (split_lines raw)" "length (split_lines raw) \<le> 100000001"
  shows "\<exists>cl'. client_command env line cl = Some (reply_of raw, cl', line @ [LF]) \<and> cl_connected cl' \<and>
    cl_buffer cl' @ arrived (cv_recv env) (cl_recvs cl') n = tail"
proof -
  obtain chunks sends where s: "client_sendAll (cv_send env) (cl_sends cl) (line @ [LF]) 0 [] =
      Some (Transfer_done, chunks, sends)" "concat chunks = line @ [LF]"
    using client_sends [OF assms(2)] by blast
  obtain head rest where t: "split_lines raw = head # rest" by (cases "split_lines raw") auto
  have all: "raw @ LF # tail = head @ LF # wire rest @ tail" using wire_split [of raw] t by simp
  have free: "line_free head" "list_all line_free rest" using split_lines_free [of raw] t by simp_all
  obtain buffer j where r: "readLine (cv_strerror env) (cv_recv env) (cl_recvs cl) (cl_buffer cl) = Some (Inr head, buffer, j)"
      "cl_recvs cl \<le> j" "j \<le> n" "buffer @ arrived (cv_recv env) j n = wire rest @ tail"
    using readLine_reads [OF assms(3,4), of "cl_buffer cl" head "wire rest @ tail" "cv_strerror env"] assms(5) all
      cut_line_free [OF free(1)] by auto
  let ?cl = "cl\<lparr>cl_sends := sends, cl_buffer := buffer, cl_recvs := j\<rparr>"
  have k: "keeps_coming (cv_recv env) (cl_recvs ?cl) n" using assms(3) r(2) keeps_coming_mono by simp
  have "\<exists>cl'. read_reply env head ?cl = Some (reply_of raw, cl') \<and> cl_connected cl' \<and>
      cl_buffer cl' @ arrived (cv_recv env) (cl_recvs cl') n = tail"
  proof (cases "tl_type (proto_parse head) = Reply_Array")
    case True
    then have "parseCount (tl_payload (proto_parse head)) = Some (length rest)"
        "list_all (\<lambda>l. tl_type (proto_parse l) \<noteq> Reply_Unknown) rest"
      using assms(6,7) t by (auto simp: framed_def list_all_iff)
    with True read_elements_reads [OF k, of rest tail
        "\<lparr>rp_delivered = False, rp_type = Reply_Array, rp_payload = [], rp_elements = [], rp_transportError = []\<rparr>"] r(3,4) free(2) assms(1) t show ?thesis
      by (simp add: read_reply_def Let_def reply_of_def default_Reply_def)
  next
    case False
    then have "rest = []" "tl_type (proto_parse head) \<noteq> Reply_Unknown"
      using assms(6) t by (auto simp: framed_def split: ReplyType.splits)
    with False r(4) assms(1) t show ?thesis
      by (simp add: read_reply_def Let_def reply_of_def default_Reply_def)
  qed
  with s r(1) assms(1) show ?thesis by (auto simp: client_command_def Let_def)
qed

section \<open>Client and server\<close>

lemma tagged_single:
  assumes "framed (split_lines r)" "r \<in> {proto_status s, proto_error s, proto_value s, proto_nil, proto_integer i}"
  shows "length (split_lines r) = 1"
proof -
  obtain c s' where r: "r = c # s'" "c \<in> {CHR ''+'', CHR ''-'', CHR ''$'', CHR ''_'', CHR '':''}"
    using assms(2) by (auto simp: proto_status_def proto_error_def proto_value_def proto_nil_def proto_integer_def)
  then have "c \<noteq> LF" by auto
  then have h: "split_lines r = (c # hd (split_lines s')) # tl (split_lines s')"
    using split_lines_Cons r(1) by simp
  have "tl_type (proto_parse (c # hd (split_lines s'))) \<notin> {Reply_Array, Reply_Unknown}"
    using r(2) by (auto simp: proto_parse_def)
  with assms(1) h have "tl (split_lines s') = []" by (auto simp: framed_def split: ReplyType.splits)
  then show ?thesis unfolding h by (simp only: list.size One_nat_def)
qed

lemma map_step_lines:
  assumes "map_step env persistent request m (Some r) m'" "framed (split_lines r)" "finite (dom m)"
  shows "length (split_lines r) \<le> Suc (card (dom m))"
proof -
  consider keys where "lists_keys (en_shards env) m keys" "r = keys_reply keys"
    | s i where "r \<in> {proto_status s, proto_error s, proto_value s, proto_nil, proto_integer i}"
    using assms(1) unfolding map_step_def
    by (auto split: sum.splits CommandType.splits option.splits if_splits)
  then show ?thesis
  proof cases
    case 1
    then have "distinct keys" "set keys \<subseteq> dom m" by (auto simp: lists_keys_def)
    then have "length keys \<le> card (dom m)" using card_mono [OF assms(3)] distinct_card by metis
    with 1(2) show ?thesis by (simp add: split_keys_reply)
  next
    case (2 s i)
    with tagged_single [OF assms(2)] show ?thesis by force
  qed
qed

definition wants_reply :: "string \<Rightarrow> bool" where
  "wants_reply line \<longleftrightarrow> (case parse line of Inl _ \<Rightarrow> True | Inr c \<Rightarrow> cmd_type c \<noteq> Cmd_Empty)"

lemma map_step_replies: "map_step env p (parse line) m reply m' \<Longrightarrow> wants_reply line \<Longrightarrow> \<exists>r. reply = Some r"
  by (auto simp: map_step_def wants_reply_def split: sum.splits CommandType.splits)

lemma one_line_stream: "line_free line \<Longrightarrow> split_lines (line @ [LF]) = [line, []]"
  using split_lines_append [of line "[]"] by (simp add: line_free_def)

lemma exchange:
  assumes line: "line_free line" "wants_reply line" "length line \<le> ce_maxRequestBytes senv"
    and server: "posix_send (ce_send senv)" "delivers senv n" "closes senv n" "received senv n = line @ [LF]"
      "ce_others senv = (\<lambda>_ s. s)" "\<And>n. posix_write (si_write (en_io (ce_env senv n)))"
      "db_inv (ex_database ex)" "db_maxMemoryBytes (ex_database ex) = 0" "db_size (ex_database ex) \<le> 100000000"
    and texts: "\<And>n e. line_free (en_strerror (ce_env senv n) e)" "\<And>st. ex_store ex = Some st \<Longrightarrow> line_free (ss_path st)"
  obtains c r where "handleConnection senv ex = Some c" "cn_out c = r @ [LF]" "framed (split_lines r)"
      "length (split_lines r) \<le> 100000001"
      "map_step (ce_env senv 0) (ex_store ex \<noteq> None) (parse line) (db_lookup (ex_database ex)) (Some r)
        (db_lookup (ex_database (cn_state c)))"
proof -
  let ?db = "ex_database ex"
  obtain reply ex1 evs1 where e: "execute (ce_env senv 0) line ex = Some (reply, ex1, evs1)"
    and step: "map_step (ce_env senv 0) (ex_store ex \<noteq> None) (parse line) (db_lookup ?db) reply
      (db_lookup (ex_database ex1))"
    using execute_map_step [OF server(7,8,6), of 0 line] by (elim exE conjE)
  obtain r where r: "reply = Some r" using map_step_replies [OF step line(2)] by blast
  have f: "framed (split_lines r)" using execute_framed [OF e [unfolded r] texts] .
  have "length (split_lines r) \<le> Suc (card (dom (db_lookup ?db)))"
    by (rule map_step_lines [OF step [unfolded r] f finite_dom [OF server(7)]])
  then have len: "length (split_lines r) \<le> 100000001" using server(9) by (simp add: db_size_card [OF server(7)])
  have "answer_lines senv 0 (complete (received senv n)) ex = Some ([r], ex1, evs1)"
    by (simp add: server(4,5) complete_def one_line_stream [OF line(1)] e r)
  moreover have "\<forall>l\<in>set (split_lines (received senv n)). length l \<le> ce_maxRequestBytes senv"
    using line(3) by (simp add: server(4) one_line_stream [OF line(1)])
  ultimately obtain c where c: "handleConnection senv ex = Some c" "cn_out c = wire [r]" "cn_state c = ex1"
    using handleConnection_answers [OF server(1-3)] by blast
  show thesis by (rule that [OF c(1) _ f len step [unfolded r, folded c(3)]]) (simp add: c(2))
qed

section \<open>A client and a request for the examples\<close>

definition client_example :: client where
  "client_example = \<lparr>cl_connected = True, cl_buffer = '''', cl_sends = 2, cl_recvs = 0\<rparr>"

definition client_env_example :: "recv_result list \<Rightarrow> client_env" where
  "client_env_example rs =
     \<lparr>cv_send = slow_kernel, cv_recv = (\<lambda>i. if i < length rs then rs ! i else Recv_bytes []), cv_strerror = (\<lambda>_. '''')\<rparr>"

definition request_example :: "string \<Rightarrow> conn_env" where
  "request_example line = connection_example\<lparr>ce_recv := (\<lambda>i. if i = 0 then Recv_bytes (line @ [LF]) else Recv_bytes [])\<rparr>"

lemma slow_kernel_socket: "posix_socket slow_kernel"
  by (auto simp: posix_socket_def posix_send_def slow_kernel_posix slow_kernel_def)

lemma client_env_example_ok:
  assumes "list_all (\<lambda>r. r \<noteq> Recv_bytes [] \<and> (\<forall>e. r = Recv_err e \<longrightarrow> e = EINTR)) rs"
  shows "cl_connected client_example" "cl_buffer client_example = []" "posix_socket (cv_send (client_env_example rs))"
    "keeps_coming (cv_recv (client_env_example rs)) (cl_recvs client_example) (length rs)"
    "cl_recvs client_example \<le> length rs"
    "arrived (cv_recv (client_env_example rs)) (cl_recvs client_example) (length rs) = concat (map recv_bytes rs)"
proof -
  have "map (\<lambda>j. recv_bytes (cv_recv (client_env_example rs) j)) [0..<length rs] = map recv_bytes rs"
    by (rule nth_equalityI) (simp_all add: client_env_example_def)
  then show "arrived (cv_recv (client_env_example rs)) (cl_recvs client_example) (length rs) = concat (map recv_bytes rs)"
    by (simp add: arrived_def client_example_def)
  show "keeps_coming (cv_recv (client_env_example rs)) (cl_recvs client_example) (length rs)"
    using assms by (auto simp: keeps_coming_def client_env_example_def list_all_length)
qed (simp_all add: client_example_def client_env_example_def slow_kernel_socket)

lemma request_example_ok:
  "posix_send (ce_send (request_example line))" "delivers (request_example line) 1" "closes (request_example line) 1"
  "received (request_example line) 1 = line @ [LF]" "ce_others (request_example line) = (\<lambda>_ s. s)"
  "posix_write (si_write (en_io (ce_env (request_example line) n)))" "ce_env (request_example line) n = env_example"
  "ce_maxRequestBytes (request_example line) = 16"
  by (auto simp: request_example_def connection_example_def posix_send_def slow_kernel_posix delivers_def closes_def
      received_def recv_bytes_def env_example_def)

section \<open>Properties\<close>

text \<open>
  C35. The client decodes every reply the server sends: however its bytes are cut into packets, and
  whatever follows them, a framed reply is returned complete, with its kind and payload or
  elements, and exactly its bytes are consumed.
\<close>

theorem client_decodes_reply:
  assumes "cl_connected cl" "posix_socket (cv_send env)"
    and "keeps_coming (cv_recv env) (cl_recvs cl) n" "cl_recvs cl \<le> n"
    and "cl_buffer cl @ arrived (cv_recv env) (cl_recvs cl) n = raw @ LF # tail"
    and "framed (split_lines raw)" "length (split_lines raw) \<le> 100000001"
  shows "\<exists>cl'. client_command env line cl = Some (reply_of raw, cl', line @ [LF]) \<and> cl_connected cl' \<and>
    cl_buffer cl' @ arrived (cv_recv env) (cl_recvs cl') n = tail"
  using assms by (rule client_command_decodes)

theorem client_decodes_reply_witness:
  "\<exists>cl'. client_command (client_env_example [Recv_bytes (''*2'' @ LF # ''$''), Recv_err EINTR,
      Recv_bytes (''a'' @ LF # ''$b''), Recv_bytes (LF # ''+O'')]) ''KEYS'' client_example =
    Some (\<lparr>rp_delivered = True, rp_type = Reply_Array, rp_payload = '''', rp_elements = [''a'', ''b''],
      rp_transportError = ''''\<rparr>, cl', ''KEYS'' @ [LF])"
proof -
  let ?rs = "[Recv_bytes (''*2'' @ LF # ''$''), Recv_err EINTR, Recv_bytes (''a'' @ LF # ''$b''), Recv_bytes (LF # ''+O'')]"
  let ?raw = "''*2'' @ LF # ''$a'' @ LF # ''$b''"
  have s: "split_lines ?raw = [''*2'', ''$a'', ''$b'']" by simp
  have "parseCount ''2'' = Some 2" by (simp add: parseCount_def digit_val_def byte_def)
  then have f: "framed (split_lines ?raw)" "length (split_lines ?raw) \<le> 100000001"
    unfolding s by (simp_all add: framed_def proto_parse_def)
  have "list_all (\<lambda>r. r \<noteq> Recv_bytes [] \<and> (\<forall>e. r = Recv_err e \<longrightarrow> e = EINTR)) ?rs" by simp
  note ok = client_env_example_ok [OF this]
  have "cl_buffer client_example @ arrived (cv_recv (client_env_example ?rs)) (cl_recvs client_example) (length ?rs) =
      ?raw @ LF # ''+O''"
    unfolding ok(2,6) by (simp add: recv_bytes_def)
  from client_decodes_reply [OF ok(1,3-5) this f, of "''KEYS''"] show ?thesis
    unfolding reply_of_def s by (auto simp: proto_parse_def)
qed



end
