(* ===== verification/VC_CommandLine.thy ===== *)
theory VC_CommandLine
  imports VC_CommandParser
begin

text \<open>
  What the two programs of server/main.cpp and client/main.cpp share: their output streams, and the number
  readers of the standard library they use, \<open>std::stoi\<close>, \<open>std::stoll\<close> and \<open>std::stoull\<close>.
\<close>

datatype printed = Stdout string | Stderr string

definition lines_text :: "string list \<Rightarrow> string" where
  "lines_text ls = concat (map (\<lambda>l. l @ [LF]) ls)"

definition c_isspace :: "char \<Rightarrow> bool" where
  "c_isspace c \<longleftrightarrow> c = CHR '' '' \<or> in_range (CHR 0x09) (CHR 0x0D) c"

text \<open>
  White space, a sign, and the longest run of digits: the value, and the number of characters consumed.
  Without a digit there is no value, which is the exception \<open>invalid_argument\<close>.
\<close>

definition scan_integer :: "string \<Rightarrow> (int \<times> nat) option" where
  "scan_integer text =
     (let body = dropWhile c_isspace text;
          signed = (body \<noteq> [] \<and> (hd body = CHR ''-'' \<or> hd body = CHR ''+''));
          ds = takeWhile is_digit (if signed then tl body else body);
          v = (if signed \<and> hd body = CHR ''-'' then - int (digits_val ds) else int (digits_val ds))
      in if ds = [] then None
         else Some (v, length text - length body + (if signed then 1 else 0) + length ds))"

text \<open>None is an exception: no number, or one outside the range of the result.\<close>

definition stoi :: "string \<Rightarrow> (int \<times> nat) option" where
  "stoi text = (case scan_integer text of
     Some (v, consumed) \<Rightarrow> if - (2 ^ 31) \<le> v \<and> v < 2 ^ 31 then Some (v, consumed) else None | None \<Rightarrow> None)"

definition stoll :: "string \<Rightarrow> (int \<times> nat) option" where
  "stoll text = (case scan_integer text of
     Some (v, consumed) \<Rightarrow> if - (2 ^ 63) \<le> v \<and> v < 2 ^ 63 then Some (v, consumed) else None | None \<Rightarrow> None)"

text \<open>For a text of digits only, as its one caller passes.\<close>

definition stoull :: "string \<Rightarrow> nat option" where
  "stoull ds = (if ds \<noteq> [] \<and> digits_val ds < 2 ^ 64 then Some (digits_val ds) else None)"

end
