(* ===== verification/VC_Background.thy ===== *)
theory VC_Background
  imports VC_Persistence_Props
begin

text \<open>
  The two background threads: \<open>ExpirationSweeper\<close> (include/ExpirationSweeper.h, src/ExpirationSweeper.cpp)
  and \<open>SnapshotScheduler\<close> (include/SnapshotScheduler.h, src/SnapshotScheduler.cpp). Each waits for its
  interval or for a request to stop, and does one piece of work per turn. \<open>stop i\<close> is the value of
  \<open>stopRequested_\<close> when the wait of turn \<open>i\<close> ends; what other threads do to the database between two
  turns is an argument as well.
\<close>

section \<open>A loop that works until it is stopped\<close>

text \<open>The work of turn \<open>i\<close> may fail to return.\<close>

locale background_loop =
  fixes loop :: "(nat \<Rightarrow> bool) \<Rightarrow> nat \<Rightarrow> 's \<Rightarrow> 's option"
    and work :: "nat \<Rightarrow> 's \<Rightarrow> 's option"
  assumes turn: "loop stop i s = (if stop i then Some s else Option.bind (work i s) (loop stop (Suc i)))"
begin

text \<open>\<open>n\<close> turns from turn \<open>i\<close> on.\<close>

fun turns :: "nat \<Rightarrow> nat \<Rightarrow> 's \<Rightarrow> 's option" where
  "turns i 0 s = Some s"
| "turns i (Suc n) s = Option.bind (work i s) (turns (Suc i) n)"

lemma loop_until_stop:
  assumes "\<forall>j<n. \<not> stop (i + j)" "stop (i + n)"
  shows "loop stop i s = turns i n s"
  using assms
proof (induction n arbitrary: i s)
  case 0
  then show ?case by (subst turn) simp
next
  case (Suc n)
  have "\<forall>j<n. \<not> stop (Suc i + j)" using Suc.prems(1) by auto
  with Suc.prems(2) have "loop stop (Suc i) = turns (Suc i) n" by (intro ext Suc.IH) simp_all
  with Suc.prems(1) show ?case by (subst turn) auto
qed

text \<open>What one turn keeps, the loop keeps.\<close>

lemma turns_invariant:
  assumes "\<And>i s s'. P i s \<Longrightarrow> work i s = Some s' \<Longrightarrow> P (Suc i) s'" "P i s" "turns i n s = Some s'"
  shows "P (i + n) s'"
  using assms(2,3)
proof (induction n arbitrary: i s)
  case (Suc n)
  from Suc.prems(2) obtain s1 where "work i s = Some s1" "turns (Suc i) n s1 = Some s'"
    by (auto simp: bind_eq_Some_conv)
  with Suc.IH [of "Suc i" s1] assms(1) Suc.prems(1) show ?case by simp
qed simp

lemma turns_return:
  assumes "\<And>i s. P i s \<Longrightarrow> \<exists>s'. work i s = Some s' \<and> P (Suc i) s'" "P i s"
  shows "\<exists>s'. turns i n s = Some s' \<and> P (i + n) s'"
  using assms(2)
proof (induction n arbitrary: i s)
  case (Suc n)
  obtain s1 where "work i s = Some s1" "P (Suc i) s1" using assms(1) [OF Suc.prems] by blast
  with Suc.IH [of "Suc i" s1] show ?case by simp
qed simp

end

section \<open>The sweeper\<close>

record SweeperConfig =
  swc_interval :: int
  swc_bucketsPerPass :: nat

definition default_SweeperConfig :: SweeperConfig where
  "default_SweeperConfig = \<lparr>swc_interval = 100, swc_bucketsPerPass = 128\<rparr>"

record sweeper =
  sw_config :: SweeperConfig
  sw_thread :: bool
  sw_running :: bool
  sw_stopRequested :: bool
  sw_totalReclaimed :: nat
  sw_passes :: nat

definition ExpirationSweeper :: "SweeperConfig \<Rightarrow> sweeper" where
  "ExpirationSweeper config =
     \<lparr>sw_config = (if swc_bucketsPerPass config = 0 then config\<lparr>swc_bucketsPerPass := 1\<rparr> else config),
      sw_thread = False, sw_running = False, sw_stopRequested = False, sw_totalReclaimed = 0, sw_passes = 0\<rparr>"

text \<open>\<open>sw_thread\<close>: the thread object is joinable. Starting a second time does nothing.\<close>

definition sweeper_start :: "sweeper \<Rightarrow> sweeper" where
  "sweeper_start sw =
     (if sw_running sw then sw
      else sw\<lparr>sw_running := True, sw_stopRequested := False, sw_thread := True\<rparr>)"

definition sweeper_stop :: "sweeper \<Rightarrow> sweeper" where
  "sweeper_stop sw = sw\<lparr>sw_stopRequested := True, sw_thread := False, sw_running := False\<rparr>"

definition sweep_pass ::
  "(nat \<Rightarrow> nat \<Rightarrow> time_point) \<Rightarrow> (nat \<Rightarrow> database \<Rightarrow> database) \<Rightarrow> nat \<Rightarrow> sweeper \<times> database \<Rightarrow> (sweeper \<times> database) option" where
  "sweep_pass clks others i s =
     (case s of (sw, db) \<Rightarrow>
        case db_removeExpired (clks i) (swc_bucketsPerPass (sw_config sw)) (others i db) of
          (reclaimed, db') \<Rightarrow>
            Some (sw\<lparr>sw_totalReclaimed := sw_totalReclaimed sw + reclaimed, sw_passes := Suc (sw_passes sw)\<rparr>, db'))"

partial_function (option) sweepLoop ::
  "(nat \<Rightarrow> nat \<Rightarrow> time_point) \<Rightarrow> (nat \<Rightarrow> database \<Rightarrow> database) \<Rightarrow> (nat \<Rightarrow> bool) \<Rightarrow> nat \<Rightarrow> sweeper \<times> database \<Rightarrow>
     (sweeper \<times> database) option" where
  "sweepLoop clks others stop i s =
     (if stop i then Some s else Option.bind (sweep_pass clks others i s) (sweepLoop clks others stop (Suc i)))"

interpretation sweeping: background_loop "sweepLoop clks others" "sweep_pass clks others" for clks others
  by unfold_locales (rule sweepLoop.simps)

section \<open>The scheduler\<close>

record scheduler =
  sd_interval :: int
  sd_thread :: bool
  sd_running :: bool
  sd_stopRequested :: bool
  sd_attempts :: nat
  sd_failures :: nat
  sd_lastError :: string

definition SnapshotScheduler :: "int \<Rightarrow> scheduler" where
  "SnapshotScheduler interval =
     \<lparr>sd_interval = interval, sd_thread = False, sd_running = False, sd_stopRequested = False,
      sd_attempts = 0, sd_failures = 0, sd_lastError = ''''\<rparr>"

definition scheduler_start :: "scheduler \<Rightarrow> scheduler" where
  "scheduler_start sd =
     (if sd_interval sd \<le> 0 then sd
      else if sd_running sd then sd
      else sd\<lparr>sd_running := True, sd_stopRequested := False, sd_thread := True\<rparr>)"

definition scheduler_stop :: "scheduler \<Rightarrow> scheduler" where
  "scheduler_stop sd = sd\<lparr>sd_stopRequested := True, sd_thread := False, sd_running := False\<rparr>"

definition lastError :: "scheduler \<Rightarrow> string" where
  "lastError sd = sd_lastError sd"

text \<open>The environment of turn \<open>i\<close>: the database as it is then, and what the save reads of kernel and clocks.\<close>

record save_env =
  sv_database :: "nat \<Rightarrow> database"
  sv_io :: "nat \<Rightarrow> save_io"
  sv_clock :: "nat \<Rightarrow> save_clock"
  sv_tick :: int
  sv_strerror :: "errno \<Rightarrow> string"

definition scheduled_save ::
  "save_env \<Rightarrow> nat \<Rightarrow> scheduler \<times> store \<times> disk_event list \<Rightarrow> (scheduler \<times> store \<times> disk_event list) option" where
  "scheduled_save env i s =
     (case s of (sd, st, evs) \<Rightarrow>
        case save (sv_strerror env) (sv_io env i) (sv_tick env) (sv_clock env i) (sv_database env i) st of
          None \<Rightarrow> None
        | Some (outcome, st', evs') \<Rightarrow>
            let sd' = sd\<lparr>sd_attempts := Suc (sd_attempts sd)\<rparr> in
            Some (if \<not> so_ok outcome
                  then sd'\<lparr>sd_failures := Suc (sd_failures sd'), sd_lastError := so_error outcome\<rparr> else sd',
                  st', evs @ evs'))"

partial_function (option) scheduleLoop ::
  "save_env \<Rightarrow> (nat \<Rightarrow> bool) \<Rightarrow> nat \<Rightarrow> scheduler \<times> store \<times> disk_event list \<Rightarrow>
     (scheduler \<times> store \<times> disk_event list) option" where
  "scheduleLoop env stop i s =
     (if stop i then Some s else Option.bind (scheduled_save env i s) (scheduleLoop env stop (Suc i)))"

interpretation scheduling: background_loop "scheduleLoop env" "scheduled_save env" for env
  by unfold_locales (rule scheduleLoop.simps)

end
