(* ===== verification/VC_Runs.thy ===== *)
theory VC_Runs
  imports VC_Prelude
begin

text \<open>
  Threads that interleave are modelled as a step relation between states, with an event for each step, and
  a run is a sequence of steps with its events. This is the contract of such runs, and what the
  thread pool and the server use of it: invariants of a state and its history, and a bound on the
  number of steps of a kind.
\<close>

locale traced_runs =
  fixes step :: "'s \<Rightarrow> 'e \<Rightarrow> 's \<Rightarrow> bool" and run :: "'s \<Rightarrow> 'e list \<Rightarrow> 's \<Rightarrow> bool"
  assumes run_induct: "run s0 es s \<Longrightarrow> P [] s0 \<Longrightarrow>
    (\<And>es s e s'. P es s \<Longrightarrow> step s e s' \<Longrightarrow> P (es @ [e]) s') \<Longrightarrow> P es s"
    and run_none: "run s0 [] s0"
    and run_more: "run s0 es s \<Longrightarrow> step s e s' \<Longrightarrow> run s0 (es @ [e]) s'"
begin

text \<open>What holds at the start and is kept by every step, holds of every history and the state it leads to.\<close>

lemma invariant:
  assumes "run s0 es s" "I [] s0" "\<And>es s e s'. I es s \<Longrightarrow> step s e s' \<Longrightarrow> I (es @ [e]) s'"
  shows "I es s"
  using assms by (rule run_induct)

text \<open>Runs can be put together and cut.\<close>

lemma append: "run s0 es s \<Longrightarrow> run s fs t \<Longrightarrow> run s0 (es @ fs) t"
proof (rule invariant [where I = "\<lambda>fs t. run s0 (es @ fs) t"])
  fix fs t e t'
  assume "run s0 (es @ fs) t" "step t e t'"
  then show "run s0 (es @ fs @ [e]) t'" using run_more [of s0 "es @ fs" t e t'] by simp
qed simp_all

lemma cut: "run s0 (es @ fs) t \<Longrightarrow> \<exists>s. run s0 es s \<and> run s fs t"
proof -
  have "\<forall>es fs. hs = es @ fs \<longrightarrow> (\<exists>s. run s0 es s \<and> run s fs t)" if "run s0 hs t" for hs t
  proof -
    let ?I = "\<lambda>hs t. run s0 hs t \<and> (\<forall>es fs. hs = es @ fs \<longrightarrow> (\<exists>s. run s0 es s \<and> run s fs t))"
    have "?I hs t"
    proof (rule invariant [where I = ?I, OF that])
      fix hs t e t'
      assume I: "?I hs t" and step: "step t e t'"
      then have more: "run s0 (hs @ [e]) t'" using run_more by blast
      have "\<exists>s. run s0 es s \<and> run s fs t'" if "hs @ [e] = es @ fs" for es fs
      proof (cases fs rule: rev_exhaust)
        case Nil
        with more that run_none show ?thesis by auto
      next
        case (snoc gs x)
        with that I obtain s where "run s0 es s" "run s gs t" by auto
        with snoc that step run_more show ?thesis by auto
      qed
      with more show "?I (hs @ [e]) t'" by blast
    qed (use run_none in auto)
    then show ?thesis by blast
  qed
  then show "run s0 (es @ fs) t \<Longrightarrow> \<exists>s. run s0 es s \<and> run s fs t" by blast
qed

text \<open>
  Where every step keeps the guard, and each counted one decreases the measure and no other increases it, the
  measure bounds the number of counted steps.
\<close>

lemma bounded:
  fixes left :: "'s \<Rightarrow> nat"
  assumes "run s0 es s" "guard s0"
    and "\<And>s e s'. guard s \<Longrightarrow> step s e s' \<Longrightarrow> guard s' \<and> left s' + (if counted e then 1 else 0) \<le> left s"
  shows "guard s \<and> left s + length (filter counted es) \<le> left s0"
proof (rule invariant [where I = "\<lambda>es s. guard s \<and> left s + length (filter counted es) \<le> left s0", OF assms(1)])
  fix es s e s'
  assume "guard s \<and> left s + length (filter counted es) \<le> left s0" "step s e s'"
  with assms(3) [of s e s'] show "guard s' \<and> left s' + length (filter counted (es @ [e])) \<le> left s0"
    by (auto split: if_splits)
qed (simp add: assms(2))

end

end
