(* ===== verification/VC_ThreadPool.thy ===== *)
theory VC_ThreadPool
  imports VC_Runs
begin

text \<open>
  The worker pool of include/ThreadPool.h and src/ThreadPool.cpp. A task is a value of any type; what
  running it does is up to the client. Every operation on the queue is one critical section,
  so the pool is a machine whose steps are the critical sections of its threads: \<open>trySubmit\<close>, the two
  halves of \<open>shutdown\<close>, and for each worker the section that takes a task or leaves, and the return
  of a task. A worker is waiting for a task, running one, or gone; a wait that wakes up without a
  reason goes back to waiting and is no step.
\<close>

section \<open>State and operations\<close>

datatype 'a worker = Waiting | Busy 'a | Gone

record 'a pool =
  tp_tasks :: "'a list"
  tp_workers :: "'a worker list"
  tp_threadCount :: nat
  tp_maxQueuedTasks :: nat
  tp_stopping :: bool
  tp_taskExceptions :: nat

definition kUnboundedQueue :: nat where
  "kUnboundedQueue = 0"

definition ThreadPool :: "nat \<Rightarrow> nat \<Rightarrow> 'a pool" where
  "ThreadPool threadCount maxQueuedTasks =
     (let n = (if threadCount = 0 then 1 else threadCount) in
      \<lparr>tp_tasks = [], tp_workers = replicate n Waiting, tp_threadCount = n, tp_maxQueuedTasks = maxQueuedTasks,
       tp_stopping = False, tp_taskExceptions = 0\<rparr>)"

definition trySubmit :: "'a \<Rightarrow> 'a pool \<Rightarrow> bool \<times> 'a pool" where
  "trySubmit task p =
     (if tp_stopping p then (False, p)
      else if tp_maxQueuedTasks p \<noteq> kUnboundedQueue \<and> length (tp_tasks p) \<ge> tp_maxQueuedTasks p then (False, p)
      else (True, p\<lparr>tp_tasks := tp_tasks p @ [task]\<rparr>))"

definition queuedTasks :: "'a pool \<Rightarrow> nat" where
  "queuedTasks p = length (tp_tasks p)"

text \<open>\<open>shutdown\<close>: the flag is set first; the joins return when every worker is gone.\<close>

definition begin_shutdown :: "'a pool \<Rightarrow> 'a pool" where
  "begin_shutdown p = p\<lparr>tp_stopping := True\<rparr>"

definition joined :: "'a pool \<Rightarrow> bool" where
  "joined p \<longleftrightarrow> list_all (\<lambda>w. w = Gone) (tp_workers p)"

definition end_shutdown :: "'a pool \<Rightarrow> 'a pool" where
  "end_shutdown p = p\<lparr>tp_workers := []\<rparr>"

text \<open>
  One turn of \<open>workerLoop\<close> by worker \<open>i\<close>, from the wait to the unlock: nothing while the predicate of
  the wait is false, otherwise the worker leaves or takes the task at the front.
\<close>

definition worker_turn :: "nat \<Rightarrow> 'a pool \<Rightarrow> 'a pool" where
  "worker_turn i p =
     (if \<not> (tp_stopping p \<or> tp_tasks p \<noteq> []) then p
      else case tp_tasks p of
        [] \<Rightarrow> p\<lparr>tp_workers := (tp_workers p)[i := Gone]\<rparr>
      | task # rest \<Rightarrow> p\<lparr>tp_workers := (tp_workers p)[i := Busy task], tp_tasks := rest\<rparr>)"

text \<open>The return of the running task, which may have thrown.\<close>

definition worker_return :: "nat \<Rightarrow> bool \<Rightarrow> 'a pool \<Rightarrow> 'a pool" where
  "worker_return i threw p =
     p\<lparr>tp_workers := (tp_workers p)[i := Waiting],
       tp_taskExceptions := tp_taskExceptions p + (if threw then 1 else 0)\<rparr>"

section \<open>Steps\<close>

datatype 'a pool_event =
    Submit 'a bool
  | Shutdown
  | Take nat 'a
  | Leave nat
  | Return nat 'a bool
  | Joined

inductive pool_step :: "'a pool \<Rightarrow> 'a pool_event \<Rightarrow> 'a pool \<Rightarrow> bool" where
  submit: "trySubmit task p = (ok, p') \<Longrightarrow> pool_step p (Submit task ok) p'"
| shutdown: "pool_step p Shutdown (begin_shutdown p)"
| take: "i < length (tp_workers p) \<Longrightarrow> tp_workers p ! i = Waiting \<Longrightarrow> tp_tasks p = task # rest \<Longrightarrow>
    pool_step p (Take i task) (worker_turn i p)"
| leave: "i < length (tp_workers p) \<Longrightarrow> tp_workers p ! i = Waiting \<Longrightarrow> tp_tasks p = [] \<Longrightarrow> tp_stopping p \<Longrightarrow>
    pool_step p (Leave i) (worker_turn i p)"
| finish: "i < length (tp_workers p) \<Longrightarrow> tp_workers p ! i = Busy task \<Longrightarrow>
    pool_step p (Return i task threw) (worker_return i threw p)"
| join: "tp_stopping p \<Longrightarrow> joined p \<Longrightarrow> pool_step p Joined (end_shutdown p)"

text \<open>A run, with the events that happened in order.\<close>

inductive pool_run :: "'a pool \<Rightarrow> 'a pool_event list \<Rightarrow> 'a pool \<Rightarrow> bool" for p0 where
  start: "pool_run p0 [] p0"
| more: "pool_run p0 evs p \<Longrightarrow> pool_step p ev p' \<Longrightarrow> pool_run p0 (evs @ [ev]) p'"

inductive_cases pool_stepE: "pool_step p ev p'"

interpretation pool_runs: traced_runs pool_step pool_run
proof
  fix s0 s :: "'a pool" and es :: "'a pool_event list" and P
  assume "pool_run s0 es s" "P [] s0" "\<And>es s e s'. P es s \<Longrightarrow> pool_step s e s' \<Longrightarrow> P (es @ [e]) s'"
  then show "P es s" by (induction rule: pool_run.induct) blast+
qed (fact pool_run.start pool_run.more)+

section \<open>Histories\<close>

fun accepts :: "'a pool_event \<Rightarrow> 'a list" where
  "accepts (Submit task True) = [task]"
| "accepts _ = []"

fun starts :: "'a pool_event \<Rightarrow> 'a list" where
  "starts (Take i task) = [task]"
| "starts _ = []"

fun finishes :: "'a pool_event \<Rightarrow> 'a list" where
  "finishes (Return i task threw) = [task]"
| "finishes _ = []"

fun throws :: "'a pool_event \<Rightarrow> nat" where
  "throws (Return i task True) = 1"
| "throws _ = 0"

text \<open>The tasks accepted, started and finished in a history, in order.\<close>

definition accepted :: "'a pool_event list \<Rightarrow> 'a list" where
  "accepted evs = concat (map accepts evs)"

definition started :: "'a pool_event list \<Rightarrow> 'a list" where
  "started evs = concat (map starts evs)"

definition finished :: "'a pool_event list \<Rightarrow> 'a list" where
  "finished evs = concat (map finishes evs)"

definition thrown :: "'a pool_event list \<Rightarrow> nat" where
  "thrown evs = sum_list (map throws evs)"

fun running_task :: "'a worker \<Rightarrow> 'a list" where
  "running_task (Busy task) = [task]"
| "running_task _ = []"

definition running_tasks :: "'a pool \<Rightarrow> 'a list" where
  "running_tasks p = concat (map running_task (tp_workers p))"

end
