(* ===== verification/VC_Server.thy ===== *)
theory VC_Server
  imports VC_Connection VC_Background VC_ThreadPool
begin

text \<open>
  The server of include/Server.h and src/Server.cpp. \<open>server_start\<close> is sequential: the kernel's answers
  are its arguments, and the descriptors it opens and closes are part of its result. \<open>run\<close>,
  \<open>serveConnection\<close> and \<open>stop\<close> run at the same time on different threads, so they are steps on a
  shared state, each step one access to what the threads share; \<open>net_step\<close> interleaves them with the
  steps of the pool in any order. What a worker does inside \<open>handleConnection\<close> is in VC_Connection.
\<close>

section \<open>Configuration and state\<close>

record ServerConfig =
  cfg_bindAddress :: string
  cfg_port :: "16 word"
  cfg_backlog :: int
  cfg_maxRequestBytes :: nat
  cfg_threadCount :: nat
  cfg_maxQueuedConnections :: nat
  cfg_sweeper :: SweeperConfig
  cfg_snapshotPath :: string
  cfg_saveInterval :: int
  cfg_restoreOnStart :: bool
  cfg_shardCount :: nat
  cfg_maxMemoryBytes :: nat

definition default_ServerConfig :: ServerConfig where
  "default_ServerConfig =
     \<lparr>cfg_bindAddress = ''127.0.0.1'', cfg_port = 6379, cfg_backlog = 128, cfg_maxRequestBytes = 8 * 1024 * 1024,
      cfg_threadCount = 64, cfg_maxQueuedConnections = 128, cfg_sweeper = default_SweeperConfig,
      cfg_snapshotPath = '''', cfg_saveInterval = 0, cfg_restoreOnStart = True,
      cfg_shardCount = kDefaultShardCount, cfg_maxMemoryBytes = 0\<rparr>"

record server =
  sr_config :: ServerConfig
  sr_pool :: "int pool option"
  sr_sweeper :: "sweeper option"
  sr_store :: "store option"
  sr_scheduler :: "scheduler option"
  sr_listenFd :: int
  sr_shutdownPipe :: "int \<times> int"
  sr_boundPort :: "16 word"
  sr_restoredEntryCount :: nat
  sr_error :: string

definition Server :: "ServerConfig \<Rightarrow> server" where
  "Server config =
     \<lparr>sr_config = config, sr_pool = None, sr_sweeper = None, sr_store = None, sr_scheduler = None,
      sr_listenFd = - 1, sr_shutdownPipe = (- 1, - 1), sr_boundPort = 0, sr_restoredEntryCount = 0, sr_error = ''''\<rparr>"

section \<open>Starting\<close>

datatype fd_event = Fd_open int | Fd_close int

text \<open>The kernel's answers during \<open>start\<close>: an error, or what the call returned.\<close>

record start_env =
  se_strerror :: "errno \<Rightarrow> string"
  se_load_io :: load_io
  se_tick :: int
  se_load_clock :: load_clock
  se_content :: string
  se_socket :: "errno + int"
  se_setsockopt :: "errno option"
  se_inet_pton :: "string \<Rightarrow> bool"
  se_bind :: "errno option"
  se_listen :: "errno option"
  se_getsockname :: "errno + 16 word"
  se_pipe :: "errno + int \<times> int"

definition server_describeErrno :: "(errno \<Rightarrow> string) \<Rightarrow> string \<Rightarrow> errno \<Rightarrow> string" where
  "server_describeErrno strerror what e = what @ '' failed: '' @ strerror e"

definition close_fd :: "int \<Rightarrow> fd_event list" where
  "close_fd fd = (if fd \<ge> 0 then [Fd_close fd] else [])"

definition closeSockets :: "server \<Rightarrow> server \<times> fd_event list" where
  "closeSockets s =
     (case sr_shutdownPipe s of (r, w) \<Rightarrow>
        (s\<lparr>sr_listenFd := if sr_listenFd s \<ge> 0 then - 1 else sr_listenFd s,
           sr_shutdownPipe := (if r \<ge> 0 then - 1 else r, if w \<ge> 0 then - 1 else w)\<rparr>,
         close_fd (sr_listenFd s) @ close_fd r @ close_fd w))"

definition start_failed :: "string \<Rightarrow> server \<Rightarrow> bool \<times> server \<times> fd_event list" where
  "start_failed err s = (case closeSockets (s\<lparr>sr_error := err\<rparr>) of (s', evs) \<Rightarrow> (False, s', evs))"

text \<open>The snapshot is loaded before anything else; the result says whether to go on.\<close>

definition restore_snapshot :: "start_env \<Rightarrow> server \<Rightarrow> database \<Rightarrow> (bool \<times> server \<times> database) option" where
  "restore_snapshot env s db =
     (let path = cfg_snapshotPath (sr_config s) in
      if path = '''' then Some (True, s, db)
      else
        let st = SnapshotStore path; s' = s\<lparr>sr_store := Some st\<rparr> in
        if \<not> cfg_restoreOnStart (sr_config s) then Some (True, s', db)
        else case load (se_strerror env) (se_load_io env) (se_tick env) (se_load_clock env) (se_content env) st db of
          None \<Rightarrow> None
        | Some (outcome, db') \<Rightarrow>
            if lo_status outcome = Load_Failed
            then Some (False,
              s'\<lparr>sr_error := ''cannot load snapshot '' @ [apostrophe] @ path @ [apostrophe] @ '': '' @ lo_error outcome,
                 sr_store := None\<rparr>, db')
            else Some (True, s'\<lparr>sr_restoredEntryCount := lo_entriesLoaded outcome\<rparr>, db'))"

definition listen_socket :: "start_env \<Rightarrow> server \<Rightarrow> bool \<times> server \<times> fd_event list" where
  "listen_socket env s =
     (case se_setsockopt env of
        Some e \<Rightarrow> start_failed (server_describeErrno (se_strerror env) ''setsockopt(SO_REUSEADDR)'' e) s
      | None \<Rightarrow>
          if \<not> se_inet_pton env (cfg_bindAddress (sr_config s))
          then start_failed (''invalid bind address: '' @ cfg_bindAddress (sr_config s)) s
          else case se_bind env of
            Some e \<Rightarrow> start_failed (server_describeErrno (se_strerror env) ''bind'' e) s
          | None \<Rightarrow>
              (case se_listen env of
                 Some e \<Rightarrow> start_failed (server_describeErrno (se_strerror env) ''listen'' e) s
               | None \<Rightarrow>
                   (case se_getsockname env of
                      Inl e \<Rightarrow> start_failed (server_describeErrno (se_strerror env) ''getsockname'' e) s
                    | Inr port \<Rightarrow>
                        let s' = s\<lparr>sr_boundPort := port\<rparr> in
                        (case se_pipe env of
                           Inl e \<Rightarrow> start_failed (server_describeErrno (se_strerror env) ''pipe'' e) s'
                         | Inr (r, w) \<Rightarrow> (True, s'\<lparr>sr_shutdownPipe := (r, w)\<rparr>, [Fd_open r, Fd_open w])))))"

definition start_threads :: "server \<Rightarrow> server" where
  "start_threads s =
     (let cfg = sr_config s;
          s1 = s\<lparr>sr_pool := Some (ThreadPool (cfg_threadCount cfg) (cfg_maxQueuedConnections cfg))\<rparr>;
          s2 = (if swc_interval (cfg_sweeper cfg) > 0
                then s1\<lparr>sr_sweeper := Some (sweeper_start (ExpirationSweeper (cfg_sweeper cfg)))\<rparr> else s1)
      in if sr_store s2 \<noteq> None \<and> cfg_saveInterval cfg > 0
         then s2\<lparr>sr_scheduler := Some (scheduler_start (SnapshotScheduler (cfg_saveInterval cfg)))\<rparr> else s2)"

definition server_start ::
  "start_env \<Rightarrow> server \<Rightarrow> database \<Rightarrow> (bool \<times> server \<times> database \<times> fd_event list) option" where
  "server_start env s db =
     (case restore_snapshot env s (db_setMaxMemory (cfg_maxMemoryBytes (sr_config s)) db) of
        None \<Rightarrow> None
      | Some (False, s', db') \<Rightarrow> Some (False, s', db', [])
      | Some (True, s', db') \<Rightarrow>
          (case se_socket env of
             Inl e \<Rightarrow>
               Some (False, s'\<lparr>sr_listenFd := - 1, sr_error := server_describeErrno (se_strerror env) ''socket'' e\<rparr>, db', [])
           | Inr fd \<Rightarrow>
               (case listen_socket env (s'\<lparr>sr_listenFd := fd\<rparr>) of
                  (ok, s'', evs) \<Rightarrow>
                    Some (ok, if ok then start_threads s'' else s'', db', Fd_open fd # evs))))"

section \<open>Running\<close>

text \<open>Where the thread in \<open>run\<close> is.\<close>

datatype run_pc =
    Not_running
  | Loop_head
  | Polling
  | Accepting
  | Submitting int
  | Refusing int
  | Leaving
  | Interrupting
  | Stopping_pool
  | Joining
  | Stopping_threads
  | Returned

text \<open>Where a worker that has taken a connection is inside \<open>serveConnection\<close>.\<close>

datatype phase = Entered | Registered | Serving | Ending | Done_serving

text \<open>
  \<open>nt_phase\<close> is by worker. \<open>nt_open\<close> are the client descriptors that are open, \<open>nt_shut\<close> those of them
  that \<open>shutdown\<close> was called on, and \<open>nt_woken\<close> says that a byte is in the self-pipe.
\<close>

record net =
  nt_server :: server
  nt_pool :: "int pool"
  nt_pc :: run_pc
  nt_running :: bool
  nt_woken :: bool
  nt_phase :: "nat \<Rightarrow> phase"
  nt_active :: "int list"
  nt_open :: "int list"
  nt_shut :: "int list"

datatype poll_result = Poll_failed errno | Poll_ready bool bool

datatype accept_result = Accept_failed errno | Accept_fd int

definition err_busy :: string where
  "err_busy = ''ERR server is busy''"

definition network :: "server \<Rightarrow> int pool \<Rightarrow> net" where
  "network s p =
     \<lparr>nt_server = s, nt_pool = p, nt_pc = Not_running, nt_running = False, nt_woken = False,
      nt_phase = (\<lambda>_. Entered), nt_active = [], nt_open = [], nt_shut = []\<rparr>"

text \<open>\<open>written\<close>: the byte could be written to the pipe.\<close>

definition stop :: "bool \<Rightarrow> net \<Rightarrow> net" where
  "stop written n =
     n\<lparr>nt_running := False,
       nt_woken := nt_woken n \<or> (snd (sr_shutdownPipe (nt_server n)) \<ge> 0 \<and> written)\<rparr>"

definition run_begin :: "net \<Rightarrow> net" where
  "run_begin n = n\<lparr>nt_running := True, nt_pc := Loop_head\<rparr>"

definition run_test :: "net \<Rightarrow> net" where
  "run_test n = n\<lparr>nt_pc := if nt_running n then Polling else Leaving\<rparr>"

definition run_poll :: "poll_result \<Rightarrow> net \<Rightarrow> net" where
  "run_poll res n =
     n\<lparr>nt_pc := (case res of
          Poll_failed e \<Rightarrow> if isRetryable e then Loop_head else Leaving
        | Poll_ready listening woken \<Rightarrow>
            if woken then Leaving else if \<not> listening then Loop_head else Accepting)\<rparr>"

definition run_accept :: "accept_result \<Rightarrow> net \<Rightarrow> net" where
  "run_accept res n =
     (case res of
        Accept_failed e \<Rightarrow>
          n\<lparr>nt_pc := if e = EINTR \<or> e = ECONNABORTED \<or> e = EMFILE \<or> e = ENFILE then Loop_head else Leaving\<rparr>
      | Accept_fd fd \<Rightarrow> n\<lparr>nt_pc := Submitting fd, nt_open := fd # nt_open n\<rparr>)"

definition run_submit :: "int \<Rightarrow> net \<Rightarrow> bool \<times> net" where
  "run_submit fd n =
     (case trySubmit fd (nt_pool n) of
        (ok, p) \<Rightarrow> (ok, n\<lparr>nt_pool := p, nt_pc := if ok then Loop_head else Refusing fd\<rparr>))"

definition close_client :: "int \<Rightarrow> net \<Rightarrow> net" where
  "close_client fd n = n\<lparr>nt_open := remove1 fd (nt_open n), nt_shut := removeAll fd (nt_shut n)\<rparr>"

text \<open>The refused client is told so, as far as the kernel \<open>k\<close> takes the bytes, and closed.\<close>

definition run_refuse :: "transfer_kernel \<Rightarrow> int \<Rightarrow> net \<Rightarrow> (string \<times> net) option" where
  "run_refuse k fd n =
     (case sendLine k 0 (proto_error err_busy) of
        None \<Rightarrow> None
      | Some (ok, bytes, sends) \<Rightarrow> Some (bytes, (close_client fd n)\<lparr>nt_pc := Loop_head\<rparr>))"

definition run_leave :: "net \<Rightarrow> net" where
  "run_leave n = n\<lparr>nt_running := False, nt_pc := Interrupting\<rparr>"

definition shutdownActiveConnections :: "net \<Rightarrow> net" where
  "shutdownActiveConnections n = n\<lparr>nt_shut := nt_active n @ nt_shut n, nt_pc := Stopping_pool\<rparr>"

definition run_stop_pool :: "net \<Rightarrow> net" where
  "run_stop_pool n = n\<lparr>nt_pool := begin_shutdown (nt_pool n), nt_pc := Joining\<rparr>"

definition run_join :: "net \<Rightarrow> net" where
  "run_join n = n\<lparr>nt_pool := end_shutdown (nt_pool n), nt_pc := Stopping_threads\<rparr>"

definition run_stop_threads :: "net \<Rightarrow> net" where
  "run_stop_threads n =
     n\<lparr>nt_server := (nt_server n)\<lparr>sr_sweeper := map_option sweeper_stop (sr_sweeper (nt_server n)),
         sr_scheduler := map_option scheduler_stop (sr_scheduler (nt_server n))\<rparr>,
       nt_pc := Returned\<rparr>"

section \<open>Serving\<close>

definition worker_next :: "nat \<Rightarrow> net \<Rightarrow> net" where
  "worker_next i n = n\<lparr>nt_pool := worker_turn i (nt_pool n), nt_phase := (nt_phase n)(i := Entered)\<rparr>"

definition serve_register :: "nat \<Rightarrow> int \<Rightarrow> net \<Rightarrow> net" where
  "serve_register i fd n =
     n\<lparr>nt_active := List.insert fd (nt_active n), nt_phase := (nt_phase n)(i := Registered)\<rparr>"

definition serve_check :: "nat \<Rightarrow> net \<Rightarrow> net" where
  "serve_check i n = n\<lparr>nt_phase := (nt_phase n)(i := if nt_running n then Serving else Ending)\<rparr>"

definition serve_handled :: "nat \<Rightarrow> net \<Rightarrow> net" where
  "serve_handled i n = n\<lparr>nt_phase := (nt_phase n)(i := Ending)\<rparr>"

definition serve_close :: "nat \<Rightarrow> int \<Rightarrow> net \<Rightarrow> net" where
  "serve_close i fd n =
     (close_client fd n)\<lparr>nt_active := removeAll fd (nt_active n), nt_phase := (nt_phase n)(i := Done_serving)\<rparr>"

definition serve_return :: "nat \<Rightarrow> bool \<Rightarrow> net \<Rightarrow> net" where
  "serve_return i threw n = n\<lparr>nt_pool := worker_return i threw (nt_pool n)\<rparr>"

section \<open>Interleaving\<close>

datatype net_event =
    Ev_stop bool
  | Ev_run
  | Ev_poll poll_result
  | Ev_accept accept_result
  | Ev_submit int bool
  | Ev_refuse int string
  | Ev_interrupt "int list"
  | Ev_join
  | Ev_take nat
  | Ev_serve nat int
  | Ev_close nat int
  | Ev_return nat
  | Ev_throw nat int

definition holds :: "net \<Rightarrow> nat \<Rightarrow> int \<Rightarrow> phase \<Rightarrow> bool" where
  "holds n i fd ph \<longleftrightarrow> i < length (tp_workers (nt_pool n)) \<and> tp_workers (nt_pool n) ! i = Busy fd \<and> nt_phase n i = ph"

definition may_move :: "net \<Rightarrow> nat \<Rightarrow> bool" where
  "may_move n i \<longleftrightarrow> i < length (tp_workers (nt_pool n)) \<and> tp_workers (nt_pool n) ! i = Waiting \<and>
     (tp_stopping (nt_pool n) \<or> tp_tasks (nt_pool n) \<noteq> [])"

text \<open>
  The premises on \<open>poll\<close> and \<open>accept\<close> are what POSIX says of them: a successful \<open>poll\<close> reports the
  pipe exactly when a byte is in it, and \<open>accept\<close> returns a descriptor that is not open.
  Throwing is possible only inside \<open>handleConnection\<close>.
\<close>

inductive net_step :: "net \<Rightarrow> net_event \<Rightarrow> net \<Rightarrow> bool" where
  stop: "net_step n (Ev_stop written) (stop written n)"
| begin_run: "nt_pc n = Not_running \<Longrightarrow> net_step n Ev_run (run_begin n)"
| test: "nt_pc n = Loop_head \<Longrightarrow> net_step n Ev_run (run_test n)"
| poll: "nt_pc n = Polling \<Longrightarrow> (\<forall>l w. res = Poll_ready l w \<longrightarrow> w = nt_woken n) \<Longrightarrow>
    net_step n (Ev_poll res) (run_poll res n)"
| accept: "nt_pc n = Accepting \<Longrightarrow> (\<forall>fd. res = Accept_fd fd \<longrightarrow> fd \<ge> 0 \<and> fd \<notin> set (nt_open n)) \<Longrightarrow>
    net_step n (Ev_accept res) (run_accept res n)"
| submit: "nt_pc n = Submitting fd \<Longrightarrow> run_submit fd n = (ok, n') \<Longrightarrow> net_step n (Ev_submit fd ok) n'"
| refuse: "nt_pc n = Refusing fd \<Longrightarrow> run_refuse k fd n = Some (bytes, n') \<Longrightarrow> net_step n (Ev_refuse fd bytes) n'"
| leave: "nt_pc n = Leaving \<Longrightarrow> net_step n Ev_run (run_leave n)"
| interrupt: "nt_pc n = Interrupting \<Longrightarrow> net_step n (Ev_interrupt (nt_active n)) (shutdownActiveConnections n)"
| stop_pool: "nt_pc n = Stopping_pool \<Longrightarrow> net_step n Ev_run (run_stop_pool n)"
| join: "nt_pc n = Joining \<Longrightarrow> joined (nt_pool n) \<Longrightarrow> net_step n Ev_join (run_join n)"
| stop_threads: "nt_pc n = Stopping_threads \<Longrightarrow> net_step n Ev_run (run_stop_threads n)"
| take: "may_move n i \<Longrightarrow> net_step n (Ev_take i) (worker_next i n)"
| register: "holds n i fd Entered \<Longrightarrow> net_step n (Ev_serve i fd) (serve_register i fd n)"
| check: "holds n i fd Registered \<Longrightarrow> net_step n (Ev_serve i fd) (serve_check i n)"
| handled: "holds n i fd Serving \<Longrightarrow> net_step n (Ev_serve i fd) (serve_handled i n)"
| close: "holds n i fd Ending \<Longrightarrow> net_step n (Ev_close i fd) (serve_close i fd n)"
| return: "holds n i fd Done_serving \<Longrightarrow> net_step n (Ev_return i) (serve_return i False n)"
| throw: "holds n i fd Serving \<Longrightarrow> net_step n (Ev_throw i fd) (serve_return i True n)"

inductive net_run :: "net \<Rightarrow> net_event list \<Rightarrow> net \<Rightarrow> bool" for n0 where
  none: "net_run n0 [] n0"
| more: "net_run n0 evs n \<Longrightarrow> net_step n ev n' \<Longrightarrow> net_run n0 (evs @ [ev]) n'"

inductive_cases net_stepE: "net_step n ev n'"

interpretation net_runs: traced_runs net_step net_run
proof
  fix s0 s and es and P
  assume "net_run s0 es s" "P [] s0" "\<And>es s e s'. P es s \<Longrightarrow> net_step s e s' \<Longrightarrow> P (es @ [e]) s'"
  then show "P es s" by (induction rule: net_run.induct) blast+
qed (fact net_run.none net_run.more)+

end
