(* ===== verification/VC_ServerMain.thy ===== *)
theory VC_ServerMain
  imports VC_CommandLine VC_Server
begin

text \<open>
  The server program, server/main.cpp. The arguments are \<open>argv\<close> without the name of the program. What the
  threads of \<open>Server::run\<close> do to the server and the database until it returns is an argument here;
  VC_System models it.
\<close>

section \<open>Arguments\<close>

definition size_multiplier :: "string \<Rightarrow> nat option" where
  "size_multiplier suffix =
     (if suffix = [] \<or> suffix = ''B'' then Some 1
      else if suffix = ''K'' \<or> suffix = ''KB'' then Some 1024
      else if suffix = ''M'' \<or> suffix = ''MB'' then Some (1024 * 1024)
      else if suffix = ''G'' \<or> suffix = ''GB'' then Some (1024 * 1024 * 1024)
      else None)"

definition parseByteSize :: "string \<Rightarrow> nat option" where
  "parseByteSize text =
     (if text = [] then None
      else
        let digits = takeWhile is_digit text in
        if digits = [] then None
        else
          let suffix = map upper_char (drop (length digits) text) in
          case size_multiplier suffix of
            None \<Rightarrow> None
          | Some multiplier \<Rightarrow>
              (case stoull digits of
                 None \<Rightarrow> None
               | Some number \<Rightarrow>
                   if number > (2 ^ 64 - 1) div multiplier then None else Some (number * multiplier)))"

definition server_usage :: string where
  "server_usage = lines_text
     [''Usage: vcache-server [options]'',
      '''',
      ''  --port <n>       Port to listen on (default 6379)'',
      ''  --bind <addr>    Address to bind (default 127.0.0.1)'',
      ''  --threads <n>    Worker threads, which is also the ceiling on'',
      ''                   simultaneous clients (default 64)'',
      ''  --dbfile <path>  Snapshot file. Without it, persistence is off'',
      ''                   and SAVE reports that it is not configured.'',
      ''  --save-interval <seconds>'',
      ''                   Automatic snapshot interval (default 0, meaning'',
      ''                   manual SAVE only). Requires --dbfile.'',
      ''  --shards <n>     Independently locked slices of the keyspace'',
      ''                   (default 64). More shards means less contention'',
      ''                   between concurrent clients.'',
      ''  --max-memory <size>'',
      ''                   Memory ceiling, e.g. 100MB or 512kb or 1048576.'',
      ''                   Suffixes are 1024-based. Past it, the least'',
      ''                   recently used keys are evicted. Default: no limit.'',
      ''  --help           Show this message'']"

definition in_quotes :: "string \<Rightarrow> string" where
  "in_quotes s = [apostrophe] @ s @ [apostrophe]"

definition valued_options :: "string list" where
  "valued_options = [''--port'', ''--bind'', ''--threads'', ''--dbfile'', ''--save-interval'', ''--max-memory'', ''--shards'']"

text \<open>The options with a number, strict about what follows it.\<close>

definition set_number :: "string \<Rightarrow> string \<Rightarrow> ServerConfig \<Rightarrow> string + ServerConfig" where
  "set_number argument val config =
     (let isPort = (argument = ''--port'');
          minimum = (if isPort then 0 else 1);
          maximum = (if isPort then 65535 else 4096 :: int)
      in case stoi val of
           None \<Rightarrow> Inl (''error: invalid value for '' @ argument @ '': '' @ in_quotes val @ [LF])
         | Some (number, consumed) \<Rightarrow>
             if consumed \<noteq> length val
             then Inl (''error: invalid value for '' @ argument @ '': '' @ in_quotes val @ [LF])
             else if number < minimum \<or> number > maximum
             then Inl (''error: '' @ argument @ '' must be between '' @ to_string_int minimum @ '' and '' @
                       to_string_int maximum @ [LF])
             else if isPort then Inr (config\<lparr>cfg_port := of_int number\<rparr>)
             else if argument = ''--shards'' then Inr (config\<lparr>cfg_shardCount := nat number\<rparr>)
             else Inr (config\<lparr>cfg_threadCount := nat number\<rparr>))"

text \<open>
  \<open>saveInterval\<close> counts milliseconds in a 64-bit integer. The product is exact here; in the source it overflows
  for more than \<open>2 ^ 63 div 1000\<close> seconds.
\<close>

definition set_option :: "string \<Rightarrow> string \<Rightarrow> ServerConfig \<Rightarrow> string + ServerConfig" where
  "set_option argument val config =
     (if argument = ''--bind'' then Inr (config\<lparr>cfg_bindAddress := val\<rparr>)
      else if argument = ''--dbfile'' then Inr (config\<lparr>cfg_snapshotPath := val\<rparr>)
      else if argument = ''--max-memory'' then
        (case parseByteSize val of
           None \<Rightarrow> Inl (''error: invalid value for --max-memory: '' @ in_quotes val @
                        '' (expected e.g. 100MB, 512kb, or a byte count)'' @ [LF])
         | Some bytes \<Rightarrow> Inr (config\<lparr>cfg_maxMemoryBytes := bytes\<rparr>))
      else if argument = ''--save-interval'' then
        (case (case stoll val of None \<Rightarrow> (0, 0) | Some (secs, consumed) \<Rightarrow> (secs, consumed)) of
           (secs, consumed) \<Rightarrow>
             if consumed \<noteq> length val \<or> secs < 0
             then Inl (''error: invalid value for --save-interval: '' @ in_quotes val @ [LF])
             else Inr (config\<lparr>cfg_saveInterval := secs * 1000\<rparr>))
      else set_number argument val config)"

text \<open>Whether the arguments were good, whether to exit at once, the configuration and what was printed.\<close>

fun server_parseArguments :: "string list \<Rightarrow> ServerConfig \<Rightarrow> bool \<times> bool \<times> ServerConfig \<times> printed list" where
  "server_parseArguments [] config = (True, False, config, [])"
| "server_parseArguments (argument # rest) config =
     (if argument = ''--help'' \<or> argument = ''-h'' then (True, True, config, [Stdout server_usage])
      else if argument \<in> set valued_options then
        (case rest of
           [] \<Rightarrow> (False, False, config, [Stderr (''error: '' @ argument @ '' requires a value'' @ [LF])])
         | val # rest' \<Rightarrow>
             (case set_option argument val config of
                Inl err \<Rightarrow> (False, False, config, [Stderr err])
              | Inr config' \<Rightarrow> server_parseArguments rest' config'))
      else (False, False, config,
            [Stderr (''error: unknown option '' @ in_quotes argument @ [LF, LF]), Stdout server_usage]))"

section \<open>The program\<close>

definition banner :: "ServerConfig \<Rightarrow> server \<Rightarrow> database \<Rightarrow> string" where
  "banner config s db =
     lines_text ([''VCache listening on '' @ cfg_bindAddress config @ '':'' @ to_string (unat (sr_boundPort s)),
       to_string (cfg_threadCount config) @ '' worker threads, '' @ to_string (length (db_shards db)) @ '' shards''] @
     (if cfg_snapshotPath config = '''' then [''Persistence: off (no --dbfile)'']
      else [''Persistence: '' @ cfg_snapshotPath config @
            (if cfg_saveInterval config > 0
             then '', saving every '' @ to_string_int (cfg_saveInterval config div 1000) @ ''s''
             else '', manual SAVE only'')] @
           (if sr_restoredEntryCount s > 0
            then [''Restored '' @ to_string (sr_restoredEntryCount s) @ '' keys from the snapshot''] else [])) @
     (if cfg_maxMemoryBytes config = 0 then [''Memory limit: none'']
      else [''Memory limit: '' @ to_string (cfg_maxMemoryBytes config) @ '' bytes (LRU eviction)'']) @
     [''Commands: SET GET DEL EXISTS KEYS SAVE'', ''Press Ctrl+C to stop.''])"

definition farewell :: "ServerConfig \<Rightarrow> database \<Rightarrow> string" where
  "farewell config db =
     lines_text (['''', ''Shutting down. '' @ to_string (db_size db) @ (if db_size db = 1 then '' key was'' else '' keys were'') @
       '' in memory.''] @
     (if cfg_maxMemoryBytes config > 0
      then [''Evicted '' @ to_string (db_evictedCount db) @ '' keys, using '' @ to_string (db_memoryUsage db) @ '' of '' @
            to_string (cfg_maxMemoryBytes config) @ '' bytes.'']
      else []))"

text \<open>The environment: that of \<open>start\<close>, what \<open>run\<close> does, and that of the final save.\<close>

record main_env =
  me_start :: start_env
  me_run :: "server \<Rightarrow> database \<Rightarrow> server \<times> database"
  me_io :: save_io
  me_clock :: save_clock

text \<open>The final snapshot: the exit code, what is printed and what happens on disk.\<close>

definition final_save :: "main_env \<Rightarrow> server \<Rightarrow> database \<Rightarrow> (int \<times> printed list \<times> disk_event list) option" where
  "final_save env s db =
     (case sr_store s of
        None \<Rightarrow> Some (0, [], [])
      | Some st \<Rightarrow>
          (case save (se_strerror (me_start env)) (me_io env) (se_tick (me_start env)) (me_clock env) db st of
             None \<Rightarrow> None
           | Some (outcome, st', evs) \<Rightarrow>
               if so_ok outcome
               then Some (0, [Stdout (''Saved '' @ to_string (so_entriesWritten outcome) @ '' keys to '' @ ss_path st @ [LF])], evs)
               else Some (1, [Stderr (''error: final snapshot failed: '' @ so_error outcome @ [LF])], evs)))"

definition server_main :: "main_env \<Rightarrow> string list \<Rightarrow> (int \<times> printed list \<times> disk_event list) option" where
  "server_main env args =
     (case server_parseArguments args default_ServerConfig of
        (ok, shouldExit, config, printed) \<Rightarrow>
          if \<not> ok then Some (1, printed, [])
          else if shouldExit then Some (0, printed, [])
          else if cfg_saveInterval config > 0 \<and> cfg_snapshotPath config = ''''
          then Some (1, [Stderr (''error: --save-interval requires --dbfile'' @ [LF])], [])
          else do {
            database \<leftarrow> Database kDefaultBucketCount (cfg_shardCount config);
            (started, s, db, _) \<leftarrow> server_start (me_start env) (Server config) database;
            if \<not> started then Some (1, [Stderr (''error: '' @ sr_error s @ [LF])], [])
            else case me_run env s db of
              (s', db') \<Rightarrow> do {
                (code, printed', evs) \<leftarrow> final_save env s' db';
                Some (code, [Stdout (banner config s db), Stdout (farewell config db')] @ printed', evs)
              }
          })"

end
