(* ===== verification/VC_ClientMain.thy ===== *)
theory VC_ClientMain
  imports VC_CommandLine VC_Client
begin

text \<open>
  The command-line client, client/main.cpp. The arguments are \<open>argv\<close> without the name of the program; the
  standard input is the list of its lines, without their line feeds.
\<close>

section \<open>Arguments\<close>

record Options =
  op_host :: string
  op_port :: nat
  op_oneShot :: "string list"
  op_showHelp :: bool

definition default_Options :: Options where
  "default_Options = \<lparr>op_host = ''127.0.0.1'', op_port = 6379, op_oneShot = [], op_showHelp = False\<rparr>"

definition client_usage :: string where
  "client_usage = lines_text
     [''Usage: vcache-cli [options] [command ...]'',
      '''',
      ''  --host <addr>    Server address (default 127.0.0.1)'',
      ''  --port <n>       Server port (default 6379)'',
      ''  --help           Show this message'',
      '''',
      ''With no command, starts an interactive prompt.'',
      ''With a command, runs it once and exits: vcache-cli GET username'',
      ''Commands are also read from a pipe: echo KEYS | vcache-cli'']"

definition command_list :: string where
  "command_list = lines_text
     [''  SET key value [EX seconds]   store a value, optionally expiring'',
      ''  GET key                      fetch a value, or (nil)'',
      ''  DEL key                      delete a key, replies 1 or 0'',
      ''  EXISTS key                   replies 1 or 0'',
      ''  KEYS                         list every key'',
      ''  SAVE                         write a snapshot to disk'',
      '''',
      ''  help                         this list'',
      ''  exit, quit                   leave (Ctrl+D also works)'',
      '''',
      ''Values with spaces need quotes: SET greeting '' @ [quote_char] @ ''hello world'' @ [quote_char]]"

definition parse_port :: "string \<Rightarrow> nat option" where
  "parse_port val =
     (case stoi val of
        None \<Rightarrow> None
      | Some (port, consumed) \<Rightarrow>
          if consumed \<noteq> length val \<or> port < 1 \<or> port > 65535 then None else Some (nat port))"

fun client_parseArguments :: "string list \<Rightarrow> Options \<Rightarrow> bool \<times> Options \<times> printed list" where
  "client_parseArguments [] options = (True, options, [])"
| "client_parseArguments (argument # rest) options =
     (if argument = ''--help'' \<or> argument = ''-h'' then (True, options\<lparr>op_showHelp := True\<rparr>, [])
      else if argument = ''--host'' \<or> argument = ''--port'' then
        (case rest of
           [] \<Rightarrow> (False, options, [Stderr (''error: '' @ argument @ '' requires a value'' @ [LF])])
         | val # rest' \<Rightarrow>
             if argument = ''--host'' then client_parseArguments rest' (options\<lparr>op_host := val\<rparr>)
             else (case parse_port val of
                     None \<Rightarrow> (False, options, [Stderr (''error: invalid port '' @ [apostrophe] @ val @ [apostrophe] @ [LF])])
                   | Some port \<Rightarrow> client_parseArguments rest' (options\<lparr>op_port := port\<rparr>)))
      else (True, options\<lparr>op_oneShot := op_oneShot options @ argument # rest\<rparr>, []))"

section \<open>Commands and replies\<close>

definition needsQuotes :: "string \<Rightarrow> bool" where
  "needsQuotes part \<longleftrightarrow> CHR '' '' \<in> set part \<or> TAB \<in> set part \<or> part = []"

definition requote :: "string \<Rightarrow> string" where
  "requote part =
     (if \<not> needsQuotes part then part
      else [quote_char] @
           concat (map (\<lambda>c. (if c = quote_char \<or> c = backslash then [backslash] else []) @ [c]) part) @ [quote_char])"

text \<open>The first part has no space before it.\<close>

fun join_parts :: "string list \<Rightarrow> string" where
  "join_parts [] = ''''"
| "join_parts (part # parts) = '' '' @ requote part @ join_parts parts"

definition joinOneShot :: "string list \<Rightarrow> string" where
  "joinOneShot parts = (case parts of [] \<Rightarrow> '''' | part # rest \<Rightarrow> requote part @ join_parts rest)"

definition print_elements :: "string list \<Rightarrow> string" where
  "print_elements elements =
     lines_text (map (\<lambda>(i, e). to_string (i + 1) @ '') '' @ [quote_char] @ e @ [quote_char]) (List.enumerate 0 elements))"

definition printReply :: "Reply \<Rightarrow> printed list" where
  "printReply reply =
     (case rp_type reply of
        Reply_Status \<Rightarrow> [Stdout (rp_payload reply @ [LF])]
      | Reply_Integer \<Rightarrow> [Stdout (rp_payload reply @ [LF])]
      | Reply_Value \<Rightarrow> [Stdout (rp_payload reply @ [LF])]
      | Reply_Nil \<Rightarrow> [Stdout (''(nil)'' @ [LF])]
      | Reply_Error \<Rightarrow> [Stderr (rp_payload reply @ [LF])]
      | Reply_Array \<Rightarrow>
          if rp_elements reply = [] then [Stdout (''(empty list)'' @ [LF])]
          else [Stdout (''('' @ to_string (length (rp_elements reply)) @
                  (if length (rp_elements reply) = 1 then '' key)'' else '' keys)'') @ [LF]),
                Stdout (print_elements (rp_elements reply))]
      | Reply_Unknown \<Rightarrow> [Stderr (''(unrecognised reply)'' @ [LF])])"

section \<open>The program\<close>

definition blank_line :: "string \<Rightarrow> bool" where
  "blank_line line \<longleftrightarrow> list_all (\<lambda>c. c = CHR '' '' \<or> c = TAB \<or> c = CR) line"

text \<open>The prompt, over the lines still to be read: the exit code and what was printed.\<close>

fun prompt_loop :: "client_env \<Rightarrow> bool \<Rightarrow> string list \<Rightarrow> client \<Rightarrow> (int \<times> printed list) option" where
  "prompt_loop env interactive [] cl =
     Some (0, if interactive then [Stdout ''vcache> '', Stdout [LF]] else [])"
| "prompt_loop env interactive (line # input) cl =
     (let shown = (if interactive then [Stdout ''vcache> ''] else []) in
      if line = ''exit'' \<or> line = ''quit'' then Some (0, shown)
      else if line = ''help'' then
        map_option (apsnd ((@) (shown @ [Stdout command_list]))) (prompt_loop env interactive input cl)
      else if blank_line line then map_option (apsnd ((@) shown)) (prompt_loop env interactive input cl)
      else case client_command env line cl of
        None \<Rightarrow> None
      | Some (reply, cl', sent) \<Rightarrow>
          if \<not> rp_delivered reply
          then Some (1, shown @ [Stderr (''error: '' @ rp_transportError reply @ [LF])])
          else map_option (apsnd ((@) (shown @ printReply reply))) (prompt_loop env interactive input cl'))"

definition one_shot :: "client_env \<Rightarrow> string list \<Rightarrow> client \<Rightarrow> (int \<times> printed list) option" where
  "one_shot env parts cl =
     (case client_command env (joinOneShot parts) cl of
        None \<Rightarrow> None
      | Some (reply, cl', sent) \<Rightarrow>
          if \<not> rp_delivered reply then Some (1, [Stderr (''error: '' @ rp_transportError reply @ [LF])])
          else Some (if isError reply then 1 else 0, printReply reply))"

definition new_client :: client where
  "new_client = \<lparr>cl_connected = False, cl_buffer = '''', cl_sends = 0, cl_recvs = 0\<rparr>"

text \<open>
  \<open>resolved\<close> and \<open>err\<close> as for \<open>client_connect\<close>; \<open>interactive\<close> is the answer of \<open>isatty\<close>.
\<close>

definition client_main ::
  "client_env \<Rightarrow> string + candidate list \<Rightarrow> errno \<Rightarrow> bool \<Rightarrow> string list \<Rightarrow> string list \<Rightarrow> (int \<times> printed list) option" where
  "client_main env resolved err interactive input args =
     (case client_parseArguments args default_Options of
        (ok, options, printed) \<Rightarrow>
          if \<not> ok then Some (2, printed)
          else if op_showHelp options then Some (0, [Stdout client_usage])
          else case client_connect (cv_strerror env) (op_host options) (op_port options) resolved err new_client of
            (Some reason, cl) \<Rightarrow> Some (1, [Stderr (''error: '' @ reason @ [LF])])
          | (None, cl) \<Rightarrow>
              if op_oneShot options \<noteq> [] then one_shot env (op_oneShot options) cl
              else map_option
                (apsnd ((@) (if interactive
                   then [Stdout (lines_text [''Connected to '' @ op_host options @ '':'' @ to_string (op_port options),
                     ''Type '' @ [apostrophe] @ ''help'' @ [apostrophe] @ '' for commands, '' @
                     [apostrophe] @ ''exit'' @ [apostrophe] @ '' to quit.''])] else [])))
                (prompt_loop env interactive input cl))"

end
