(* ===== verification/VC_ThreadPool_Props.thy ===== *)
theory VC_ThreadPool_Props
  imports VC_ThreadPool "HOL-Library.Multiset"
begin

text \<open>
  Runs of the pool under every interleaving of its threads: what happens to accepted tasks, and that
  shutting down drains the queue and ends.
\<close>

section \<open>One step\<close>

lemma history_snoc:
  "accepted (evs @ [ev]) = accepted evs @ accepts ev" "started (evs @ [ev]) = started evs @ starts ev"
  "finished (evs @ [ev]) = finished evs @ finishes ev" "thrown (evs @ [ev]) = thrown evs + throws ev"
  by (simp_all add: accepted_def started_def finished_def thrown_def)

definition pool_ok :: "nat \<Rightarrow> 'a pool_event list \<Rightarrow> 'a pool \<Rightarrow> bool" where
  "pool_ok m evs p \<longleftrightarrow>
     accepted evs = started evs @ tp_tasks p \<and>
     mset (started evs) = mset (finished evs) + mset (running_tasks p) \<and>
     tp_maxQueuedTasks p = m \<and> (m \<noteq> kUnboundedQueue \<longrightarrow> length (tp_tasks p) \<le> m) \<and>
     tp_taskExceptions p = thrown evs"

lemma running_tasks_update:
  assumes "i < length (tp_workers p)"
  shows "mset (running_tasks (p\<lparr>tp_workers := (tp_workers p)[i := w]\<rparr>)) + mset (running_task (tp_workers p ! i)) =
    mset (running_tasks p) + mset (running_task w)"
  using mset_concat_update [of i "map running_task (tp_workers p)" "running_task w"] assms
  by (simp add: running_tasks_def map_update)

lemma running_tasks_frame [simp]:
  "running_tasks (p\<lparr>tp_tasks := ts\<rparr>) = running_tasks p" "running_tasks (p\<lparr>tp_stopping := b\<rparr>) = running_tasks p"
  "running_tasks (p\<lparr>tp_workers := ws, tp_tasks := ts\<rparr>) = running_tasks (p\<lparr>tp_workers := ws\<rparr>)"
  "running_tasks (p\<lparr>tp_workers := ws, tp_taskExceptions := n\<rparr>) = running_tasks (p\<lparr>tp_workers := ws\<rparr>)"
  by (simp_all add: running_tasks_def)

lemma pool_step_ok:
  assumes "pool_ok m evs p" "pool_step p ev p'"
  shows "pool_ok m (evs @ [ev]) p'"
  using assms(2)
proof (cases rule: pool_step.cases)
  case (submit task ok)
  with assms(1) show ?thesis
    by (cases ok) (auto simp: pool_ok_def history_snoc trySubmit_def split: if_splits)
next
  case shutdown
  with assms(1) show ?thesis by (simp add: pool_ok_def history_snoc begin_shutdown_def)
next
  case (take i task rest)
  with assms(1) running_tasks_update [OF take(3), of "Busy task"] show ?thesis
    by (auto simp: pool_ok_def history_snoc worker_turn_def)
next
  case (leave i)
  with assms(1) running_tasks_update [OF leave(3), of Gone] show ?thesis
    by (simp add: pool_ok_def history_snoc worker_turn_def)
next
  case (finish i task threw)
  with assms(1) running_tasks_update [OF finish(3), of Waiting] show ?thesis
    by (cases threw) (auto simp: pool_ok_def history_snoc worker_return_def)
next
  case join
  then have "running_tasks p = []" by (auto simp: joined_def list_all_iff running_tasks_def)
  with join assms(1) show ?thesis by (simp add: pool_ok_def history_snoc end_shutdown_def running_tasks_def)
qed

lemma pool_run_ok:
  assumes "pool_run (ThreadPool n m) evs p"
  shows "pool_ok m evs p"
proof (rule pool_runs.invariant [OF assms])
  show "pool_ok m [] (ThreadPool n m)"
    by (simp add: pool_ok_def ThreadPool_def running_tasks_def Let_def accepted_def started_def finished_def thrown_def)
qed (rule pool_step_ok)

section \<open>Shutting down\<close>

text \<open>The steps of workers, and a bound on how many can be left once the pool is stopping.\<close>

fun by_worker :: "'a pool_event \<Rightarrow> bool" where
  "by_worker (Take i task) = True"
| "by_worker (Leave i) = True"
| "by_worker (Return i task threw) = True"
| "by_worker _ = False"

fun weight :: "'a worker \<Rightarrow> nat" where
  "weight Gone = 0"
| "weight Waiting = 1"
| "weight (Busy task) = 2"

definition work_left :: "'a pool \<Rightarrow> nat" where
  "work_left p = 3 * length (tp_tasks p) + sum_list (map weight (tp_workers p))"

lemma sum_list_update_weight:
  "i < length ws \<Longrightarrow> sum_list (map weight (ws[i := w])) + weight (ws ! i) = sum_list (map weight ws) + weight w"
proof (induction ws arbitrary: i)
  case (Cons x ws)
  show ?case
  proof (cases i)
    case (Suc j)
    with Cons.prems Cons.IH [of j] show ?thesis by simp
  qed simp
qed simp

lemma work_left_step:
  assumes "pool_step p ev p'" "tp_stopping p"
  shows "tp_stopping p'" "accepts ev = []" "work_left p' + (if by_worker ev then 1 else 0) \<le> work_left p"
  using assms
  by (cases rule: pool_step.cases;
      auto simp: trySubmit_def begin_shutdown_def worker_turn_def worker_return_def end_shutdown_def joined_def
        work_left_def list_all_iff split: if_splits
        dest: sum_list_update_weight [where w = Gone] sum_list_update_weight [where w = Waiting]
          sum_list_update_weight [where w = "Busy (hd (tp_tasks p))"])+

lemma pool_run_drains:
  assumes "pool_run p evs p'" "tp_stopping p"
  shows "tp_stopping p' \<and> accepted evs = [] \<and> work_left p' + length (filter by_worker evs) \<le> work_left p"
proof -
  have "tp_stopping p' \<and> accepted evs = []"
    by (rule pool_runs.invariant [OF assms(1)])
      (use assms(2) work_left_step(1,2) in \<open>auto simp: history_snoc accepted_def [of "[]"]\<close>)
  moreover have "tp_stopping p' \<and> work_left p' + length (filter by_worker evs) \<le> work_left p"
    by (rule pool_runs.bounded [where guard = tp_stopping, OF assms]) (use work_left_step in blast)
  ultimately show ?thesis by blast
qed

text \<open>A worker leaves only when there is nothing left to do, and that stays so.\<close>

definition left_drained :: "'a pool \<Rightarrow> bool" where
  "left_drained p \<longleftrightarrow> (tp_workers p = [] \<or> Gone \<in> set (tp_workers p) \<longrightarrow> tp_stopping p \<and> tp_tasks p = [])"

lemma Gone_update: "Gone \<in> set (ws[i := w]) \<Longrightarrow> w \<noteq> Gone \<Longrightarrow> Gone \<in> set ws"
  using set_update_subset_insert [of ws i w] by auto

lemma left_drained_step:
  assumes "left_drained p" "pool_step p ev p'"
  shows "left_drained p'"
  using assms(2)
proof (cases rule: pool_step.cases)
  case (submit task ok)
  with assms(1) show ?thesis by (auto simp: left_drained_def trySubmit_def split: if_splits)
next
  case shutdown
  with assms(1) show ?thesis by (auto simp: left_drained_def begin_shutdown_def)
next
  case (take i task rest)
  then have "Gone \<notin> set (tp_workers p)" "tp_workers p \<noteq> []" using assms(1) by (auto simp: left_drained_def)
  with take show ?thesis by (auto simp: left_drained_def worker_turn_def dest: Gone_update)
next
  case (leave i)
  then show ?thesis by (simp add: left_drained_def worker_turn_def)
next
  case (finish i task threw)
  then show ?thesis using assms(1) Gone_update [of "tp_workers p" i Waiting]
    by (auto simp: left_drained_def worker_return_def)
next
  case join
  then have "tp_workers p = [] \<or> Gone \<in> set (tp_workers p)"
    by (cases "tp_workers p") (auto simp: joined_def)
  with join assms(1) show ?thesis by (simp add: left_drained_def end_shutdown_def)
qed

lemma pool_run_left_drained:
  assumes "pool_run (ThreadPool n m) evs p"
  shows "left_drained p"
proof (rule pool_runs.invariant [OF assms])
  show "left_drained (ThreadPool n m)" by (auto simp: left_drained_def ThreadPool_def Let_def)
qed (rule left_drained_step)

text \<open>A stopping pool whose workers cannot move has none left.\<close>

lemma stuck_joined:
  assumes "tp_stopping p" "\<nexists>ev p'. by_worker ev \<and> pool_step p ev p'"
  shows "joined p"
proof -
  have "tp_workers p ! i = Gone" if i: "i < length (tp_workers p)" for i
  proof (cases "tp_workers p ! i")
    case Waiting
    then have "\<exists>ev p'. by_worker ev \<and> pool_step p ev p'"
      using pool_step.take [OF i Waiting] pool_step.leave [OF i Waiting _ assms(1)]
      by (cases "tp_tasks p") (fastforce intro: exI [of _ "Leave i"] exI [of _ "Take i _"])+
    with assms(2) show ?thesis by blast
  next
    case (Busy task)
    with pool_step.finish [OF i Busy, of False] assms(2) show ?thesis
      by (metis by_worker.simps(3))
  qed
  then show ?thesis by (simp add: joined_def list_all_length)
qed

section \<open>A run for the examples\<close>

definition pool_example :: "bool \<Rightarrow> nat worker \<Rightarrow> nat \<Rightarrow> nat pool" where
  "pool_example stopping w n = \<lparr>tp_tasks = [], tp_workers = [w], tp_threadCount = 1, tp_maxQueuedTasks = 1,
     tp_stopping = stopping, tp_taskExceptions = n\<rparr>"

text \<open>One worker and room for one task: the second submission is refused, and the first task throws.\<close>

lemma pool_example_run:
  "pool_run (ThreadPool 0 1) [Submit 7 True, Submit 8 False, Take 0 7, Shutdown, Return 0 7 True, Leave 0]
     (pool_example True Gone 1)"
proof -
  let ?q = "(pool_example False Waiting 0)\<lparr>tp_tasks := [7]\<rparr>"
  have "pool_run (ThreadPool 0 1) [] (pool_example False Waiting 0)"
    using pool_run.start [of "ThreadPool 0 1 :: nat pool"] by (simp add: ThreadPool_def pool_example_def)
  moreover have "pool_step (pool_example False Waiting 0) (Submit 7 True) ?q" "pool_step ?q (Submit 8 False) ?q"
    by (rule pool_step.submit; simp add: trySubmit_def pool_example_def kUnboundedQueue_def)+
  moreover have "pool_step ?q (Take 0 7) (pool_example False (Busy 7) 0)"
    using pool_step.take [of 0 ?q 7 "[]"] by (simp add: pool_example_def worker_turn_def)
  moreover have "pool_step (pool_example False (Busy 7) 0) Shutdown (pool_example True (Busy 7) 0)"
    using pool_step.shutdown [of "pool_example False (Busy 7) 0"] by (simp add: pool_example_def begin_shutdown_def)
  moreover have "pool_step (pool_example True (Busy 7) 0) (Return 0 7 True) (pool_example True Waiting 1)"
    using pool_step.finish [of 0 "pool_example True (Busy 7) 0" 7 True] by (simp add: pool_example_def worker_return_def)
  moreover have "pool_step (pool_example True Waiting 1) (Leave 0) (pool_example True Gone 1)"
    using pool_step.leave [of 0 "pool_example True Waiting 1"] by (simp add: pool_example_def worker_turn_def)
  ultimately have "pool_run (ThreadPool 0 1)
      (((((([] @ [Submit 7 True]) @ [Submit 8 False]) @ [Take 0 7]) @ [Shutdown]) @ [Return 0 7 True]) @ [Leave 0])
      (pool_example True Gone 1)"
    by (intro pool_run.more)
  then show ?thesis by simp
qed

section \<open>Properties\<close>

text \<open>
  C13. No task is lost, duplicated or reordered: in every interleaving, the accepted tasks are, in order,
  those that workers have started followed by those still queued; those started are the finished
  ones and the running ones. The queue never exceeds its bound, and tasks that throw are counted.
\<close>

theorem pool_tasks_exactly_once:
  assumes "pool_run (ThreadPool n m) evs p"
  shows "accepted evs = started evs @ tp_tasks p \<and>
    mset (started evs) = mset (finished evs) + mset (running_tasks p) \<and>
    (m \<noteq> kUnboundedQueue \<longrightarrow> queuedTasks p \<le> m) \<and> tp_taskExceptions p = thrown evs"
  using pool_run_ok [OF assms] by (simp add: pool_ok_def queuedTasks_def)

theorem pool_tasks_exactly_once_witness:
  "accepted [Submit 7 True, Submit 8 False, Take 0 7, Shutdown, Return 0 7 True, Leave 0] = [7 :: nat] \<and>
   tp_taskExceptions (pool_example True Gone 1) = 1"
  using pool_tasks_exactly_once [OF pool_example_run]
  by (simp add: started_def thrown_def pool_example_def)



end
