(* ===== verification/VC_Background_Props.thy ===== *)
theory VC_Background_Props
  imports VC_Background
begin

text \<open>
  The background threads at work: the sweeper reclaims what has expired and nothing else, and
  scheduled saves go on after failures and never damage the snapshot file.
\<close>

section \<open>Passes of the sweeper\<close>

lemma sweeping_turns:
  assumes "db_inv db"
  shows "\<exists>sw'. sweeping.turns clks (\<lambda>_ db. db) i n (sw, db) =
      Some (sw', db_sweeps (\<lambda>j. clks (i + j)) (swc_bucketsPerPass (sw_config sw)) n db) \<and>
    sw_passes sw' = sw_passes sw + n \<and>
    sw_totalReclaimed sw' + db_size (db_sweeps (\<lambda>j. clks (i + j)) (swc_bucketsPerPass (sw_config sw)) n db) =
      sw_totalReclaimed sw + db_size db"
  using assms
proof (induction n arbitrary: i sw db)
  case (Suc n)
  let ?b = "swc_bucketsPerPass (sw_config sw)"
  obtain r db1 where r: "db_removeExpired (clks i) ?b db = (r, db1)" by fastforce
  note c = db_removeExpired_correct(1,3) [OF Suc.prems, of "clks i" ?b, unfolded r, simplified]
  let ?sw = "sw\<lparr>sw_totalReclaimed := sw_totalReclaimed sw + r, sw_passes := Suc (sw_passes sw)\<rparr>"
  have "db_sweeps (\<lambda>j. clks (i + j)) ?b (Suc n) db = db_sweeps (\<lambda>j. clks (Suc i + j)) ?b n db1"
    using r by simp
  moreover have "sweep_pass clks (\<lambda>_ db. db) i (sw, db) = Some (?sw, db1)" by (simp add: sweep_pass_def r)
  ultimately show ?case using Suc.IH [OF c(1), of "Suc i" ?sw]
    unfolding sweeping.turns.simps c(2) [symmetric] by (simp add: add.assoc)
qed simp

section \<open>Scheduled saves\<close>

text \<open>After \<open>i\<close> turns; \<open>d\<close> is the disk before the first one.\<close>

definition saves_ok :: "save_env \<Rightarrow> store \<Rightarrow> disk \<Rightarrow> nat \<Rightarrow> scheduler \<times> store \<times> disk_event list \<Rightarrow> bool" where
  "saves_ok env st0 d i s \<longleftrightarrow> (case s of (sd, st, evs) \<Rightarrow>
     sd_running sd \<and> ss_path st = ss_path st0 \<and> sd_attempts sd = i \<and> saveCount st + sd_failures sd = saveCount st0 + i \<and>
     (0 < sd_failures sd \<longleftrightarrow> lastError sd \<noteq> '''') \<and>
     (\<forall>m. disk_after (take m evs) d (ss_path st0) = d (ss_path st0) \<or>
       (\<exists>j<i. disk_after (take m evs) d (ss_path st0) =
          Some \<lparr>f_data = save_encoded (sv_tick env) (sv_clock env j) (sv_database env j), f_synced = True\<rparr>)))"

lemma saves_ok_disk:
  assumes "saves_ok env st0 d i (sd, st, evs)"
    and "save_result (save_encoded (sv_tick env) (sv_clock env i) (sv_database env i)) n st (outcome, st', evs')"
  shows "disk_after (take m (evs @ evs')) d (ss_path st0) = d (ss_path st0) \<or>
    (\<exists>j<Suc i. disk_after (take m (evs @ evs')) d (ss_path st0) =
       Some \<lparr>f_data = save_encoded (sv_tick env) (sv_clock env j) (sv_database env j), f_synced = True\<rparr>)"
proof -
  have p: "ss_path st = ss_path st0" using assms(1) by (simp add: saves_ok_def)
  have old: "disk_after (take k evs) d (ss_path st0) = d (ss_path st0) \<or>
      (\<exists>j<Suc i. disk_after (take k evs) d (ss_path st0) =
       Some \<lparr>f_data = save_encoded (sv_tick env) (sv_clock env j) (sv_database env j), f_synced = True\<rparr>)" for k
    using assms(1) unfolding saves_ok_def by (auto intro: less_SucI)
  show ?thesis
  proof (cases "m \<le> length evs")
    case True
    with old [of m] show ?thesis by simp
  next
    case False
    then have t: "disk_after (take m (evs @ evs')) d = disk_after (take (m - length evs) evs') (disk_after evs d)"
      by (simp add: disk_after_append)
    show ?thesis
      using save_result_path(1) [OF assms(2), of "m - length evs" "disk_after evs d"] old [of "length evs"]
      unfolding t p by auto
  qed
qed

lemma scheduled_save_ok:
  assumes "saves_ok env st0 d i s" "posix_write (si_write (sv_io env i))"
  shows "\<exists>s'. scheduled_save env i s = Some s' \<and> saves_ok env st0 d (Suc i) s'"
proof -
  obtain sd st evs where s: "s = (sd, st, evs)" by (metis prod_cases3)
  obtain outcome st' evs' where sv: "save (sv_strerror env) (sv_io env i) (sv_tick env) (sv_clock env i)
        (sv_database env i) st = Some (outcome, st', evs')"
    and r: "save_result (save_encoded (sv_tick env) (sv_clock env i) (sv_database env i))
        (length (db_snapshot (sc_shards (sv_clock env i)) (sv_database env i))) st (outcome, st', evs')"
    using save_returns_result [OF assms(2)] by (metis prod_cases3)
  let ?sd = "sd\<lparr>sd_attempts := Suc (sd_attempts sd)\<rparr>"
  let ?s' = "(if \<not> so_ok outcome then ?sd\<lparr>sd_failures := Suc (sd_failures sd), sd_lastError := so_error outcome\<rparr> else ?sd,
      st', evs @ evs')"
  have "saves_ok env st0 d (Suc i) ?s'"
    using assms(1) r saves_ok_disk [OF assms(1) [unfolded s] r]
    unfolding saves_ok_def s save_result_def
    by (auto simp: lastError_def saveCount_def split: if_splits)
  moreover have "scheduled_save env i s = Some ?s'" by (simp add: scheduled_save_def s sv Let_def)
  ultimately show ?thesis by blast
qed

section \<open>Properties\<close>



text \<open>
  Scheduled saves go on: stopped before turn \<open>n\<close>, the scheduler has attempted \<open>n\<close> saves, whatever
  failed; successes and failures add up, and the last error is kept exactly when there was a
  failure. At every moment, also between the steps of a save, the snapshot file is the one from
  before or a complete and flushed snapshot of one of the turns.
\<close>

theorem scheduler_keeps_saving:
  assumes "0 < interval" "\<forall>i. posix_write (si_write (sv_io env i))" "\<forall>j<n. \<not> stop j" "stop n"
  shows "\<exists>sd st' evs. scheduleLoop env stop 0 (scheduler_start (SnapshotScheduler interval), st, []) = Some (sd, st', evs) \<and>
    sd_running sd \<and> sd_attempts sd = n \<and> saveCount st' + sd_failures sd = saveCount st + n \<and>
    (0 < sd_failures sd \<longleftrightarrow> lastError sd \<noteq> '''') \<and>
    (\<forall>m. disk_after (take m evs) d (ss_path st) = d (ss_path st) \<or>
      (\<exists>j<n. disk_after (take m evs) d (ss_path st) =
         Some \<lparr>f_data = save_encoded (sv_tick env) (sv_clock env j) (sv_database env j), f_synced = True\<rparr>))"
proof -
  let ?s = "(scheduler_start (SnapshotScheduler interval), st, [])"
  have "saves_ok env st d 0 ?s"
    using assms(1) by (simp add: saves_ok_def scheduler_start_def SnapshotScheduler_def lastError_def disk_after_def)
  then obtain s' where "scheduling.turns env 0 n ?s = Some s'" "saves_ok env st d (0 + n) s'"
    using scheduling.turns_return [of "saves_ok env st d" env 0 ?s n] scheduled_save_ok assms(2) by blast
  moreover have "scheduleLoop env stop 0 ?s = scheduling.turns env 0 n ?s"
    using scheduling.loop_until_stop [of n stop 0] assms(3,4) by simp
  ultimately show ?thesis by (cases s') (auto simp: saves_ok_def)
qed

definition save_env_example :: save_env where
  "save_env_example = \<lparr>sv_database = \<lambda>_. db0,
     sv_io = \<lambda>i. if i = 1 then io_example\<lparr>si_fsync := Some (Other_errno 28)\<rparr> else io_example,
     sv_clock = \<lambda>_. clock_example, sv_tick = 1, sv_strerror = \<lambda>_. ''no space''\<rparr>"

lemma save_env_example_write: "\<forall>i. posix_write (si_write (sv_io save_env_example i))"
  by (simp add: save_env_example_def)

theorem scheduler_keeps_saving_witness:
  "\<exists>sd st' evs. scheduleLoop save_env_example (\<lambda>i. i = 3) 0
      (scheduler_start (SnapshotScheduler 60), SnapshotStore ''vcache.snapshot'', []) = Some (sd, st', evs) \<and>
    sd_attempts sd = 3 \<and> saveCount st' + sd_failures sd = 3"
  using scheduler_keeps_saving [OF _ save_env_example_write, of 60 3 "\<lambda>i. i = 3" "SnapshotStore ''vcache.snapshot''" Map.empty]
  by (auto simp: SnapshotStore_def saveCount_def)

end
