(* ===== verification/VC_Server_Props.thy ===== *)
theory VC_Server_Props
  imports VC_Server VC_ThreadPool_Props VC_Background_Props
begin

text \<open>
  Starting the server acquires everything or nothing, and refuses a damaged snapshot.
\<close>

section \<open>Starting\<close>

fun fd_opens :: "fd_event \<Rightarrow> int list" where
  "fd_opens (Fd_open fd) = [fd]"
| "fd_opens (Fd_close fd) = []"

fun fd_closes :: "fd_event \<Rightarrow> int list" where
  "fd_closes (Fd_open fd) = []"
| "fd_closes (Fd_close fd) = [fd]"

definition opened_by :: "fd_event list \<Rightarrow> int list" where
  "opened_by evs = concat (map fd_opens evs)"

definition closed_by :: "fd_event list \<Rightarrow> int list" where
  "closed_by evs = concat (map fd_closes evs)"

text \<open>POSIX: a descriptor is not negative.\<close>

definition posix_descriptors :: "start_env \<Rightarrow> bool" where
  "posix_descriptors env \<longleftrightarrow> (\<forall>fd. se_socket env = Inr fd \<longrightarrow> 0 \<le> fd) \<and> (\<forall>r w. se_pipe env = Inr (r, w) \<longrightarrow> 0 \<le> r \<and> 0 \<le> w)"

lemma start_failed_simps:
  assumes "sr_shutdownPipe s = (- 1, - 1)" "0 \<le> sr_listenFd s"
  shows "start_failed err s = (False, s\<lparr>sr_error := err, sr_listenFd := - 1, sr_shutdownPipe := (- 1, - 1)\<rparr>, [Fd_close (sr_listenFd s)])"
  using assms by (simp add: start_failed_def closeSockets_def close_fd_def)

text \<open>What opening the sockets gives, by the outcome.\<close>

definition sockets_result :: "server \<Rightarrow> bool \<times> server \<times> fd_event list \<Rightarrow> bool" where
  "sockets_result s res \<longleftrightarrow> (case res of (ok, s', evs) \<Rightarrow>
     if ok then (\<exists>port r w. s' = s\<lparr>sr_boundPort := port, sr_shutdownPipe := (r, w)\<rparr> \<and> evs = [Fd_open r, Fd_open w])
     else (\<exists>err port. err \<noteq> '''' \<and> evs = [Fd_close (sr_listenFd s)] \<and>
       s' = s\<lparr>sr_boundPort := port, sr_error := err, sr_listenFd := - 1, sr_shutdownPipe := (- 1, - 1)\<rparr>))"

lemma sockets_result_failed:
  assumes "sr_shutdownPipe s = (- 1, - 1)" "0 \<le> sr_listenFd s" "err \<noteq> ''''"
  shows "sockets_result s (start_failed err s)" "sockets_result s (start_failed err (s\<lparr>sr_boundPort := port\<rparr>))"
proof -
  show any: "sockets_result s (start_failed err (s\<lparr>sr_boundPort := port\<rparr>))" for port
    unfolding sockets_result_def using assms
    by (simp add: start_failed_simps, intro exI [of _ err] conjI exI [of _ port]) simp_all
  show "sockets_result s (start_failed err s)" using any [of "sr_boundPort s"] by simp
qed

lemma describeErrno_nonempty: "server_describeErrno strerror what e \<noteq> ''''"
  by (simp add: server_describeErrno_def)

lemma listen_socket_result:
  assumes "sr_shutdownPipe s = (- 1, - 1)" "0 \<le> sr_listenFd s"
  shows "sockets_result s (listen_socket env s)"
  unfolding listen_socket_def Let_def
  by (auto simp: sockets_result_failed [OF assms] describeErrno_nonempty split: option.split sum.split)
    (auto simp: sockets_result_def)

lemma restore_snapshot_result:
  assumes "reads_file (li_read (se_load_io env))"
  shows "\<exists>ok s db'. restore_snapshot env (Server config) db = Some (ok, s, db') \<and>
    (if ok then (\<exists>k. s = (Server config)\<lparr>sr_restoredEntryCount := k,
       sr_store := if cfg_snapshotPath config = '''' then None else Some (SnapshotStore (cfg_snapshotPath config))\<rparr>)
     else db' = db \<and> (\<exists>err. err \<noteq> '''' \<and> s = (Server config)\<lparr>sr_error := err\<rparr>))"
proof -
  have c: "sr_config (Server config) = config" by (simp add: Server_def)
  obtain outcome db' where l: "load (se_strerror env) (se_load_io env) (se_tick env) (se_load_clock env) (se_content env)
      (SnapshotStore (cfg_snapshotPath config)) db = Some (outcome, db')" "lo_status outcome = Load_Failed \<Longrightarrow> db' = db"
    using load_returns [OF assms] by metis
  then show ?thesis unfolding restore_snapshot_def c Let_def by (auto simp: Server_def)
qed

definition start_result :: "ServerConfig \<Rightarrow> bool \<Rightarrow> server \<Rightarrow> fd_event list \<Rightarrow> bool" where
  "start_result config ok s evs \<longleftrightarrow>
     (if ok then
       opened_by evs = [sr_listenFd s, fst (sr_shutdownPipe s), snd (sr_shutdownPipe s)] \<and> closed_by evs = [] \<and>
       sr_pool s = Some (ThreadPool (cfg_threadCount config) (cfg_maxQueuedConnections config)) \<and>
       sr_store s = (if cfg_snapshotPath config = '''' then None else Some (SnapshotStore (cfg_snapshotPath config)))
      else closed_by evs = opened_by evs \<and> sr_listenFd s = - 1 \<and> sr_shutdownPipe s = (- 1, - 1) \<and>
       sr_pool s = None \<and> sr_sweeper s = None \<and> sr_scheduler s = None \<and> sr_error s \<noteq> '''')"

lemma Server_sel [simp]:
  "sr_config (Server config) = config" "sr_listenFd (Server config) = - 1" "sr_shutdownPipe (Server config) = (- 1, - 1)"
  "sr_pool (Server config) = None" "sr_sweeper (Server config) = None" "sr_scheduler (Server config) = None"
  "sr_store (Server config) = None"
  by (simp_all add: Server_def)

lemma start_threads_sel [simp]:
  "sr_listenFd (start_threads s) = sr_listenFd s" "sr_shutdownPipe (start_threads s) = sr_shutdownPipe s"
  "sr_store (start_threads s) = sr_store s"
  "sr_pool (start_threads s) = Some (ThreadPool (cfg_threadCount (sr_config s)) (cfg_maxQueuedConnections (sr_config s)))"
  by (simp_all add: start_threads_def Let_def)

lemma sockets_start_result:
  assumes "sockets_result s (ok, s', evs)" "sr_config s = config" "sr_shutdownPipe s = (- 1, - 1)"
    "sr_pool s = None" "sr_sweeper s = None" "sr_scheduler s = None"
    "sr_store s = (if cfg_snapshotPath config = '''' then None else Some (SnapshotStore (cfg_snapshotPath config)))"
  shows "start_result config ok (if ok then start_threads s' else s') (Fd_open (sr_listenFd s) # evs)"
proof (cases ok)
  case True
  with assms show ?thesis
    unfolding sockets_result_def by (auto simp: start_result_def opened_by_def closed_by_def)
next
  case False
  with assms show ?thesis
    unfolding sockets_result_def by (auto simp: start_result_def opened_by_def closed_by_def)
qed

lemma server_start_result:
  assumes "reads_file (li_read (se_load_io env))" "posix_descriptors env"
  shows "\<exists>ok s db' evs. server_start env (Server config) db = Some (ok, s, db', evs) \<and> start_result config ok s evs"
proof -
  let ?db = "db_setMaxMemory (cfg_maxMemoryBytes config) db"
  let ?s = "\<lambda>k. (Server config)\<lparr>sr_restoredEntryCount := k,
       sr_store := if cfg_snapshotPath config = '''' then None else Some (SnapshotStore (cfg_snapshotPath config))\<rparr>"
  obtain go s1 db' where r: "restore_snapshot env (Server config) ?db = Some (go, s1, db')"
    and go: "if go then (\<exists>k. s1 = ?s k) else db' = ?db \<and> (\<exists>err. err \<noteq> '''' \<and> s1 = (Server config)\<lparr>sr_error := err\<rparr>)"
    using restore_snapshot_result [OF assms(1)] by metis
  consider err where "\<not> go" "err \<noteq> ''''" "s1 = (Server config)\<lparr>sr_error := err\<rparr>"
    | k e where "go" "s1 = ?s k" "se_socket env = Inl e" | k fd where "go" "s1 = ?s k" "se_socket env = Inr fd"
    using go by (cases go; cases "se_socket env") auto
  then show ?thesis
  proof cases
    case 1
    with r show ?thesis by (simp add: server_start_def start_result_def opened_by_def closed_by_def ex_bool_eq)
  next
    case 2
    with r show ?thesis
      by (simp add: server_start_def start_result_def opened_by_def closed_by_def describeErrno_nonempty ex_bool_eq)
  next
    case 3
    obtain ok s2 evs where l: "listen_socket env (s1\<lparr>sr_listenFd := fd\<rparr>) = (ok, s2, evs)" by (metis prod_cases3)
    have "sr_shutdownPipe (s1\<lparr>sr_listenFd := fd\<rparr>) = (- 1, - 1)" "0 \<le> sr_listenFd (s1\<lparr>sr_listenFd := fd\<rparr>)"
      using 3 assms(2) by (simp_all add: posix_descriptors_def)
    then have "sockets_result (s1\<lparr>sr_listenFd := fd\<rparr>) (ok, s2, evs)"
      unfolding l [symmetric] by (rule listen_socket_result)
    then have "start_result config ok (if ok then start_threads s2 else s2) (Fd_open fd # evs)"
      using sockets_start_result [of "s1\<lparr>sr_listenFd := fd\<rparr>" ok s2 evs config] 3(2) by simp
    moreover have "server_start env (Server config) db =
        Some (ok, if ok then start_threads s2 else s2, db', Fd_open fd # evs)"
      by (simp only: server_start_def Server_sel r 3(1,3) l option.case prod.case bool.case sum.case if_True)
    ultimately show ?thesis by blast
  qed
qed

lemma server_start_damaged:
  assumes "cfg_snapshotPath config \<noteq> ''''" "cfg_restoreOnStart config"
    and "load (se_strerror env) (se_load_io env) (se_tick env) (se_load_clock env) (se_content env)
        (SnapshotStore (cfg_snapshotPath config)) (db_setMaxMemory (cfg_maxMemoryBytes config) db) = Some (outcome, db')"
    and "lo_status outcome = Load_Failed"
  shows "\<exists>s. server_start env (Server config) db = Some (False, s, db', []) \<and> sr_store s = None"
  using assms by (simp add: server_start_def restore_snapshot_def Let_def)

text \<open>
  C37. Starting takes everything or nothing. It returns; when it succeeds, the listening socket and the two
  ends of the pipe are open and nothing was closed, the pool has its threads, and the store is the
  configured one. When it fails, every descriptor it opened is closed again, no thread was created
  and there is an error text. A snapshot that exists but cannot be loaded makes it fail before any
  socket is opened, with the keyspace as it was apart from the memory limit, and with no store
  left that could overwrite the file.
\<close>

theorem server_start_outcome:
  assumes "reads_file (li_read (se_load_io env))" "posix_descriptors env"
  shows "\<exists>ok s db' evs. server_start env (Server config) db = Some (ok, s, db', evs) \<and>
    (ok \<longrightarrow> opened_by evs = [sr_listenFd s, fst (sr_shutdownPipe s), snd (sr_shutdownPipe s)] \<and> closed_by evs = [] \<and>
       sr_pool s = Some (ThreadPool (cfg_threadCount config) (cfg_maxQueuedConnections config)) \<and>
       sr_store s = (if cfg_snapshotPath config = '''' then None else Some (SnapshotStore (cfg_snapshotPath config)))) \<and>
    (\<not> ok \<longrightarrow> closed_by evs = opened_by evs \<and> sr_listenFd s = - 1 \<and> sr_shutdownPipe s = (- 1, - 1) \<and>
       sr_pool s = None \<and> sr_sweeper s = None \<and> sr_scheduler s = None \<and> sr_error s \<noteq> '''') \<and>
    (cfg_snapshotPath config \<noteq> '''' \<and> cfg_restoreOnStart config \<and>
     (\<exists>outcome db1. load (se_strerror env) (se_load_io env) (se_tick env) (se_load_clock env) (se_content env)
        (SnapshotStore (cfg_snapshotPath config)) (db_setMaxMemory (cfg_maxMemoryBytes config) db) = Some (outcome, db1) \<and>
        lo_status outcome = Load_Failed) \<longrightarrow>
     \<not> ok \<and> evs = [] \<and> db' = db_setMaxMemory (cfg_maxMemoryBytes config) db \<and> sr_store s = None)"
proof -
  obtain ok s db' evs where r: "server_start env (Server config) db = Some (ok, s, db', evs)" "start_result config ok s evs"
    using server_start_result [OF assms] by blast
  have "\<not> ok \<and> evs = [] \<and> db' = db_setMaxMemory (cfg_maxMemoryBytes config) db \<and> sr_store s = None"
    if "cfg_snapshotPath config \<noteq> ''''" "cfg_restoreOnStart config"
      "load (se_strerror env) (se_load_io env) (se_tick env) (se_load_clock env) (se_content env)
        (SnapshotStore (cfg_snapshotPath config)) (db_setMaxMemory (cfg_maxMemoryBytes config) db) = Some (outcome, db1)"
      "lo_status outcome = Load_Failed" for outcome db1
  proof -
    have "db1 = db_setMaxMemory (cfg_maxMemoryBytes config) db" 
      using that(3,4) load_returns [OF assms(1), of "se_strerror env" "se_tick env" "se_load_clock env" "se_content env"
        "SnapshotStore (cfg_snapshotPath config)" "db_setMaxMemory (cfg_maxMemoryBytes config) db"] by simp
    with server_start_damaged [OF that] r(1) show ?thesis by auto
  qed
  with r show ?thesis unfolding start_result_def by (intro exI [of _ ok] exI [of _ s] exI [of _ db'] exI [of _ evs]) auto
qed

definition start_example :: start_env where
  "start_example = \<lparr>se_strerror = \<lambda>_. '''', se_load_io = \<lparr>li_open = None, li_read = slow_kernel\<rparr>, se_tick = 1,
     se_load_clock = \<lparr>lc_now = 0, lc_entries = (\<lambda>_. (0, 0)), lc_restore = 0\<rparr>, se_content = ''junk'',
     se_socket = Inr 3, se_setsockopt = None, se_inet_pton = (\<lambda>_. True), se_bind = None, se_listen = None,
     se_getsockname = Inr 6379, se_pipe = Inr (4, 5)\<rparr>"

lemma load_junk:
  "load (se_strerror start_example) (se_load_io start_example) (se_tick start_example) (se_load_clock start_example)
     (se_content start_example) st db = Some (load_failed err_short, db)"
proof -
  have "readWholeFile slow_kernel 0 ''junk'' 0 '''' = Some (Inr ''junk'')"
    by (intro readWholeFile_correct slow_kernel_posix)
  moreover have "decode 1 0 (\<lambda>_. (0, 0)) ''junk'' = Inl err_short"
    by (simp add: decode_def kHeaderLength_def kChecksumLength_def)
  ultimately show ?thesis by (simp add: load_def start_example_def)
qed

theorem server_start_outcome_witness:
  "\<exists>s. server_start start_example (Server (default_ServerConfig\<lparr>cfg_snapshotPath := ''f''\<rparr>)) db0 =
     Some (False, s, db_setMaxMemory 0 db0, []) \<and> sr_store s = None \<and> sr_error s \<noteq> ''''"
proof -
  let ?cfg = "default_ServerConfig\<lparr>cfg_snapshotPath := ''f''\<rparr>"
  have "reads_file (li_read (se_load_io start_example))" "posix_descriptors start_example"
    by (simp_all add: start_example_def slow_kernel_posix posix_descriptors_def)
  from server_start_outcome [OF this, of ?cfg db0]
  show ?thesis
    by (simp add: load_junk load_failed_def default_ServerConfig_def) (metis (lifting))
qed

end
