(* ===== verification/VC_Main_Props.thy ===== *)
theory VC_Main_Props
  imports VC_ServerMain VC_ClientMain VC_Server_Props VC_Executor_Props
begin

text \<open>
  The two programs: what the server accepts as its configuration and what it leaves behind, and that
  the commands of the client reach the server as they were given and are answered.
\<close>

section \<open>Commands of the client\<close>

text \<open>An argument that survives: one line, and not a quotation of its own.\<close>

definition intact :: "string \<Rightarrow> bool" where
  "intact part \<longleftrightarrow> LF \<notin> set part \<and> CR \<notin> set part \<and> (needsQuotes part \<or> hd part \<noteq> quote_char)"

abbreviation requote_char :: "char \<Rightarrow> string" where
  "requote_char c \<equiv> (if c = quote_char \<or> c = backslash then [backslash] else []) @ [c]"

lemma scan_requoted: "scan_quoted token (concat (map requote_char p) @ quote_char # rest) = Some (token @ p, rest)"
proof (induction p arbitrary: token)
  case (Cons c p)
  have "take_escape c t = (c, t)" if "c = quote_char \<or> c = backslash" for t
    using that by (auto simp: take_escape_def)
  with Cons show ?case by (auto simp: scan_quoted.simps)
qed simp

lemma tokenize_requote:
  assumes "intact p" "ends_token rest"
  shows "tokenize_loop tokens (requote p @ rest) = tokenize_loop (tokens @ [p]) rest"
proof (cases "needsQuotes p")
  case True
  then show ?thesis using assms(2)
    by (subst tokenize_loop.simps) (auto simp: requote_def scan_requoted ends_token_def)
next
  case False
  with assms show ?thesis
    by (auto simp: requote_def intact_def needsQuotes_def bare_def isSpace_def list_all_iff intro!: tokenize_bare)
qed

lemma ends_token_join: "ends_token (join_parts ps)"
  by (cases ps) simp_all

lemma tokenize_join: "\<forall>p\<in>set ps. intact p \<Longrightarrow> tokenize_loop tokens (join_parts ps) = Inr (tokens @ ps)"
  by (induction ps arbitrary: tokens) (simp_all add: tokenize_space tokenize_requote ends_token_join)

lemma set_requote: "set (requote p) \<subseteq> set p \<union> {quote_char, backslash}"
  by (auto simp: requote_def split: if_splits)

lemma set_join: "set (join_parts ps) \<subseteq> (\<Union>p\<in>set ps. set p) \<union> {quote_char, backslash, CHR '' ''}"
  using set_requote by (induction ps) fastforce+

lemma join_one_line:
  assumes "\<forall>p\<in>set parts. intact p"
  shows "LF \<notin> set (joinOneShot parts)" "CR \<notin> set (joinOneShot parts)"
proof -
  have "set (joinOneShot parts) \<subseteq> (\<Union>p\<in>set parts. set p) \<union> {quote_char, backslash, CHR '' ''}"
  proof (cases parts)
    case (Cons p ps)
    with set_join [of ps] set_requote [of p] show ?thesis unfolding joinOneShot_def by auto
  qed (simp add: joinOneShot_def)
  with assms show "LF \<notin> set (joinOneShot parts)" "CR \<notin> set (joinOneShot parts)"
    unfolding intact_def by auto
qed

lemma strip_eol_one_line:
  assumes "LF \<notin> set line" "CR \<notin> set line"
  shows "strip_eol line = line"
proof (cases "line = []")
  case False
  then have "last line \<noteq> LF" "last line \<noteq> CR" using assms by (metis last_in_set)+
  with False show ?thesis by (rule strip_eol_id)
qed (simp add: strip_eol_def)

lemma tokenize_joinOneShot:
  assumes "\<forall>p\<in>set parts. intact p"
  shows "tokenize (joinOneShot parts) = Inr parts"
proof (cases parts)
  case (Cons p ps)
  with assms show ?thesis
    unfolding tokenize_def strip_eol_one_line [OF join_one_line [OF assms]]
    by (simp add: joinOneShot_def tokenize_requote ends_token_join tokenize_join)
qed (simp add: joinOneShot_def tokenize_def strip_eol_def)

lemma tokenize_grows: "tokenize_loop tokens line = Inr ts \<Longrightarrow> length tokens \<le> length ts"
  by (induction tokens line rule: tokenize_loop.induct)
    (subst (asm) (3) tokenize_loop.simps, fastforce split: list.splits if_splits option.splits prod.splits)

lemma tokenize_none:
  assumes "tokenize line = Inr []" "LF \<notin> set line"
  shows "blank_line line"
proof -
  have "dropWhile isSpace (strip_eol line) = []"
  proof (rule ccontr)
    assume "dropWhile isSpace (strip_eol line) \<noteq> []"
    then obtain c rest where "dropWhile isSpace (strip_eol line) = c # rest" by (meson neq_Nil_conv)
    with assms(1) show False unfolding tokenize_def
      by (subst (asm) tokenize_loop.simps) (auto split: if_splits option.splits prod.splits dest: tokenize_grows)
  qed
  then have "c = CHR '' '' \<or> c = TAB" if "c \<in> set (strip_eol line)" for c
    using that by (auto simp: dropWhile_eq_Nil_conv isSpace_def)
  moreover have "c \<in> set (strip_eol line) \<or> c = LF \<or> c = CR" if "c \<in> set line" for c
  proof -
    let ?P = "\<lambda>c. c = LF \<or> c = CR"
    have "c \<in> set (takeWhile ?P (rev line)) \<union> set (dropWhile ?P (rev line))"
      using that by (simp flip: set_append)
    then show ?thesis unfolding strip_eol_def by (auto dest: set_takeWhileD)
  qed
  ultimately show ?thesis using assms(2) by (auto simp: blank_line_def list_all_iff)
qed

lemma execute_answers:
  assumes "execute env line ex = Some (response, ex', evs)" "\<not> blank_line line" "LF \<notin> set line"
  shows "response \<noteq> None"
proof -
  have "cmd_type c \<noteq> Cmd_Empty" if "parse line = Inr c" for c
  proof -
    have "tokenize line \<noteq> Inr []" using tokenize_none assms(2,3) by blast
    then show ?thesis using that kCommands_shape findCommand_cases(1)
      by (fastforce simp: parse_def parse_expire_def success_def failure_def Let_def split: sum.splits if_splits option.splits)
  qed
  then show ?thesis using assms(1)
    by (auto simp: execute_def split: sum.splits CommandType.splits option.splits prod.splits if_splits bind_splits)
qed

section \<open>Arguments of the server\<close>

text \<open>The sizes \<open>parseByteSize\<close> accepts: digits and a suffix, in either case, that fit into 64 bits.\<close>

definition size_text :: "string \<Rightarrow> nat \<Rightarrow> bool" where
  "size_text text n \<longleftrightarrow> (\<exists>ds suffix multiplier. text = ds @ suffix \<and> ds \<noteq> [] \<and> list_all is_digit ds \<and>
     size_multiplier (map upper_char suffix) = Some multiplier \<and> n = digits_val ds * multiplier \<and> n < 2 ^ 64)"

lemma size_multiplier_pos: "size_multiplier suffix = Some m \<Longrightarrow> 0 < m"
  by (auto simp: size_multiplier_def split: if_splits)

lemma upper_digit: "is_digit c \<Longrightarrow> upper_char c = c"
  by (auto simp: is_digit_iff upper_char_def in_range_def byte_def)

lemma no_digit_suffix:
  assumes "size_multiplier (map upper_char suffix) = Some m"
  shows "suffix = [] \<or> \<not> is_digit (hd suffix)"
proof (cases suffix)
  case (Cons c cs)
  have "upper_char c = CHR ''B'' \<or> upper_char c = CHR ''K'' \<or> upper_char c = CHR ''M'' \<or> upper_char c = CHR ''G''"
    using assms Cons by (auto simp: size_multiplier_def split: if_splits)
  then have "\<not> is_digit (upper_char c)" by (elim disjE) (simp_all add: is_digit_iff byte_def)
  with upper_digit [of c] Cons show ?thesis by auto
qed simp

lemma takeWhile_digits:
  assumes "list_all is_digit ds" "suffix = [] \<or> \<not> is_digit (hd suffix)"
  shows "takeWhile is_digit (ds @ suffix) = ds"
  using assms by (cases suffix) (simp_all add: list_all_iff takeWhile_append2 takeWhile_all)

lemma fits_64: "0 < m \<Longrightarrow> \<not> (2 ^ 64 - 1) div m < n \<longleftrightarrow> n * m < (2 ^ 64 :: nat)"
  by (simp add: not_less less_eq_div_iff_mult_less_eq) linarith

lemma parseByteSize_iff: "parseByteSize text = Some n \<longleftrightarrow> size_text text n"
proof
  assume p: "parseByteSize text = Some n"
  let ?ds = "takeWhile is_digit text" and ?suffix = "drop (length (takeWhile is_digit text)) text"
  obtain m where m: "size_multiplier (map upper_char ?suffix) = Some m" and r: "?ds \<noteq> []" "digits_val ?ds < 2 ^ 64"
      "\<not> (2 ^ 64 - 1) div m < digits_val ?ds" "n = digits_val ?ds * m"
    using p unfolding parseByteSize_def stoull_def Let_def by (auto split: if_splits option.splits)
  have "n < 2 ^ 64" using fits_64 [OF size_multiplier_pos [OF m]] r(3,4) by blast
  moreover have "text = ?ds @ ?suffix" by (simp add: dropWhile_eq_drop [symmetric])
  moreover have "list_all is_digit ?ds" by (auto simp: list_all_iff dest: set_takeWhileD)
  ultimately show "size_text text n" unfolding size_text_def using m r(1,4) by blast
next
  assume "size_text text n"
  then obtain ds suffix m where t: "text = ds @ suffix" "ds \<noteq> []" "list_all is_digit ds"
      and m: "size_multiplier (map upper_char suffix) = Some m" and n: "n = digits_val ds * m" "n < 2 ^ 64"
    unfolding size_text_def by blast
  note pos = size_multiplier_pos [OF m]
  have "takeWhile is_digit text = ds" using takeWhile_digits [OF t(3) no_digit_suffix [OF m]] t(1) by simp
  moreover have "digits_val ds < 2 ^ 64" using n pos by (metis le_less_trans mult.right_neutral mult_le_mono2 Suc_leI One_nat_def)
  moreover have "\<not> (2 ^ 64 - 1) div m < digits_val ds" using fits_64 [OF pos] n by blast
  ultimately show "parseByteSize text = Some n"
    using t m n(1) unfolding parseByteSize_def stoull_def Let_def by simp
qed

definition config_ok :: "ServerConfig \<Rightarrow> bool" where
  "config_ok config \<longleftrightarrow> 1 \<le> cfg_threadCount config \<and> cfg_threadCount config \<le> 4096 \<and>
     1 \<le> cfg_shardCount config \<and> cfg_shardCount config \<le> 4096 \<and> 0 \<le> cfg_saveInterval config \<and> cfg_maxMemoryBytes config < 2 ^ 64"

lemma set_number_ok:
  assumes "set_number argument val config = Inr config'" "config_ok config"
  shows "config_ok config'"
proof -
  have "(\<exists>p. config' = config\<lparr>cfg_port := p\<rparr>) \<or> (\<exists>n. 1 \<le> n \<and> n \<le> 4096 \<and>
      (config' = config\<lparr>cfg_shardCount := nat n\<rparr> \<or> config' = config\<lparr>cfg_threadCount := nat n\<rparr>))"
  proof (cases "argument = ''--port''")
    case True
    with assms(1) show ?thesis unfolding set_number_def Let_def by (auto split: if_splits option.splits)
  next
    case False
    with assms(1) show ?thesis unfolding set_number_def Let_def
      by (simp split: if_splits option.splits prod.splits) (metis not_less)+
  qed
  with assms(2) show ?thesis by (auto simp: config_ok_def)
qed

lemma set_option_ok:
  assumes "set_option argument val config = Inr config'" "config_ok config"
  shows "config_ok config'"
proof -
  have size: "n < 2 ^ 64" if "parseByteSize t = Some n" for t n
    using that unfolding parseByteSize_iff size_text_def by blast
  show ?thesis
  proof -
    consider "argument = ''--bind''" | "argument = ''--dbfile''" | "argument = ''--max-memory''" | "argument = ''--save-interval''"
      | "argument \<noteq> ''--bind''" "argument \<noteq> ''--dbfile''" "argument \<noteq> ''--max-memory''" "argument \<noteq> ''--save-interval''"
      by blast
    then show ?thesis
    proof cases
      case 1
      then have "config' = config\<lparr>cfg_bindAddress := val\<rparr>" using assms(1) by (simp add: set_option_def)
      with assms(2) show ?thesis by (simp add: config_ok_def)
    next
      case 2
      then have "config' = config\<lparr>cfg_snapshotPath := val\<rparr>" using assms(1) by (simp add: set_option_def)
      with assms(2) show ?thesis by (simp add: config_ok_def)
    next
      case 3
      then obtain n where "parseByteSize val = Some n" "config' = config\<lparr>cfg_maxMemoryBytes := n\<rparr>"
        using assms(1) by (auto simp: set_option_def split: option.splits)
      with assms(2) size show ?thesis by (simp add: config_ok_def)
    next
      case 4
      then obtain t where "0 \<le> t" "config' = config\<lparr>cfg_saveInterval := t * 1000\<rparr>"
        using assms(1) that [of 0] by (auto simp: set_option_def not_less split: option.splits if_splits)
      with assms(2) show ?thesis by (simp add: config_ok_def)
    next
      case 5
      then show ?thesis using assms set_number_ok by (simp add: set_option_def)
    qed
  qed
qed

lemma server_parseArguments_ok:
  "server_parseArguments args config = (ok, help, config', printed) \<Longrightarrow> config_ok config \<Longrightarrow> config_ok config'"
  by (induction args config rule: server_parseArguments.induct)
    (auto split: if_splits list.splits sum.splits dest: set_option_ok)

section \<open>Properties\<close>



text \<open>An argument that begins with a quote is sent as it is, and the server takes it for a quotation.\<close>

lemma one_shot_quote_lost: "tokenize (joinOneShot [''GET'', [quote_char, CHR ''k'', quote_char]]) = Inr [''GET'', ''k'']"
  by code_simp

text \<open>
  The client waits only for replies that come: whatever line the prompt sends and whatever arguments are
  given on the command line, a request that the server executes is answered. Only blank lines have
  no reply, and those are never sent.
\<close>

theorem sent_commands_answered:
  assumes "LF \<notin> set line \<and> \<not> blank_line line \<or> parts \<noteq> [] \<and> (\<forall>p\<in>set parts. intact p) \<and> line = joinOneShot parts"
    and "execute env line ex = Some (response, ex', evs)"
  shows "response \<noteq> None"
  using assms(1)
proof (elim disjE conjE)
  assume p: "parts \<noteq> []" "\<forall>p\<in>set parts. intact p" "line = joinOneShot parts"
  then have "tokenize line = Inr parts" using tokenize_joinOneShot by blast
  moreover have "tokenize line = Inr []" if "blank_line line"
  proof -
    have "CR \<notin> set line" using join_one_line(2) [OF p(2)] p(3) by blast
    with that have "list_all isSpace line" by (auto simp: blank_line_def list_all_iff isSpace_def)
    then have "dropWhile isSpace line = []" by (simp add: list_all_iff dropWhile_eq_Nil_conv)
    moreover have "strip_eol line = line" using strip_eol_one_line join_one_line [OF p(2)] p(3) by blast
    ultimately show ?thesis unfolding tokenize_def by (subst tokenize_loop.simps) (simp del: dropWhile_eq_Nil_conv)
  qed
  ultimately have "\<not> blank_line line" using p(1) by auto
  with execute_answers [OF assms(2)] join_one_line(1) [OF p(2)] p(3) show ?thesis by blast
qed (use execute_answers [OF assms(2)] in blast)

theorem sent_commands_answered_witness:
  "\<exists>reply. execute env_example ''KEYS'' (CommandExecutor db0 None) = Some (Some reply, CommandExecutor db0 None, [])"
proof -
  have "parse ''KEYS'' = Inr (default_Command\<lparr>cmd_type := Cmd_Keys\<rparr>)" by code_simp
  then obtain response where e: "execute env_example ''KEYS'' (CommandExecutor db0 None) = Some (response, CommandExecutor db0 None, [])"
    by (simp add: execute_def CommandExecutor_def)
  have "response \<noteq> None"
    by (rule sent_commands_answered [OF _ e, of "[]"]) (simp add: blank_line_def)
  with e show ?thesis by auto
qed

text \<open>
  Memory sizes are read exactly: digits with one of the suffixes, in either case, stand for their number
  times the power of 1024, and a text is refused when it is anything else or when the size does
  not fit into 64 bits; nothing wraps around.
\<close>

theorem parseByteSize_exact:
  "parseByteSize text = Some n \<longleftrightarrow>
     (\<exists>ds suffix multiplier. text = ds @ suffix \<and> ds \<noteq> [] \<and> list_all is_digit ds \<and>
       size_multiplier (map upper_char suffix) = Some multiplier \<and> n = digits_val ds * multiplier \<and> n < 2 ^ 64)"
  unfolding parseByteSize_iff size_text_def ..

text \<open>
  Every configuration the server accepts on its command line can be started with: thread and shard
  counts are between 1 and 4096, the save interval is not negative, and constructing the database
  returns with a valid, empty keyspace of at least that many shards.
\<close>

theorem accepted_arguments_safe:
  assumes "server_parseArguments args default_ServerConfig = (True, help, config, printed)"
  shows "1 \<le> cfg_threadCount config \<and> cfg_threadCount config \<le> 4096 \<and>
    1 \<le> cfg_shardCount config \<and> cfg_shardCount config \<le> 4096 \<and>
    0 \<le> cfg_saveInterval config \<and> cfg_maxMemoryBytes config < 2 ^ 64 \<and>
    (\<exists>db. Database kDefaultBucketCount (cfg_shardCount config) = Some db \<and> db_inv db \<and> db_lookup db = Map.empty \<and>
       cfg_shardCount config \<le> length (db_shards db))"
proof -
  have "config_ok default_ServerConfig"
    by (simp add: config_ok_def default_ServerConfig_def kDefaultShardCount_def)
  then have ok: "config_ok config" using server_parseArguments_ok [OF assms] by blast
  then have "cfg_shardCount config \<le> 2 ^ 63" by (simp add: config_ok_def)
  from Database_constructor [OF this] ok show ?thesis by (auto simp: config_ok_def)
qed

theorem accepted_arguments_safe_witness:
  "\<exists>config printed. server_parseArguments [''--shards'', ''3'', ''--bind'', ''0.0.0.0''] default_ServerConfig =
       (True, False, config, printed) \<and>
     (\<exists>db. Database kDefaultBucketCount (cfg_shardCount config) = Some db \<and> db_inv db)"
proof -
  have "stoi ''3'' = Some (3, 1)" by code_simp
  then have "server_parseArguments [''--shards'', ''3'', ''--bind'', ''0.0.0.0''] default_ServerConfig =
      (True, False, default_ServerConfig\<lparr>cfg_shardCount := 3, cfg_bindAddress := ''0.0.0.0''\<rparr>, [])"
    by (simp add: valued_options_def set_option_def set_number_def)
  with accepted_arguments_safe [OF this] show ?thesis by blast
qed

text \<open>A missing number is taken for zero: the error that \<open>stoll\<close> reports for an empty text is lost.\<close>

lemma empty_save_interval_accepted: "set_option ''--save-interval'' '''' config = Inr (config\<lparr>cfg_saveInterval := 0\<rparr>)"
  by (simp add: set_option_def stoll_def scan_integer_def)


definition main_example :: main_env where
  "main_example = \<lparr>me_start = start_example\<lparr>se_load_io := \<lparr>li_open = Some ENOENT, li_read = slow_kernel\<rparr>\<rparr>,
     me_run = (\<lambda>s db. (s, snd (db_set ''k'' ''v'' db))), me_io = io_example, me_clock = clock_example\<rparr>"


end
