(* ===== verification/VC_System.thy ===== *)
theory VC_System
  imports VC_Server
begin

text \<open>
  The whole server at work: the accept loop and the workers of VC_Server, and with them what the workers do
  inside \<open>handleConnection\<close>, the sweeper and the scheduler, all on the one database and snapshot store they
  share. A step is one critical section: a request for one key holds the lock of one shard throughout and is
  one step (a GET under a shared lock takes effect when it promotes the key); KEYS, \<open>snapshot\<close> and
  \<open>removeExpired\<close> lock one shard after the other, so each visit of a shard is a step and other threads may
  come in between; the file work of a save is one step, as the store is locked from before the entries are
  collected until the file is in place.
\<close>

section \<open>State\<close>

text \<open>
  What a worker is doing inside \<open>handleConnection\<close>; the first text is \<open>pending\<close>. \<open>Listing\<close> and \<open>Collecting\<close>
  hold what was found so far and the next shard, \<open>Replying\<close> the reply, and whether the connection goes on
  after it.
\<close>

datatype activity =
    Testing string
  | Receiving string
  | Cutting string
  | Listing string "string list" nat
  | Collecting string "entry list" nat
  | Replying string string bool
  | Finished

text \<open>Who holds the mutex of the store.\<close>

datatype saver = By_worker nat | By_scheduler

text \<open>
  \<open>sy_store\<close>, \<open>sy_sweeper\<close> and \<open>sy_scheduler\<close> are the objects the server owns, with their counters, where
  \<open>sy_net\<close> keeps them as \<open>start\<close> left them. \<open>sy_sweep\<close> is the next shard of the sweeper and what the pass
  removed so far, \<open>sy_collect\<close> what the scheduler has collected and its next shard; None while the thread
  waits. \<open>sy_now\<close> is the latest reading of the steady clock.
\<close>

record sys =
  sy_net :: net
  sy_database :: database
  sy_store :: "store option"
  sy_sweeper :: "sweeper option"
  sy_scheduler :: "scheduler option"
  sy_activity :: "nat \<Rightarrow> activity"
  sy_saver :: "saver option"
  sy_sweep :: "(nat \<times> nat) option"
  sy_collect :: "(entry list \<times> nat) option"
  sy_now :: time_point

definition system :: "server \<Rightarrow> database \<Rightarrow> time_point \<Rightarrow> sys" where
  "system s db now =
     \<lparr>sy_net = network s (case sr_pool s of Some p \<Rightarrow> p | None \<Rightarrow> ThreadPool 0 0), sy_database = db,
      sy_store = sr_store s, sy_sweeper = sr_sweeper s, sy_scheduler = sr_scheduler s,
      sy_activity = (\<lambda>_. Finished), sy_saver = None, sy_sweep = None, sy_collect = None, sy_now = now\<rparr>"

text \<open>The server object as it is after \<open>run\<close>.\<close>

definition server_after :: "sys \<Rightarrow> server" where
  "server_after s =
     (nt_server (sy_net s))\<lparr>sr_store := sy_store s, sr_sweeper := sy_sweeper s, sr_scheduler := sy_scheduler s\<rparr>"

section \<open>One shard at a time\<close>

definition shard_keys :: "time_point \<Rightarrow> nat \<Rightarrow> database \<Rightarrow> string list" where
  "shard_keys now j db = ht_keysWhere (\<lambda>e. \<not> isExpiredAt now e) (sh_table (db_shards db ! j))"

definition shard_entries :: "time_point \<Rightarrow> nat \<Rightarrow> database \<Rightarrow> entry list" where
  "shard_entries now j db = ht_entriesWhere (\<lambda>e. \<not> isExpiredAt now e) (sh_table (db_shards db ! j))"

definition sweep_at :: "time_point \<Rightarrow> nat \<Rightarrow> nat \<Rightarrow> database \<Rightarrow> nat \<times> database" where
  "sweep_at now maxBuckets j db =
     (case sweep_shard now (max (maxBuckets div length (db_shards db)) 1) (db_shards db ! j) of
        (removed, sh) \<Rightarrow> (removed, db\<lparr>db_shards := (db_shards db)[j := sh]\<rparr>))"

section \<open>Workers\<close>

definition act :: "nat \<Rightarrow> activity \<Rightarrow> sys \<Rightarrow> sys" where
  "act i a s = s\<lparr>sy_activity := (sy_activity s)(i := a)\<rparr>"

definition conn_test :: "nat \<Rightarrow> string \<Rightarrow> sys \<Rightarrow> sys" where
  "conn_test i pending s = act i (if nt_running (sy_net s) then Receiving pending else Finished) s"

definition conn_recv :: "nat \<Rightarrow> string \<Rightarrow> recv_result \<Rightarrow> sys \<Rightarrow> sys" where
  "conn_recv i pending res s =
     act i (case res of
              Recv_err e \<Rightarrow> if isRetryable e then Testing pending else Finished
            | Recv_bytes bytes \<Rightarrow> if bytes = [] then Finished else Cutting (pending @ bytes)) s"

text \<open>No complete line is left in \<open>pending\<close>.\<close>

definition conn_rest :: "nat \<Rightarrow> string \<Rightarrow> sys \<Rightarrow> sys" where
  "conn_rest i pending s =
     act i (if length pending > cfg_maxRequestBytes (sr_config (nt_server (sy_net s)))
            then Replying pending (proto_error err_too_large) False else Testing pending) s"

text \<open>The requests that lock more than one shard.\<close>

definition visits_shards :: "string \<Rightarrow> store option \<Rightarrow> bool" where
  "visits_shards line st \<longleftrightarrow>
     (case parse line of
        Inl err \<Rightarrow> False
      | Inr c \<Rightarrow> cmd_type c = Cmd_Keys \<or> cmd_type c = Cmd_Save \<and> st \<noteq> None)"

definition conn_request :: "nat \<Rightarrow> request_env \<Rightarrow> string \<Rightarrow> string \<Rightarrow> sys \<Rightarrow> (string option \<times> sys) option" where
  "conn_request i env line rest s =
     (case execute env line (CommandExecutor (sy_database s) (sy_store s)) of
        None \<Rightarrow> None
      | Some (reply, ex, evs) \<Rightarrow>
          Some (reply, act i (case reply of None \<Rightarrow> Cutting rest | Some r \<Rightarrow> Replying rest r True)
                         (s\<lparr>sy_database := ex_database ex, sy_now := en_now env\<rparr>)))"

definition conn_list :: "nat \<Rightarrow> time_point \<Rightarrow> string \<Rightarrow> string list \<Rightarrow> nat \<Rightarrow> sys \<Rightarrow> sys" where
  "conn_list i now rest keys j s =
     act i (Listing rest (keys @ shard_keys now j (sy_database s)) (Suc j)) (s\<lparr>sy_now := now\<rparr>)"

definition conn_listed :: "nat \<Rightarrow> string \<Rightarrow> string list \<Rightarrow> sys \<Rightarrow> sys" where
  "conn_listed i rest keys s = act i (Replying rest (keys_reply keys) True) s"

definition conn_save :: "nat \<Rightarrow> string \<Rightarrow> sys \<Rightarrow> sys" where
  "conn_save i rest s = act i (Collecting rest [] 0) (s\<lparr>sy_saver := Some (By_worker i)\<rparr>)"

definition conn_collect :: "nat \<Rightarrow> time_point \<Rightarrow> string \<Rightarrow> entry list \<Rightarrow> nat \<Rightarrow> sys \<Rightarrow> sys" where
  "conn_collect i now rest entries j s =
     act i (Collecting rest (entries @ shard_entries now j (sy_database s)) (Suc j)) (s\<lparr>sy_now := now\<rparr>)"

text \<open>The text a save writes for the entries it has collected.\<close>

definition collected_text :: "request_env \<Rightarrow> entry list \<Rightarrow> string" where
  "collected_text env entries = encode (en_tick env) (sc_now (en_clock env)) (sc_entries (en_clock env)) entries"

text \<open>The file work of a save, after which the mutex of the store is released.\<close>

definition save_collected :: "request_env \<Rightarrow> entry list \<Rightarrow> sys \<Rightarrow> (SaveOutcome \<times> disk_event list \<times> sys) option" where
  "save_collected env entries s =
     (case sy_store s of
        None \<Rightarrow> None
      | Some st \<Rightarrow>
          (case write_snapshot (en_strerror env) (en_io env) (length entries) (collected_text env entries) st of
             None \<Rightarrow> None
           | Some (outcome, st', evs) \<Rightarrow> Some (outcome, evs, s\<lparr>sy_store := Some st', sy_saver := None\<rparr>)))"

definition conn_saved :: "nat \<Rightarrow> string \<Rightarrow> SaveOutcome \<Rightarrow> sys \<Rightarrow> sys" where
  "conn_saved i rest outcome s =
     act i (Replying rest
       (if \<not> so_ok outcome then proto_error (''ERR '' @ so_error outcome) else proto_status ''OK'') True) s"

text \<open>\<open>ok\<close>: everything could be sent.\<close>

definition conn_replied :: "nat \<Rightarrow> string \<Rightarrow> bool \<Rightarrow> sys \<Rightarrow> sys" where
  "conn_replied i rest ok s = act i (if ok then Cutting rest else Finished) s"

section \<open>Background threads\<close>

definition sweep_begin :: "sweeper \<Rightarrow> sys \<Rightarrow> sys" where
  "sweep_begin sw s =
     s\<lparr>sy_sweep := Some (if swc_bucketsPerPass (sw_config sw) = 0 then length (db_shards (sy_database s)) else 0, 0)\<rparr>"

definition sweep_next :: "sweeper \<Rightarrow> time_point \<Rightarrow> nat \<Rightarrow> nat \<Rightarrow> sys \<Rightarrow> sys" where
  "sweep_next sw now j removed s =
     (case sweep_at now (swc_bucketsPerPass (sw_config sw)) j (sy_database s) of
        (r, db) \<Rightarrow> s\<lparr>sy_database := db, sy_sweep := Some (Suc j, removed + r), sy_now := now\<rparr>)"

definition sweep_end :: "sweeper \<Rightarrow> nat \<Rightarrow> sys \<Rightarrow> sys" where
  "sweep_end sw removed s =
     s\<lparr>sy_sweeper := Some (sw\<lparr>sw_totalReclaimed := sw_totalReclaimed sw + removed, sw_passes := Suc (sw_passes sw)\<rparr>),
       sy_sweep := None\<rparr>"

definition sched_begin :: "sys \<Rightarrow> sys" where
  "sched_begin s = s\<lparr>sy_collect := Some ([], 0), sy_saver := Some By_scheduler\<rparr>"

definition sched_next :: "time_point \<Rightarrow> entry list \<Rightarrow> nat \<Rightarrow> sys \<Rightarrow> sys" where
  "sched_next now entries j s =
     s\<lparr>sy_collect := Some (entries @ shard_entries now j (sy_database s), Suc j), sy_now := now\<rparr>"

definition sched_end :: "scheduler \<Rightarrow> SaveOutcome \<Rightarrow> sys \<Rightarrow> sys" where
  "sched_end sd outcome s =
     (let sd' = sd\<lparr>sd_attempts := Suc (sd_attempts sd)\<rparr> in
      s\<lparr>sy_scheduler := Some (if \<not> so_ok outcome
           then sd'\<lparr>sd_failures := Suc (sd_failures sd'), sd_lastError := so_error outcome\<rparr> else sd'),
        sy_collect := None\<rparr>)"

section \<open>The network\<close>

text \<open>
  A worker enters \<open>handleConnection\<close> after the check of \<open>running_\<close> and leaves it by returning from it or by an
  exception, which releases the mutex of the store. \<open>run\<close> waits for the background threads, which finish what they have begun.
\<close>

definition net_allowed :: "sys \<Rightarrow> net_event \<Rightarrow> bool" where
  "net_allowed s ev \<longleftrightarrow>
     (case ev of
        Ev_serve i fd \<Rightarrow> nt_phase (sy_net s) i = Serving \<longrightarrow> sy_activity s i = Finished
      | Ev_run \<Rightarrow> nt_pc (sy_net s) = Stopping_threads \<longrightarrow> sy_sweep s = None \<and> sy_collect s = None
      | _ \<Rightarrow> True)"

definition net_effect :: "net_event \<Rightarrow> net \<Rightarrow> sys \<Rightarrow> sys" where
  "net_effect ev n s =
     (let stopped = (ev = Ev_run \<and> nt_pc (sy_net s) = Stopping_threads) in
      s\<lparr>sy_net := n,
        sy_activity := (case ev of
             Ev_serve i fd \<Rightarrow> if nt_phase (sy_net s) i = Registered then (sy_activity s)(i := Testing '''') else sy_activity s
           | _ \<Rightarrow> sy_activity s),
        sy_saver := (case ev of Ev_throw i fd \<Rightarrow> if sy_saver s = Some (By_worker i) then None else sy_saver s
                     | _ \<Rightarrow> sy_saver s),
        sy_sweeper := (if stopped then map_option sweeper_stop (sy_sweeper s) else sy_sweeper s),
        sy_scheduler := (if stopped then map_option scheduler_stop (sy_scheduler s) else sy_scheduler s)\<rparr>)"

section \<open>Steps\<close>

datatype sys_event =
    Net net_event
  | Moved nat
  | Received nat int recv_result
  | Requested nat request_env string "string option"
  | Visited nat time_point
  | Listed nat "string list"
  | Saved saver request_env SaveOutcome "entry list" "disk_event list"
  | Sent nat int string
  | Background time_point

definition doing :: "sys \<Rightarrow> nat \<Rightarrow> int \<Rightarrow> activity \<Rightarrow> bool" where
  "doing s i fd a \<longleftrightarrow> holds (sy_net s) i fd Serving \<and> sy_activity s i = a"

definition shards_of :: "sys \<Rightarrow> nat" where
  "shards_of s = length (db_shards (sy_database s))"

text \<open>
  Readings of the steady clock never go back, and \<open>write\<close> and \<open>send\<close> answer as POSIX says. The background threads work while their thread object runs.
\<close>

inductive sys_step :: "sys \<Rightarrow> sys_event \<Rightarrow> sys \<Rightarrow> bool" where
  network: "net_step (sy_net s) ev n \<Longrightarrow> net_allowed s ev \<Longrightarrow> sys_step s (Net ev) (net_effect ev n s)"
| test: "doing s i fd (Testing pending) \<Longrightarrow> sys_step s (Moved i) (conn_test i pending s)"
| receive: "doing s i fd (Receiving pending) \<Longrightarrow> sys_step s (Received i fd res) (conn_recv i pending res s)"
| rest: "doing s i fd (Cutting pending) \<Longrightarrow> cut_line pending = None \<Longrightarrow> sys_step s (Moved i) (conn_rest i pending s)"
| request: "doing s i fd (Cutting pending) \<Longrightarrow> cut_line pending = Some (line, rest) \<Longrightarrow>
    \<not> visits_shards line (sy_store s) \<Longrightarrow> sy_now s \<le> en_now env \<Longrightarrow>
    conn_request i env line rest s = Some (reply, s') \<Longrightarrow> sys_step s (Requested i env line reply) s'"
| list_begin: "doing s i fd (Cutting pending) \<Longrightarrow> cut_line pending = Some (line, rest) \<Longrightarrow>
    parse line = Inr c \<Longrightarrow> cmd_type c = Cmd_Keys \<Longrightarrow> sys_step s (Moved i) (act i (Listing rest [] 0) s)"
| list_shard: "doing s i fd (Listing rest keys j) \<Longrightarrow> j < shards_of s \<Longrightarrow> sy_now s \<le> now \<Longrightarrow>
    sys_step s (Visited i now) (conn_list i now rest keys j s)"
| list_end: "doing s i fd (Listing rest keys j) \<Longrightarrow> j = shards_of s \<Longrightarrow>
    sys_step s (Listed i keys) (conn_listed i rest keys s)"
| save_begin: "doing s i fd (Cutting pending) \<Longrightarrow> cut_line pending = Some (line, rest) \<Longrightarrow>
    parse line = Inr c \<Longrightarrow> cmd_type c = Cmd_Save \<Longrightarrow> sy_store s \<noteq> None \<Longrightarrow> sy_saver s = None \<Longrightarrow>
    sys_step s (Moved i) (conn_save i rest s)"
| save_shard: "doing s i fd (Collecting rest entries j) \<Longrightarrow> j < shards_of s \<Longrightarrow> sy_now s \<le> now \<Longrightarrow>
    sys_step s (Visited i now) (conn_collect i now rest entries j s)"
| save_end: "doing s i fd (Collecting rest entries j) \<Longrightarrow> j = shards_of s \<Longrightarrow>
    posix_write (si_write (en_io env)) \<Longrightarrow> save_collected env entries s = Some (outcome, evs, s') \<Longrightarrow>
    sys_step s (Saved (By_worker i) env outcome entries evs) (conn_saved i rest outcome s')"
| reply: "doing s i fd (Replying rest r go) \<Longrightarrow> posix_write k \<Longrightarrow> sendLine k 0 r = Some (ok, bytes, sends) \<Longrightarrow>
    sys_step s (Sent i fd bytes) (conn_replied i rest (ok \<and> go) s)"
| sweep_begin: "sy_sweeper s = Some sw \<Longrightarrow> sw_thread sw \<Longrightarrow> sy_sweep s = None \<Longrightarrow>
    sys_step s (Background (sy_now s)) (sweep_begin sw s)"
| sweep_shard: "sy_sweeper s = Some sw \<Longrightarrow> sy_sweep s = Some (j, removed) \<Longrightarrow> j < shards_of s \<Longrightarrow> sy_now s \<le> now \<Longrightarrow>
    sys_step s (Background now) (sweep_next sw now j removed s)"
| sweep_end: "sy_sweeper s = Some sw \<Longrightarrow> sy_sweep s = Some (j, removed) \<Longrightarrow> j = shards_of s \<Longrightarrow>
    sys_step s (Background (sy_now s)) (sweep_end sw removed s)"
| sched_begin: "sy_scheduler s = Some sd \<Longrightarrow> sd_thread sd \<Longrightarrow> sy_store s \<noteq> None \<Longrightarrow> sy_collect s = None \<Longrightarrow>
    sy_saver s = None \<Longrightarrow> sys_step s (Background (sy_now s)) (sched_begin s)"
| sched_shard: "sy_collect s = Some (entries, j) \<Longrightarrow> j < shards_of s \<Longrightarrow> sy_now s \<le> now \<Longrightarrow>
    sys_step s (Background now) (sched_next now entries j s)"
| sched_end: "sy_scheduler s = Some sd \<Longrightarrow> sy_collect s = Some (entries, j) \<Longrightarrow> j = shards_of s \<Longrightarrow>
    posix_write (si_write (en_io env)) \<Longrightarrow> save_collected env entries s = Some (outcome, evs, s') \<Longrightarrow>
    sys_step s (Saved By_scheduler env outcome entries evs) (sched_end sd outcome s')"

inductive sys_run :: "sys \<Rightarrow> sys_event list \<Rightarrow> sys \<Rightarrow> bool" for s0 where
  none: "sys_run s0 [] s0"
| more: "sys_run s0 evs s \<Longrightarrow> sys_step s ev s' \<Longrightarrow> sys_run s0 (evs @ [ev]) s'"

inductive_cases sys_stepE: "sys_step s ev s'"

interpretation sys_runs: traced_runs sys_step sys_run
proof
  fix s0 s and es and P
  assume "sys_run s0 es s" "P [] s0" "\<And>es s e s'. P es s \<Longrightarrow> sys_step s e s' \<Longrightarrow> P (es @ [e]) s'"
  then show "P es s" by (induction rule: sys_run.induct) blast+
qed (fact sys_run.none sys_run.more)+

end
