(* ===== verification/VC_Server_Threads.thy ===== *)
theory VC_Server_Threads
  imports VC_Server_Props
begin

text \<open>
  The running server under every interleaving of the accept loop, the workers and requests to stop:
  who owns a client descriptor, and how shutting down ends.
\<close>

section \<open>Histories and owners\<close>

fun accepts_fd :: "net_event \<Rightarrow> int list" where
  "accepts_fd (Ev_accept (Accept_fd fd)) = [fd]"
| "accepts_fd _ = []"

fun closes_fd :: "net_event \<Rightarrow> int list" where
  "closes_fd (Ev_close i fd) = [fd]"
| "closes_fd (Ev_refuse fd bytes) = [fd]"
| "closes_fd _ = []"

fun loses_fd :: "net_event \<Rightarrow> int list" where
  "loses_fd (Ev_throw i fd) = [fd]"
| "loses_fd _ = []"

definition accepted_fds :: "net_event list \<Rightarrow> int list" where
  "accepted_fds evs = concat (map accepts_fd evs)"

definition closed_fds :: "net_event list \<Rightarrow> int list" where
  "closed_fds evs = concat (map closes_fd evs)"

text \<open>Descriptors whose handler threw.\<close>

definition lost_fds :: "net_event list \<Rightarrow> int list" where
  "lost_fds evs = concat (map loses_fd evs)"

lemma fds_snoc [simp]:
  "accepted_fds (evs @ [ev]) = accepted_fds evs @ accepts_fd ev" "closed_fds (evs @ [ev]) = closed_fds evs @ closes_fd ev"
  "lost_fds (evs @ [ev]) = lost_fds evs @ loses_fd ev" "accepted_fds [] = []" "closed_fds [] = []" "lost_fds [] = []"
  by (simp_all add: accepted_fds_def closed_fds_def lost_fds_def)

fun pc_fds :: "run_pc \<Rightarrow> int list" where
  "pc_fds (Submitting fd) = [fd]"
| "pc_fds (Refusing fd) = [fd]"
| "pc_fds _ = []"

fun entered :: "int worker \<Rightarrow> phase \<Rightarrow> int list" where
  "entered (Busy fd) Entered = [fd]"
| "entered _ _ = []"

fun registered :: "int worker \<Rightarrow> phase \<Rightarrow> int list" where
  "registered (Busy fd) ph = (if ph = Entered \<or> ph = Done_serving then [] else [fd])"
| "registered _ _ = []"

text \<open>What the workers have, worker by worker.\<close>

definition gather :: "(int worker \<Rightarrow> phase \<Rightarrow> 'a list) \<Rightarrow> net \<Rightarrow> 'a list" where
  "gather f n = concat (map (\<lambda>i. f (tp_workers (nt_pool n) ! i) (nt_phase n i)) [0..<length (tp_workers (nt_pool n))])"

lemma gather_change:
  assumes "i < length (tp_workers (nt_pool n))" "tp_workers (nt_pool n') = (tp_workers (nt_pool n))[i := w]"
    "nt_phase n' = (nt_phase n)(i := ph)"
  shows "mset (gather f n') + mset (f (tp_workers (nt_pool n) ! i) (nt_phase n i)) = mset (gather f n) + mset (f w ph)"
proof -
  let ?ws = "tp_workers (nt_pool n)"
  let ?g = "\<lambda>i. f (?ws ! i) (nt_phase n i)"
  have "map (\<lambda>i. f (tp_workers (nt_pool n') ! i) (nt_phase n' i)) [0..<length ?ws] = (map ?g [0..<length ?ws])[i := f w ph]"
    using assms by (intro nth_equalityI) (auto simp: nth_list_update)
  with mset_concat_update [of i "map ?g [0..<length ?ws]" "f w ph"] assms show ?thesis by (simp add: gather_def)
qed

lemma gather_frame [simp]:
  "gather f (n\<lparr>nt_server := s\<rparr>) = gather f n" "gather f (n\<lparr>nt_pc := pc\<rparr>) = gather f n"
  "gather f (n\<lparr>nt_running := b\<rparr>) = gather f n" "gather f (n\<lparr>nt_woken := b\<rparr>) = gather f n"
  "gather f (n\<lparr>nt_active := xs\<rparr>) = gather f n" "gather f (n\<lparr>nt_open := xs\<rparr>) = gather f n"
  "gather f (n\<lparr>nt_shut := xs\<rparr>) = gather f n"
  "tp_workers p = tp_workers (nt_pool n) \<Longrightarrow> gather f (n\<lparr>nt_pool := p\<rparr>) = gather f n"
  by (simp_all add: gather_def)

lemma gather_phase:
  assumes "f (tp_workers (nt_pool n) ! i) ph = f (tp_workers (nt_pool n) ! i) (nt_phase n i)"
  shows "gather f (n\<lparr>nt_phase := (nt_phase n)(i := ph)\<rparr>) = gather f n"
  using assms by (auto simp: gather_def intro!: arg_cong [where f = concat])

section \<open>Ownership\<close>

definition owners_ok :: "net_event list \<Rightarrow> net \<Rightarrow> bool" where
  "owners_ok evs n \<longleftrightarrow> distinct (nt_open n) \<and> distinct (nt_active n) \<and> set (nt_shut n) \<subseteq> set (nt_open n) \<and>
     mset (nt_open n) = mset (pc_fds (nt_pc n)) + mset (tp_tasks (nt_pool n)) + mset (gather entered n) + mset (nt_active n) \<and>
     mset (nt_active n) = mset (gather registered n) + mset (lost_fds evs) \<and>
     mset (accepted_fds evs) = mset (closed_fds evs) + mset (nt_open n)"

lemma owners_okD:
  assumes "owners_ok evs n"
  shows "distinct (nt_open n)" "distinct (nt_active n)" "set (nt_shut n) \<subseteq> set (nt_open n)"
    "mset (nt_open n) = mset (pc_fds (nt_pc n)) + mset (tp_tasks (nt_pool n)) + mset (gather entered n) + mset (nt_active n)"
    "mset (nt_active n) = mset (gather registered n) + mset (lost_fds evs)"
    "mset (accepted_fds evs) = mset (closed_fds evs) + mset (nt_open n)"
    "set (nt_active n) \<subseteq> set (nt_open n)"
  using assms by (auto simp: owners_ok_def simp flip: set_mset_mset)

text \<open>A step that touches no descriptor.\<close>

lemma owners_ok_frame:
  assumes "owners_ok evs n" "nt_open n' = nt_open n" "nt_active n' = nt_active n" "set (nt_shut n') \<subseteq> set (nt_shut n) \<union> set (nt_active n)"
    "mset (pc_fds (nt_pc n')) + mset (tp_tasks (nt_pool n')) + mset (gather entered n') =
     mset (pc_fds (nt_pc n)) + mset (tp_tasks (nt_pool n)) + mset (gather entered n)"
    "mset (gather registered n') = mset (gather registered n)"
    "accepts_fd ev = []" "closes_fd ev = []" "loses_fd ev = []"
  shows "owners_ok (evs @ [ev]) n'"
proof -
  note o = owners_okD [OF assms(1)]
  have "set (nt_shut n') \<subseteq> set (nt_open n')" using assms(2,4) o(3,7) by auto
  moreover have "mset (nt_open n') =
      mset (pc_fds (nt_pc n')) + mset (tp_tasks (nt_pool n')) + mset (gather entered n') + mset (nt_active n')"
    by (simp only: assms(2,3,5) o(4))
  moreover have "mset (nt_active n') = mset (gather registered n') + mset (lost_fds (evs @ [ev]))"
    by (simp only: assms(3,6,9) o(5) fds_snoc append_Nil2)
  moreover have "mset (accepted_fds (evs @ [ev])) = mset (closed_fds (evs @ [ev])) + mset (nt_open n')"
    by (simp only: assms(2,7,8) o(6) fds_snoc append_Nil2)
  ultimately show ?thesis using o(1,2) unfolding owners_ok_def assms(2,3) by blast
qed

lemmas control_defs = run_begin_def run_test_def run_poll_def run_leave_def shutdownActiveConnections_def
  run_stop_pool_def begin_shutdown_def run_stop_threads_def stop_def

lemmas gather_changes = gather_change [where f = entered] gather_change [where f = registered]

text \<open>A worker that takes a connection or leaves, registers, closes, returns or throws.\<close>

lemma owners_ok_take:
  assumes "owners_ok evs n" "may_move n i"
  shows "owners_ok (evs @ [Ev_take i]) (worker_next i n)"
proof -
  have i: "i < length (tp_workers (nt_pool n))" "tp_workers (nt_pool n) ! i = Waiting"
    using assms(2) by (simp_all add: may_move_def)
  note c = gather_changes [OF i(1), of "worker_next i n" "case tp_tasks (nt_pool n) of [] \<Rightarrow> Gone | t # _ \<Rightarrow> Busy t" Entered]
  have "mset (gather registered (worker_next i n)) = mset (gather registered n)"
    "mset (tp_tasks (nt_pool (worker_next i n))) + mset (gather entered (worker_next i n)) =
     mset (tp_tasks (nt_pool n)) + mset (gather entered n)"
    using assms(2) c i(2) by (auto simp: worker_next_def worker_turn_def may_move_def split: list.splits)
  then show ?thesis
    by (intro owners_ok_frame [OF assms(1)]) (simp_all add: worker_next_def add.assoc)
qed

lemma owners_ok_register:
  assumes "owners_ok evs n" "holds n i fd Entered"
  shows "owners_ok (evs @ [Ev_serve i fd]) (serve_register i fd n)"
proof -
  let ?n = "serve_register i fd n"
  note o = owners_okD [OF assms(1)]
  have i: "i < length (tp_workers (nt_pool n))" "tp_workers (nt_pool n) ! i = Busy fd" "nt_phase n i = Entered"
    "(tp_workers (nt_pool n))[i := Busy fd] = tp_workers (nt_pool n)"
    using assms(2) by (auto simp: holds_def intro: list_update_same_conv [THEN iffD2])
  have e: "mset (gather entered n) = add_mset fd (mset (gather entered ?n))"
    and r: "mset (gather registered ?n) = add_mset fd (mset (gather registered n))"
    using gather_changes [OF i(1), of ?n "Busy fd" Registered] i by (simp_all add: serve_register_def)
  have "count (mset (nt_open n)) fd \<le> 1" using o(1) by (simp add: distinct_count_atmost_1)
  then have "fd \<notin> set (nt_active n)" unfolding o(4) e by (simp add: count_eq_zero_iff)
  then have a: "mset (nt_active ?n) = add_mset fd (mset (nt_active n))" "distinct (nt_active ?n)"
    using o(2) by (simp_all add: serve_register_def)
  have s: "nt_open ?n = nt_open n" "nt_pc ?n = nt_pc n" "nt_pool ?n = nt_pool n" "nt_shut ?n = nt_shut n"
    by (simp_all add: serve_register_def)
  show ?thesis unfolding owners_ok_def fds_snoc a(1) r s
    using o(1,3) a(2) by (simp add: o(4-6) e [unfolded o(4)] e)
qed

lemma owners_ok_close:
  assumes "owners_ok evs n" "holds n i fd Ending"
  shows "owners_ok (evs @ [Ev_close i fd]) (serve_close i fd n)"
proof -
  let ?n = "serve_close i fd n"
  note o = owners_okD [OF assms(1)]
  have i: "i < length (tp_workers (nt_pool n))" "tp_workers (nt_pool n) ! i = Busy fd" "nt_phase n i = Ending"
    "(tp_workers (nt_pool n))[i := Busy fd] = tp_workers (nt_pool n)"
    using assms(2) by (auto simp: holds_def intro: list_update_same_conv [THEN iffD2])
  have e: "mset (gather entered ?n) = mset (gather entered n)"
    and r: "mset (gather registered n) = add_mset fd (mset (gather registered ?n))"
    using gather_changes [OF i(1), of ?n "Busy fd" Done_serving] i by (simp_all add: serve_close_def close_client_def)
  have a: "mset (nt_active n) = add_mset fd (mset (nt_active ?n))"
    using o(2) o(5) [unfolded r] by (simp add: serve_close_def close_client_def distinct_remove1_removeAll [symmetric])
  have "fd \<in> set (nt_open n)" using o(4) a by (metis union_iff insert_iff set_mset_add_mset_insert set_mset_mset)
  then have p: "mset (nt_open n) = add_mset fd (mset (nt_open ?n))" "set (nt_open ?n) = set (nt_open n) - {fd}"
    using o(1) by (simp_all add: serve_close_def close_client_def)
  have s: "nt_pc ?n = nt_pc n" "nt_pool ?n = nt_pool n" "set (nt_shut ?n) = set (nt_shut n) - {fd}"
    "distinct (nt_open ?n)" "distinct (nt_active ?n)"
    using o(1,2) by (simp_all add: serve_close_def close_client_def distinct_removeAll)
  show ?thesis unfolding owners_ok_def fds_snoc s(1-3) p(2) e
    using s(4,5) o(3) o(4-6) [unfolded a p(1) r] by auto
qed

lemma owners_ok_return:
  assumes "owners_ok evs n"
  shows "holds n i fd Done_serving \<Longrightarrow> owners_ok (evs @ [Ev_return i]) (serve_return i False n)"
    and "holds n i fd Serving \<Longrightarrow> owners_ok (evs @ [Ev_throw i fd]) (serve_return i True n)"
proof -
  note o = owners_okD [OF assms]
  have s: "nt_pc (serve_return i b n) = nt_pc n" "tp_tasks (nt_pool (serve_return i b n)) = tp_tasks (nt_pool n)"
    "nt_open (serve_return i b n) = nt_open n" "nt_active (serve_return i b n) = nt_active n"
    "nt_shut (serve_return i b n) = nt_shut n" for b
    by (simp_all add: serve_return_def worker_return_def)
  have w: "tp_workers (nt_pool (serve_return i b n)) = (tp_workers (nt_pool n))[i := Waiting]"
    "nt_phase (serve_return i b n) = (nt_phase n)(i := nt_phase n i)" for b
    by (simp_all add: serve_return_def worker_return_def)
  have c: "mset (gather f (serve_return i b n)) + mset (f (Busy fd) (nt_phase n i)) = mset (gather f n) + mset (f Waiting (nt_phase n i))"
    if "holds n i fd ph" for f :: "int worker \<Rightarrow> phase \<Rightarrow> int list" and b ph
    using gather_change [OF _ w, of f b] that by (simp add: holds_def)
  show "owners_ok (evs @ [Ev_return i]) (serve_return i False n)" if "holds n i fd Done_serving"
    using c [OF that, of entered] c [OF that, of registered] that
    by (intro owners_ok_frame [OF assms]) (auto simp: s holds_def)
  show "owners_ok (evs @ [Ev_throw i fd]) (serve_return i True n)" if h: "holds n i fd Serving"
  proof -
    have "mset (gather entered (serve_return i True n)) = mset (gather entered n)"
      "mset (gather registered n) = add_mset fd (mset (gather registered (serve_return i True n)))"
      using c [OF h, of entered] c [OF h, of registered] h by (simp_all add: holds_def)
    with o show ?thesis unfolding owners_ok_def s fds_snoc by auto
  qed
qed

lemma gather_joined:
  assumes "joined (nt_pool n)" "\<And>ph. f Gone ph = []"
  shows "gather f n = []"
  using assms by (auto simp: gather_def joined_def list_all_length)

lemma owners_ok_refuse:
  assumes "owners_ok evs n" "nt_pc n = Refusing fd"
  shows "owners_ok (evs @ [Ev_refuse fd bytes]) ((close_client fd n)\<lparr>nt_pc := Loop_head\<rparr>)"
proof -
  note o = owners_okD [OF assms(1)]
  let ?n = "(close_client fd n)\<lparr>nt_pc := Loop_head\<rparr>"
  have s: "nt_open ?n = remove1 fd (nt_open n)" "nt_active ?n = nt_active n" "nt_pool ?n = nt_pool n" "pc_fds (nt_pc ?n) = []"
    "nt_shut ?n = removeAll fd (nt_shut n)" "gather entered ?n = gather entered n" "gather registered ?n = gather registered n"
    by (simp_all add: close_client_def)
  have p: "mset (nt_open n) = add_mset fd (mset (tp_tasks (nt_pool n)) + mset (gather entered n) + mset (nt_active n))"
    using o(4) assms(2) by simp
  then have r: "mset (remove1 fd (nt_open n)) = mset (tp_tasks (nt_pool n)) + mset (gather entered n) + mset (nt_active n)"
    by simp
  have "mset (accepted_fds evs) = mset (closed_fds evs @ [fd]) + mset (remove1 fd (nt_open n))"
    unfolding r o(6) p by simp
  then show ?thesis unfolding owners_ok_def s fds_snoc
    using o(1-3,5) r by (simp del: mset_remove1) blast
qed

lemma owners_ok_accept:
  assumes "owners_ok evs n" "nt_pc n = Accepting" "\<forall>fd. res = Accept_fd fd \<longrightarrow> 0 \<le> fd \<and> fd \<notin> set (nt_open n)"
  shows "owners_ok (evs @ [Ev_accept res]) (run_accept res n)"
proof (cases res)
  case (Accept_failed e)
  then show ?thesis using assms(2)
    by (intro owners_ok_frame [OF assms(1)]) (auto simp: run_accept_def)
next
  case (Accept_fd fd)
  with owners_okD [OF assms(1)] assms(2,3) show ?thesis
    unfolding owners_ok_def run_accept_def fds_snoc by auto
qed

lemma owners_ok_step:
  assumes "owners_ok evs n" "net_step n ev n'"
  shows "owners_ok (evs @ [ev]) n'"
  using assms(2)
proof (cases rule: net_step.cases)
  case (submit fd ok)
  then show ?thesis
    by (intro owners_ok_frame [OF assms(1)])
      (auto simp: run_submit_def trySubmit_def gather_def split: if_splits prod.splits)
next
  case (check i fd)
  then show ?thesis
    by (intro owners_ok_frame [OF assms(1)])
      (auto simp: serve_check_def holds_def gather_phase)
next
  case (handled i fd)
  then show ?thesis
    by (intro owners_ok_frame [OF assms(1)]) (auto simp: serve_handled_def holds_def gather_phase)
next
  case join
  then show ?thesis
    by (intro owners_ok_frame [OF assms(1)])
      (auto simp: run_join_def end_shutdown_def gather_joined gather_def [of _ "n\<lparr>nt_pool := _\<rparr>"])
next
  case (refuse fd k bytes)
  then show ?thesis using owners_ok_refuse [OF assms(1)]
    by (auto simp: run_refuse_def split: option.splits)
next
  case (take i)
  then show ?thesis using owners_ok_take [OF assms(1)] by blast
next
  case (register i fd)
  then show ?thesis using owners_ok_register [OF assms(1)] by blast
next
  case (close i fd)
  then show ?thesis using owners_ok_close [OF assms(1)] by blast
next
  case (return i fd)
  then show ?thesis using owners_ok_return(1) [OF assms(1)] by blast
next
  case (throw i fd)
  then show ?thesis using owners_ok_return(2) [OF assms(1)] by blast
next
  case (accept res)
  then show ?thesis using owners_ok_accept [OF assms(1)] by blast
qed (rule owners_ok_frame [OF assms(1)]; auto simp: control_defs split: poll_result.splits)+

lemma registered_active:
  assumes "owners_ok evs n" "holds n i fd ph" "ph \<noteq> Entered" "ph \<noteq> Done_serving"
  shows "fd \<in> set (nt_active n)"
proof -
  have "fd \<in> set (gather registered n)" using assms(2-4) by (auto simp: gather_def holds_def intro!: bexI [of _ i])
  then have "fd \<in># mset (nt_active n)" unfolding owners_okD(5) [OF assms(1)] by simp
  then show ?thesis by simp
qed

lemma gather_unique:
  assumes "distinct (gather f n)" "holds n i fd ph" "holds n j fd ph'" "fd \<in> set (f (Busy fd) ph)" "fd \<in> set (f (Busy fd) ph')"
  shows "i = j"
  using assms unfolding gather_def by (elim concat_distinct_nth [where x = fd]) (auto simp: holds_def)

lemma owners_distinct:
  assumes "owners_ok evs n"
  shows "distinct (gather registered n)" "distinct (gather entered n)" "set (gather entered n) \<inter> set (nt_active n) = {}"
proof -
  note o = owners_okD [OF assms]
  have "distinct (gather registered n @ lost_fds evs)" using o(2,5) by (metis mset_append mset_eq_imp_distinct_iff)
  then show "distinct (gather registered n)" by simp
  have "mset (nt_open n) = mset (pc_fds (nt_pc n) @ tp_tasks (nt_pool n) @ gather entered n @ nt_active n)"
    using o(4) by (simp add: add.assoc)
  with o(1) have "distinct (pc_fds (nt_pc n) @ tp_tasks (nt_pool n) @ gather entered n @ nt_active n)"
    by (metis mset_eq_imp_distinct_iff)
  then show "distinct (gather entered n)" "set (gather entered n) \<inter> set (nt_active n) = {}" by auto
qed

lemma registered_unique:
  assumes "owners_ok evs n" "holds n i fd ph" "ph \<noteq> Entered" "ph \<noteq> Done_serving"
    "holds n j fd ph'" "ph' \<noteq> Entered" "ph' \<noteq> Done_serving"
  shows "i = j"
  using gather_unique [OF owners_distinct(1) [OF assms(1)] assms(2,5)] assms by simp

lemma entered_holds: "holds n i fd Entered \<Longrightarrow> fd \<in> set (gather entered n)"
  by (auto simp: gather_def holds_def intro!: bexI [of _ i])

text \<open>A descriptor in use is open and in use by one worker.\<close>

lemma held_unique:
  assumes "owners_ok evs n" "holds n i fd ph" "ph \<noteq> Done_serving" "holds n j fd ph'" "ph' \<noteq> Done_serving"
  shows "i = j"
proof (cases "ph = Entered \<or> ph' = Entered")
  case False
  with assms show ?thesis by (blast intro: registered_unique)
next
  case True
  then have "ph = Entered \<and> ph' = Entered"
    using owners_distinct(3) [OF assms(1)] registered_active [OF assms(1,2) _ assms(3)]
      registered_active [OF assms(1,4) _ assms(5)] entered_holds assms(2,4) by blast
  then show ?thesis using gather_unique [OF owners_distinct(2) [OF assms(1)] assms(2,4)] by simp
qed

lemma held_open:
  assumes "owners_ok evs n" "holds n i fd ph" "ph \<noteq> Done_serving"
  shows "fd \<in> set (nt_open n)"
proof (cases "ph = Entered")
  case True
  then have "fd \<in># mset (nt_open n)"
    using entered_holds assms(2) unfolding owners_okD(4) [OF assms(1)] by auto
  then show ?thesis by simp
next
  case False
  with registered_active [OF assms(1,2) _ assms(3)] owners_okD(7) [OF assms(1)] show ?thesis by blast
qed

section \<open>Stages\<close>

fun interrupted :: "run_pc \<Rightarrow> bool" where
  "interrupted Stopping_pool = True"
| "interrupted Joining = True"
| "interrupted Stopping_threads = True"
| "interrupted Returned = True"
| "interrupted _ = False"

definition stage_ok :: "net \<Rightarrow> bool" where
  "stage_ok n \<longleftrightarrow> (nt_pc n = Interrupting \<or> interrupted (nt_pc n) \<longrightarrow> \<not> nt_running n) \<and>
     (interrupted (nt_pc n) \<longrightarrow> (\<forall>i fd. holds n i fd Serving \<longrightarrow> fd \<in> set (nt_shut n))) \<and>
     (tp_stopping (nt_pool n) \<longleftrightarrow> interrupted (nt_pc n) \<and> nt_pc n \<noteq> Stopping_pool) \<and>
     (nt_pc n = Stopping_threads \<or> nt_pc n = Returned \<longrightarrow> tp_workers (nt_pool n) = [])"

lemma stage_ok_step:
  assumes "owners_ok evs n" "stage_ok n" "net_step n ev n'"
  shows "stage_ok n'"
  using assms(3)
proof (cases rule: net_step.cases)
  case interrupt
  with assms(2) registered_active [OF assms(1), of _ _ Serving] show ?thesis
    by (auto simp: stage_ok_def shutdownActiveConnections_def holds_def)
next
  case (close i fd)
  have "fd' \<noteq> fd" if "holds n j fd' Serving" for j fd'
    using registered_unique [OF assms(1) close(3), of j Serving] that close(3) by (auto simp: holds_def)
  with close assms(2) show ?thesis
    by (auto simp: stage_ok_def serve_close_def close_client_def holds_def split: if_splits)
next
  case (refuse fd k bytes)
  with assms(2) show ?thesis
    by (auto simp: stage_ok_def run_refuse_def close_client_def split: option.splits)
next
  case (submit fd ok)
  with assms(2) show ?thesis
    by (auto simp: stage_ok_def run_submit_def trySubmit_def split: if_splits prod.splits)
next
  case (accept res)
  with assms(2) show ?thesis by (auto simp: stage_ok_def run_accept_def split: accept_result.splits)
next
  case (poll res)
  with assms(2) show ?thesis by (auto simp: stage_ok_def run_poll_def split: poll_result.splits)
next
  case (take i)
  with assms(2) show ?thesis
    by (auto simp: stage_ok_def worker_next_def worker_turn_def may_move_def holds_def nth_list_update split: list.splits if_splits)
next
  case (return i fd)
  with assms(2) show ?thesis
    by (auto simp: stage_ok_def serve_return_def worker_return_def holds_def nth_list_update split: if_splits)
next
  case (throw i fd)
  with assms(2) show ?thesis
    by (auto simp: stage_ok_def serve_return_def worker_return_def holds_def nth_list_update split: if_splits)
next
  case join
  with assms(2) show ?thesis by (auto simp: stage_ok_def run_join_def end_shutdown_def holds_def)
next
  case (register i fd)
  with assms(2) show ?thesis by (auto simp: stage_ok_def serve_register_def holds_def split: if_splits)
next
  case (check i fd)
  with assms(2) show ?thesis by (auto simp: stage_ok_def serve_check_def holds_def split: if_splits)
next
  case (handled i fd)
  with assms(2) show ?thesis by (auto simp: stage_ok_def serve_handled_def holds_def split: if_splits)
qed (use assms(2) in \<open>auto simp: stage_ok_def control_defs holds_def\<close>)

section \<open>The pool inside the server\<close>

text \<open>Every step of the server is a step of the pool or leaves it alone.\<close>

lemma net_step_pool:
  assumes "stage_ok n" "net_step n ev n'"
  shows "nt_pool n' = nt_pool n \<or> (\<exists>pev. pool_step (nt_pool n) pev (nt_pool n'))"
  using assms(2)
proof (cases rule: net_step.cases)
  case (submit fd ok)
  then show ?thesis using pool_step.submit [of fd "nt_pool n"] by (auto simp: run_submit_def split: prod.splits)
next
  case stop_pool
  then show ?thesis using pool_step.shutdown [of "nt_pool n"] by (auto simp: run_stop_pool_def)
next
  case join
  with assms(1) show ?thesis using pool_step.join [of "nt_pool n"] by (auto simp: stage_ok_def run_join_def)
next
  case (take i)
  then show ?thesis
    using pool_step.take [of i "nt_pool n"] pool_step.leave [of i "nt_pool n"]
    by (cases "tp_tasks (nt_pool n)") (auto simp: may_move_def worker_next_def)
next
  case (return i fd)
  then show ?thesis using pool_step.finish [of i "nt_pool n" fd False] by (auto simp: holds_def serve_return_def)
next
  case (throw i fd)
  then show ?thesis using pool_step.finish [of i "nt_pool n" fd True] by (auto simp: holds_def serve_return_def)
next
  case (accept res)
  then show ?thesis by (auto simp: run_accept_def split: accept_result.splits)
next
  case (refuse fd k bytes)
  then show ?thesis by (auto simp: run_refuse_def close_client_def split: option.splits)
qed (simp_all add: run_begin_def run_test_def run_poll_def run_leave_def shutdownActiveConnections_def run_stop_threads_def
    stop_def serve_register_def serve_check_def serve_handled_def serve_close_def close_client_def)

lemma net_run_ok:
  assumes "net_run (network s (ThreadPool k m)) evs n"
  shows "owners_ok evs n \<and> stage_ok n \<and> (\<exists>pevs. pool_run (ThreadPool k m) pevs (nt_pool n))"
proof (rule net_runs.invariant [OF assms])
  have "gather f (network s (ThreadPool k m)) = []" if "\<And>ph. f Waiting ph = []" for f :: "int worker \<Rightarrow> phase \<Rightarrow> int list"
    using that by (auto simp: gather_def network_def ThreadPool_def Let_def)
  then show "owners_ok [] (network s (ThreadPool k m)) \<and> stage_ok (network s (ThreadPool k m)) \<and>
      (\<exists>pevs. pool_run (ThreadPool k m) pevs (nt_pool (network s (ThreadPool k m))))"
    using pool_run.start [of "ThreadPool k m"]
    by (auto simp: owners_ok_def stage_ok_def network_def ThreadPool_def Let_def holds_def)
next
  fix evs n ev n'
  assume "owners_ok evs n \<and> stage_ok n \<and> (\<exists>pevs. pool_run (ThreadPool k m) pevs (nt_pool n))" "net_step n ev n'"
  then show "owners_ok (evs @ [ev]) n' \<and> stage_ok n' \<and> (\<exists>pevs. pool_run (ThreadPool k m) pevs (nt_pool n'))"
    using owners_ok_step stage_ok_step net_step_pool [of n ev n'] pool_run.more by metis
qed

section \<open>Ending\<close>

fun by_server_worker :: "net_event \<Rightarrow> bool" where
  "by_server_worker (Ev_take i) = True"
| "by_server_worker (Ev_serve i fd) = True"
| "by_server_worker (Ev_close i fd) = True"
| "by_server_worker (Ev_return i) = True"
| "by_server_worker (Ev_throw i fd) = True"
| "by_server_worker _ = False"

text \<open>How many steps a worker can still take before it has left, and all of them with the queue.\<close>

fun steps_ahead :: "int worker \<Rightarrow> phase \<Rightarrow> nat" where
  "steps_ahead Gone ph = 0"
| "steps_ahead Waiting ph = 1"
| "steps_ahead (Busy fd) Entered = 6"
| "steps_ahead (Busy fd) Registered = 5"
| "steps_ahead (Busy fd) Serving = 4"
| "steps_ahead (Busy fd) Ending = 3"
| "steps_ahead (Busy fd) Done_serving = 2"

definition serving_left :: "net \<Rightarrow> nat" where
  "serving_left n = 6 * length (tp_tasks (nt_pool n)) +
     sum_list (map (\<lambda>i. steps_ahead (tp_workers (nt_pool n) ! i) (nt_phase n i)) [0..<length (tp_workers (nt_pool n))])"

lemma sum_list_change:
  fixes g g' :: "nat \<Rightarrow> nat"
  assumes "i < m" "\<forall>j<m. j \<noteq> i \<longrightarrow> g' j = g j"
  shows "sum_list (map g' [0..<m]) + g i = sum_list (map g [0..<m]) + g' i"
proof -
  have "sum_list (map h [0..<m]) = h i + sum h ({0..<m} - {i})" for h :: "nat \<Rightarrow> nat"
    using assms(1) sum.remove [of "{0..<m}" i h] by (simp add: interv_sum_list_conv_sum_set_nat)
  moreover have "sum g' ({0..<m} - {i}) = sum g ({0..<m} - {i})" using assms(2) by (intro sum.cong) auto
  ultimately show ?thesis by simp
qed

lemma serving_left_change:
  assumes "i < length (tp_workers (nt_pool n))" "tp_workers (nt_pool n') = (tp_workers (nt_pool n))[i := w]"
    "nt_phase n' = (nt_phase n)(i := ph)"
    "6 * length (tp_tasks (nt_pool n')) + steps_ahead w ph <
     6 * length (tp_tasks (nt_pool n)) + steps_ahead (tp_workers (nt_pool n) ! i) (nt_phase n i)"
  shows "serving_left n' < serving_left n"
proof -
  let ?g = "\<lambda>n i. steps_ahead (tp_workers (nt_pool n) ! i) (nt_phase n i)" and ?m = "length (tp_workers (nt_pool n))"
  have "sum_list (map (?g n') [0..<?m]) + ?g n i = sum_list (map (?g n) [0..<?m]) + steps_ahead w ph"
    using sum_list_change [of i ?m "?g n'" "?g n"] assms(1-3) by simp
  with assms show ?thesis by (simp add: serving_left_def)
qed

lemma serving_left_phase:
  assumes "holds n i fd ph0" "nt_pool n' = nt_pool n" "nt_phase n' = (nt_phase n)(i := ph)"
    "steps_ahead (Busy fd) ph < steps_ahead (Busy fd) ph0"
  shows "serving_left n' < serving_left n"
proof (rule serving_left_change)
  show "tp_workers (nt_pool n') = (tp_workers (nt_pool n))[i := Busy fd]"
    using assms(1,2) list_update_id [of "tp_workers (nt_pool n)" i] by (simp add: holds_def)
qed (use assms in \<open>simp_all add: holds_def\<close>)

lemma serving_left_step:
  assumes "net_step n ev n'" "tp_stopping (nt_pool n)"
  shows "tp_stopping (nt_pool n') \<and> serving_left n' + (if by_server_worker ev then 1 else 0) \<le> serving_left n"
  using assms(1)
proof (cases rule: net_step.cases)
  case (take i)
  then have "serving_left n' < serving_left n"
    by (intro serving_left_change [of i n n' "case tp_tasks (nt_pool n) of [] \<Rightarrow> Gone | t # _ \<Rightarrow> Busy t" Entered])
      (auto simp: may_move_def worker_next_def worker_turn_def split: list.splits)
  with take assms(2) show ?thesis by (auto simp: worker_next_def worker_turn_def split: list.splits)
next
  case (register i fd)
  then have "serving_left n' < serving_left n"
    by (intro serving_left_phase [of n i fd]) (auto simp: serve_register_def)
  with register assms(2) show ?thesis by (simp add: serve_register_def)
next
  case (check i fd)
  then have "serving_left n' < serving_left n"
    by (intro serving_left_phase [of n i fd]) (auto simp: serve_check_def)
  with check assms(2) show ?thesis by (simp add: serve_check_def)
next
  case (handled i fd)
  then have "serving_left n' < serving_left n"
    by (intro serving_left_phase [of n i fd]) (auto simp: serve_handled_def)
  with handled assms(2) show ?thesis by (simp add: serve_handled_def)
next
  case (close i fd)
  then have "serving_left n' < serving_left n"
    by (intro serving_left_phase [of n i fd]) (auto simp: serve_close_def close_client_def)
  with close assms(2) show ?thesis by (simp add: serve_close_def close_client_def)
next
  case (return i fd)
  then have "serving_left n' < serving_left n"
    by (intro serving_left_change [of i n n' Waiting "nt_phase n i"]) (auto simp: holds_def serve_return_def worker_return_def)
  with return assms(2) show ?thesis by (simp add: serve_return_def worker_return_def)
next
  case (throw i fd)
  then have "serving_left n' < serving_left n"
    by (intro serving_left_change [of i n n' Waiting "nt_phase n i"]) (auto simp: holds_def serve_return_def worker_return_def)
  with throw assms(2) show ?thesis by (simp add: serve_return_def worker_return_def)
qed (use assms(2) in \<open>auto simp: serving_left_def control_defs run_accept_def run_submit_def run_refuse_def trySubmit_def
    close_client_def run_join_def end_shutdown_def split: option.splits accept_result.splits if_splits\<close>)

lemma net_run_ends:
  assumes "net_run n evs n'" "tp_stopping (nt_pool n)"
  shows "tp_stopping (nt_pool n') \<and> serving_left n' + length (filter by_server_worker evs) \<le> serving_left n"
  by (rule net_runs.bounded [where guard = "\<lambda>n. tp_stopping (nt_pool n)", OF assms]) (use serving_left_step in blast)

lemma stuck_server_joined:
  assumes "tp_stopping (nt_pool n)" "\<nexists>ev n'. by_server_worker ev \<and> net_step n ev n'"
  shows "joined (nt_pool n)"
proof -
  have "tp_workers (nt_pool n) ! i = Gone" if i: "i < length (tp_workers (nt_pool n))" for i
  proof (cases "tp_workers (nt_pool n) ! i")
    case Waiting
    with i assms(1) have "may_move n i" by (simp add: may_move_def)
    with net_step.take assms(2) show ?thesis by (metis by_server_worker.simps(1))
  next
    case (Busy fd)
    with i have "holds n i fd (nt_phase n i)" by (simp add: holds_def)
    then have "\<exists>ev n'. by_server_worker ev \<and> net_step n ev n'"
      by (cases "nt_phase n i")
        (metis net_step.register net_step.check net_step.handled net_step.close net_step.return by_server_worker.simps(2-4))+
    with assms(2) show ?thesis by blast
  qed
  then show ?thesis by (simp add: joined_def list_all_length)
qed

section \<open>A run for the examples\<close>

text \<open>One worker, which throws while it serves a client; then a request to stop.\<close>

record net_example =
  xe_pc :: run_pc
  xe_running :: bool
  xe_woken :: bool
  xe_tasks :: "int list"
  xe_worker :: "int worker"
  xe_phase :: phase
  xe_active :: "int list"
  xe_open :: "int list"
  xe_shut :: "int list"
  xe_stopping :: bool
  xe_exceptions :: nat

definition example_server :: server where
  "example_server = (Server default_ServerConfig)\<lparr>sr_pool := Some (ThreadPool 1 1), sr_store := Some (SnapshotStore ''f''),
     sr_listenFd := 3, sr_shutdownPipe := (4, 6)\<rparr>"

definition example_net :: "net_example \<Rightarrow> net" where
  "example_net x = \<lparr>nt_server = example_server,
     nt_pool = \<lparr>tp_tasks = xe_tasks x, tp_workers = [xe_worker x], tp_threadCount = 1, tp_maxQueuedTasks = 1,
       tp_stopping = xe_stopping x, tp_taskExceptions = xe_exceptions x\<rparr>,
     nt_pc = xe_pc x, nt_running = xe_running x, nt_woken = xe_woken x, nt_phase = (\<lambda>_. Entered)(0 := xe_phase x),
     nt_active = xe_active x, nt_open = xe_open x, nt_shut = xe_shut x\<rparr>"

definition example_start :: net_example where
  "example_start = \<lparr>xe_pc = Not_running, xe_running = False, xe_woken = False, xe_tasks = [], xe_worker = Waiting,
     xe_phase = Entered, xe_active = [], xe_open = [], xe_shut = [], xe_stopping = False, xe_exceptions = 0\<rparr>"

lemmas example_simps = example_net_def example_start_def control_defs run_accept_def run_submit_def trySubmit_def
  kUnboundedQueue_def worker_next_def worker_turn_def serve_register_def serve_check_def serve_return_def worker_return_def
  run_join_def end_shutdown_def

lemma example_taken:
  "net_run (network example_server (ThreadPool 1 1))
     [Ev_run, Ev_run, Ev_poll (Poll_ready True False), Ev_accept (Accept_fd 5), Ev_submit 5 True, Ev_take 0]
     (example_net (example_start\<lparr>xe_pc := Loop_head, xe_running := True, xe_worker := Busy 5, xe_open := [5]\<rparr>))"
  (is "net_run ?n0 _ ?n6")
proof -
  let ?n1 = "example_net (example_start\<lparr>xe_pc := Loop_head, xe_running := True\<rparr>)"
  let ?n4 = "example_net (example_start\<lparr>xe_pc := Submitting 5, xe_running := True, xe_open := [5]\<rparr>)"
  let ?n5 = "example_net (example_start\<lparr>xe_pc := Loop_head, xe_running := True, xe_open := [5], xe_tasks := [5]\<rparr>)"
  have "net_run ?n0 [] (example_net example_start)"
    using net_run.none [of ?n0] by (simp add: network_def example_simps ThreadPool_def fun_upd_idem)
  moreover have "net_step (example_net example_start) Ev_run ?n1"
    using net_step.begin_run [of "example_net example_start"] by (simp add: example_simps)
  moreover have "net_step ?n1 Ev_run (?n1\<lparr>nt_pc := Polling\<rparr>)"
    using net_step.test [of ?n1] by (simp add: example_simps)
  moreover have "net_step (?n1\<lparr>nt_pc := Polling\<rparr>) (Ev_poll (Poll_ready True False)) (?n1\<lparr>nt_pc := Accepting\<rparr>)"
    using net_step.poll [of "?n1\<lparr>nt_pc := Polling\<rparr>" "Poll_ready True False"] by (simp add: example_simps)
  moreover have "net_step (?n1\<lparr>nt_pc := Accepting\<rparr>) (Ev_accept (Accept_fd 5)) ?n4"
    using net_step.accept [of "?n1\<lparr>nt_pc := Accepting\<rparr>" "Accept_fd 5"] by (simp add: example_simps)
  moreover have "net_step ?n4 (Ev_submit 5 True) ?n5"
    using net_step.submit [of ?n4 5 True ?n5] by (simp add: example_simps)
  moreover have "net_step ?n5 (Ev_take 0) ?n6"
    using net_step.take [of ?n5 0] by (simp add: example_simps may_move_def fun_upd_idem)
  ultimately have "net_run ?n0 (((((([] @ [Ev_run]) @ [Ev_run]) @ [Ev_poll (Poll_ready True False)]) @ [Ev_accept (Accept_fd 5)]) @
      [Ev_submit 5 True]) @ [Ev_take 0]) ?n6"
    by (intro net_run.more)
  then show ?thesis by simp
qed

lemma example_serving:
  "net_run (network example_server (ThreadPool 1 1))
     [Ev_run, Ev_run, Ev_poll (Poll_ready True False), Ev_accept (Accept_fd 5), Ev_submit 5 True, Ev_take 0,
      Ev_serve 0 5, Ev_serve 0 5]
     (example_net (example_start\<lparr>xe_pc := Loop_head, xe_running := True, xe_worker := Busy 5, xe_phase := Serving,
        xe_active := [5], xe_open := [5]\<rparr>))"
  (is "net_run _ _ ?n8")
proof -
  let ?n6 = "example_net (example_start\<lparr>xe_pc := Loop_head, xe_running := True, xe_worker := Busy 5, xe_open := [5]\<rparr>)"
  have "net_step ?n6 (Ev_serve 0 5) (serve_register 0 5 ?n6)"
    by (rule net_step.register) (simp add: example_simps holds_def)
  moreover have "net_step (serve_register 0 5 ?n6) (Ev_serve 0 5) ?n8"
    using net_step.check [of "serve_register 0 5 ?n6" 0 5] by (simp add: example_simps holds_def)
  ultimately show ?thesis using net_run.more [OF net_run.more [OF example_taken]] by simp
qed

definition example_events :: "net_event list" where
  "example_events = [Ev_run, Ev_run, Ev_poll (Poll_ready True False), Ev_accept (Accept_fd 5), Ev_submit 5 True, Ev_take 0,
     Ev_serve 0 5, Ev_serve 0 5, Ev_throw 0 5, Ev_stop True, Ev_run, Ev_run, Ev_interrupt [5], Ev_run, Ev_take 0]"

definition example_joining :: net where
  "example_joining = example_net (example_start\<lparr>xe_pc := Joining, xe_woken := True, xe_worker := Gone, xe_active := [5],
     xe_open := [5], xe_shut := [5], xe_stopping := True, xe_exceptions := 1\<rparr>)"

lemma example_run: "net_run (network example_server (ThreadPool 1 1)) example_events example_joining"
proof -
  let ?n8 = "example_net (example_start\<lparr>xe_pc := Loop_head, xe_running := True, xe_worker := Busy 5, xe_phase := Serving,
        xe_active := [5], xe_open := [5]\<rparr>)"
  let ?n9 = "serve_return 0 True ?n8"
  let ?n11 = "run_test (stop True ?n9)"
  let ?n13 = "shutdownActiveConnections (run_leave ?n11)"
  have "net_step ?n8 (Ev_throw 0 5) ?n9" by (rule net_step.throw) (simp add: example_simps holds_def)
  moreover have "net_step ?n9 (Ev_stop True) (stop True ?n9)" by (rule net_step.stop)
  moreover have "net_step (stop True ?n9) Ev_run ?n11" by (rule net_step.test) (simp add: example_simps)
  moreover have "net_step ?n11 Ev_run (run_leave ?n11)" by (rule net_step.leave) (simp add: example_simps)
  moreover have "net_step (run_leave ?n11) (Ev_interrupt [5]) ?n13"
    using net_step.interrupt [of "run_leave ?n11"] by (simp add: example_simps)
  moreover have "net_step ?n13 Ev_run (run_stop_pool ?n13)" by (rule net_step.stop_pool) (simp add: example_simps)
  moreover have "net_step (run_stop_pool ?n13) (Ev_take 0) example_joining"
    using net_step.take [of "run_stop_pool ?n13" 0]
    by (simp add: example_joining_def example_simps may_move_def example_server_def fun_upd_idem)
  ultimately have "net_run (network example_server (ThreadPool 1 1)) ((((((([Ev_run, Ev_run, Ev_poll (Poll_ready True False),
      Ev_accept (Accept_fd 5), Ev_submit 5 True, Ev_take 0, Ev_serve 0 5, Ev_serve 0 5] @ [Ev_throw 0 5]) @ [Ev_stop True]) @
      [Ev_run]) @ [Ev_run]) @ [Ev_interrupt [5]]) @ [Ev_run]) @ [Ev_take 0]) example_joining"
    using example_serving by (intro net_run.more)
  then show ?thesis by (simp add: example_events_def)
qed

section \<open>Properties\<close>

text \<open>
  C15. Client descriptors are safe under every interleaving: each accepted one is open or was closed,
  exactly once for each time it was accepted; those that a shutdown would interrupt are open, so it
  never reaches a number that was closed or reused; a descriptor a worker is using is open and no
  other worker uses it. When the server returns, the only descriptors still open are those whose
  handler threw.
\<close>

theorem server_descriptors_owned:
  assumes "net_run (network s (ThreadPool k m)) evs n"
  shows "mset (accepted_fds evs) = mset (closed_fds evs) + mset (nt_open n) \<and> distinct (nt_open n) \<and>
    set (nt_active n) \<subseteq> set (nt_open n) \<and>
    (\<forall>i j fd ph ph'. holds n i fd ph \<and> ph \<noteq> Done_serving \<longrightarrow>
       fd \<in> set (nt_open n) \<and> (holds n j fd ph' \<and> ph' \<noteq> Done_serving \<longrightarrow> i = j)) \<and>
    (nt_pc n = Returned \<longrightarrow> mset (nt_open n) = mset (lost_fds evs))"
proof -
  obtain pevs where o: "owners_ok evs n" and st: "stage_ok n" and p: "pool_run (ThreadPool k m) pevs (nt_pool n)"
    using net_run_ok [OF assms] by blast
  have "mset (nt_open n) = mset (lost_fds evs)" if r: "nt_pc n = Returned"
  proof -
    have w: "tp_workers (nt_pool n) = []" using st r by (simp add: stage_ok_def)
    then have "tp_tasks (nt_pool n) = []" using pool_run_left_drained [OF p] by (simp add: left_drained_def)
    with w r owners_okD(4,5) [OF o] show ?thesis by (simp add: gather_def)
  qed
  with owners_okD(1,6,7) [OF o] held_open [OF o] held_unique [OF o] show ?thesis by blast
qed

theorem server_descriptors_owned_witness:
  "mset (accepted_fds example_events) = mset (closed_fds example_events) + {#5#} \<and> nt_open example_joining = [5]"
  using server_descriptors_owned [OF example_run] by (simp add: example_joining_def example_simps)

text \<open>
  A handler that throws leaves its descriptor open and registered for good: this run returns with a
  client's descriptor that nothing will close.
\<close>

theorem server_throw_leaks:
  "\<exists>evs n. net_run (network example_server (ThreadPool 1 1)) evs n \<and> nt_pc n = Returned \<and> nt_open n = [5] \<and> closed_fds evs = []"
proof -
  let ?n = "run_stop_threads (run_join example_joining)"
  have "nt_pc example_joining = Joining" "joined (nt_pool example_joining)"
    by (simp_all add: example_joining_def example_net_def joined_def)
  note run = net_run.more [OF net_run.more [OF example_run net_step.join [OF this]] net_step.stop_threads]
  have "net_run (network example_server (ThreadPool 1 1)) ((example_events @ [Ev_join]) @ [Ev_run]) ?n"
    by (rule run) (simp add: run_join_def)
  moreover have "nt_pc ?n = Returned" "nt_open ?n = [5]" by (simp_all add: example_joining_def example_simps)
  moreover have "closed_fds ((example_events @ [Ev_join]) @ [Ev_run]) = []"
    by (simp add: example_events_def closed_fds_def)
  ultimately show ?thesis by blast
qed



text \<open>
  C38. A request to stop is not lost: whenever it comes, also before \<open>run\<close> has begun or between
  \<open>poll\<close> and \<open>accept\<close>, at most one more connection is accepted after it.
\<close>

theorem server_stop_heard:
  assumes "0 \<le> snd (sr_shutdownPipe (nt_server n))" "net_run (stop True n) evs n'"
  shows "length (accepted_fds evs) \<le> 1"
proof -
  have "nt_woken n' \<and> length (accepted_fds evs) + (if nt_pc n' = Accepting then 1 else 0) \<le> 1"
    using assms(2)
  proof (induction rule: net_run.induct)
    case none
    then show ?case using assms(1) by (simp add: stop_def)
  next
    case (more evs n1 ev n2)
    from more.hyps(2) more.IH show ?case
      by (cases rule: net_step.cases)
        (auto simp: control_defs run_accept_def run_submit_def run_refuse_def close_client_def run_join_def worker_next_def
          serve_register_def serve_check_def serve_handled_def serve_close_def serve_return_def
          split: if_splits poll_result.splits accept_result.splits option.splits prod.splits)
  qed
  then show ?thesis by simp
qed

theorem server_stop_heard_witness:
  "\<exists>n. net_run (stop True (example_net example_start)) [Ev_run, Ev_run, Ev_poll (Poll_ready True True)] n \<and>
     nt_pc n = Leaving \<and> length (accepted_fds [Ev_run, Ev_run, Ev_poll (Poll_ready True True)]) \<le> 1"
proof -
  let ?n = "stop True (example_net example_start)"
  have "net_step ?n Ev_run (run_begin ?n)" by (rule net_step.begin_run) (simp add: example_simps)
  moreover have "net_step (run_begin ?n) Ev_run (run_test (run_begin ?n))" by (rule net_step.test) (simp add: example_simps)
  moreover have "net_step (run_test (run_begin ?n)) (Ev_poll (Poll_ready True True))
      (run_poll (Poll_ready True True) (run_test (run_begin ?n)))"
    by (rule net_step.poll) (simp_all add: example_simps example_server_def)
  ultimately have "net_run ?n ((([] @ [Ev_run]) @ [Ev_run]) @ [Ev_poll (Poll_ready True True)])
      (run_poll (Poll_ready True True) (run_test (run_begin ?n)))"
    using net_run.none [of ?n] by (intro net_run.more)
  then have "net_run ?n [Ev_run, Ev_run, Ev_poll (Poll_ready True True)]
      (run_poll (Poll_ready True True) (run_test (run_begin ?n)))" by simp
  moreover from server_stop_heard [OF _ this]
  have "length (accepted_fds [Ev_run, Ev_run, Ev_poll (Poll_ready True True)]) \<le> 1"
    by (simp add: example_net_def example_server_def)
  moreover have "nt_pc (run_poll (Poll_ready True True) (run_test (run_begin ?n))) = Leaving" by (simp add: run_poll_def)
  ultimately show ?thesis by blast
qed

end
