(* ===== verification/VC_System_Correct.thy ===== *)
theory VC_System_Correct
  imports VC_System VC_Server_Threads VC_Executor_Props
begin

text \<open>
  The running server as a whole, under every interleaving of its threads: requests take effect one after the
  other as on a map, whatever the sweeper removes in between; KEYS and snapshots report every key that nobody
  writes meanwhile as it is; and once \<open>run\<close> has returned nothing touches the database any more.
\<close>

section \<open>What a step does to the database\<close>

lemma act_sel [simp]:
  "sy_net (act i a s) = sy_net s" "sy_database (act i a s) = sy_database s" "sy_store (act i a s) = sy_store s"
  "sy_sweeper (act i a s) = sy_sweeper s" "sy_scheduler (act i a s) = sy_scheduler s"
  "sy_activity (act i a s) = (sy_activity s)(i := a)" "sy_saver (act i a s) = sy_saver s"
  "sy_sweep (act i a s) = sy_sweep s" "sy_collect (act i a s) = sy_collect s" "sy_now (act i a s) = sy_now s"
  by (simp_all add: act_def)

lemma net_effect_sel [simp]:
  "sy_net (net_effect ev n s) = n" "sy_database (net_effect ev n s) = sy_database s"
  "sy_store (net_effect ev n s) = sy_store s" "sy_sweep (net_effect ev n s) = sy_sweep s"
  "sy_collect (net_effect ev n s) = sy_collect s" "sy_now (net_effect ev n s) = sy_now s"
  by (simp_all add: net_effect_def Let_def)

lemmas worker_defs = conn_test_def conn_recv_def conn_rest_def conn_list_def conn_listed_def conn_save_def
  conn_collect_def conn_saved_def conn_replied_def

lemmas thread_defs = sweep_begin_def sweep_next_def sweep_end_def sched_begin_def sched_next_def sched_end_def

lemma save_collected_sel:
  assumes "save_collected env entries s = Some (outcome, evs, s')"
  shows "sy_net s' = sy_net s" "sy_database s' = sy_database s" "sy_activity s' = sy_activity s" "sy_now s' = sy_now s"
    "sy_sweeper s' = sy_sweeper s" "sy_scheduler s' = sy_scheduler s" "sy_sweep s' = sy_sweep s"
    "sy_collect s' = sy_collect s" "sy_saver s' = None"
  using assms by (auto simp: save_collected_def Let_def split: option.splits)

text \<open>Every step keeps the database, runs one request on it, or sweeps one shard.\<close>

lemma sys_step_database:
  assumes "sys_step s ev s'"
  obtains (same) "sy_database s' = sy_database s" "sy_now s \<le> sy_now s'" "\<And>i env line reply. ev \<noteq> Requested i env line reply"
  | (request) i env line reply ex evs where "ev = Requested i env line reply" "\<not> visits_shards line (sy_store s)"
      "execute env line (CommandExecutor (sy_database s) (sy_store s)) = Some (reply, ex, evs)"
      "sy_database s' = ex_database ex" "sy_now s \<le> en_now env" "sy_now s' = en_now env"
  | (sweep) now buckets j where "ev = Background now" "j < length (db_shards (sy_database s))"
      "sy_database s' = snd (sweep_at now buckets j (sy_database s))" "sy_now s \<le> now" "sy_now s' = now"
  using assms
proof cases
  case (request i fd pending line rest env reply)
  from request(6) obtain ex evs where "execute env line (CommandExecutor (sy_database s) (sy_store s)) = Some (reply, ex, evs)"
      "sy_database s' = ex_database ex" "sy_now s' = en_now env"
    by (auto simp: conn_request_def split: option.splits)
  with request that(2) show thesis by blast
next
  case (sweep_shard sw j removed now)
  then have "sy_database s' = snd (sweep_at now (swc_bucketsPerPass (sw_config sw)) j (sy_database s))" "sy_now s' = now"
    by (auto simp: sweep_next_def split: prod.splits)
  with sweep_shard that(3) show thesis by (auto simp: shards_of_def)
qed (rule that(1); auto simp: worker_defs thread_defs Let_def save_collected_sel split: prod.splits)+

section \<open>The database under the steps\<close>

text \<open>What every step keeps of the database apart from its entries.\<close>

definition same_layout :: "database \<Rightarrow> database \<Rightarrow> bool" where
  "same_layout db db' \<longleftrightarrow> db_maxMemoryBytes db' = db_maxMemoryBytes db \<and>
     length (db_shards db') = length (db_shards db) \<and> shardIndexFor db' = shardIndexFor db"

lemma same_layout_set [simp]: "same_layout db (set_shardFor db k s)"
  by (simp add: same_layout_def)

lemma same_layout_refl [simp]: "same_layout db db"
  by (simp add: same_layout_def)

lemma same_layout_ops [simp]:
  "same_layout db (snd (db_set k v db))" "same_layout db (snd (db_set_ttl now k v ttl db))"
  "same_layout db (snd (db_get now k db))" "same_layout db (snd (db_del now k db))"
  by (auto simp: db_set_def db_set_ttl_def db_get_def db_del_def Let_def split: prod.splits option.splits)

lemma sweep_at_correct:
  fixes now :: time_point and buckets :: nat
  assumes "db_inv db" "j < length (db_shards db)"
  defines "db' \<equiv> snd (sweep_at now buckets j db)"
  shows "db_inv db'" "same_layout db db'"
    "db_lookup db' k = db_lookup db k \<or>
     db_lookup db' k = None \<and> (\<exists>e. db_lookup db k = Some e \<and> isExpiredAt now e)"
proof -
  define p where "p = max (buckets div length (db_shards db)) 1"
  let ?s = "snd (sweep_shard now p (db_shards db ! j))"
  have db': "db' = db\<lparr>db_shards := (db_shards db)[j := ?s]\<rparr>"
    by (simp add: db'_def sweep_at_def p_def split: prod.split)
  have inv: "ht_inv (sh_table (db_shards db ! i))" if "i < length (db_shards db)" for i
    using db_shard_ok [OF assms(1) that] by (simp add: shard_ok_def)
  note sw = sweep_shard_correct [OF inv [OF assms(2)], of now p]
  show "db_inv db'"
    unfolding db' by (rule db_inv_subset [OF assms(1)]) (auto simp: nth_list_update assms(2) sw(1,2,4) inv)
  show "same_layout db db'" by (simp add: db' same_layout_def)
  have "shardIndexFor db k < length (db_shards db)" using assms(1) by (rule shardFor_less)
  moreover have "distinct (map e_key (ht_abs (sh_table (db_shards db ! j))))" using inv [OF assms(2)] by (rule ht_abs_distinct)
  ultimately show "db_lookup db' k = db_lookup db k \<or>
     db_lookup db' k = None \<and> (\<exists>e. db_lookup db k = Some e \<and> isExpiredAt now e)"
    using assms(2) sw(1,2) inv [OF assms(2)]
    by (cases "shardIndexFor db k = j")
      (auto simp: db' db_lookup_shards db_lookup_def shardFor_def ht_find_lru lru_find_filter split: option.splits)
qed

text \<open>The keys a request may write.\<close>

definition writes :: "string \<Rightarrow> string \<Rightarrow> bool" where
  "writes line k \<longleftrightarrow>
     (case parse line of
        Inl err \<Rightarrow> False
      | Inr c \<Rightarrow> (cmd_type c = Cmd_Set \<or> cmd_type c = Cmd_Del) \<and> cmd_key c = k)"

lemma run_set_frame:
  assumes "db_inv db"
  shows "db_inv (snd (run_set env c db))" "same_layout db (snd (run_set env c db))"
    "k \<noteq> cmd_key c \<Longrightarrow> db_lookup (snd (run_set env c db)) k = db_lookup db k \<or>
       db_lookup (snd (run_set env c db)) k = None \<and> db_maxMemoryBytes db \<noteq> 0"
proof -
  show "db_inv (snd (run_set env c db))" "same_layout db (snd (run_set env c db))"
    using assms by (simp_all add: run_set_def db_set_inv db_set_ttl_inv split: option.split)
  assume k: "k \<noteq> cmd_key c"
  have w: "db_lookup (set_shardFor db (cmd_key c) (evictToFit ((shardFor db (cmd_key c))\<lparr>sh_table := t\<rparr>))) k = db_lookup db k \<or>
      db_lookup (set_shardFor db (cmd_key c) (evictToFit ((shardFor db (cmd_key c))\<lparr>sh_table := t\<rparr>))) k = None \<and>
      db_maxMemoryBytes db \<noteq> 0"
    if "ht_inv t" "ht_abs t = e # lru_remove (cmd_key c) (ht_abs (sh_table (shardFor db (cmd_key c))))"
      "e_key e = cmd_key c" for t e
    using db_write(3,5) [OF assms that] k by (cases "db_maxMemoryBytes db = 0") auto
  show "db_lookup (snd (run_set env c db)) k = db_lookup db k \<or>
      db_lookup (snd (run_set env c db)) k = None \<and> db_maxMemoryBytes db \<noteq> 0"
  proof (cases "cmd_expireSeconds c")
    case None
    from assms show ?thesis
      by (cases rule: db_set_cases [where key = "cmd_key c" and val = "cmd_value c"])
        (use w None in \<open>auto simp: run_set_def Entry_def\<close>)
  next
    case (Some ttl)
    from assms show ?thesis
      by (cases rule: db_set_ttl_cases [where key = "cmd_key c" and val = "cmd_value c" and now = "en_now env" and ttl = ttl])
        (use w Some in \<open>auto simp: run_set_def\<close>)
  qed
qed

lemma execute_section:
  assumes "\<not> visits_shards line st" "db_inv db" "execute env line (CommandExecutor db st) = Some (reply, ex, evs)"
  shows "db_inv (ex_database ex)" "same_layout db (ex_database ex)"
    "\<not> writes line k \<Longrightarrow> db_lookup (ex_database ex) k = db_lookup db k \<or>
       db_lookup (ex_database ex) k = None \<and> db_maxMemoryBytes db \<noteq> 0"
proof -
  have "db_inv (ex_database ex) \<and> same_layout db (ex_database ex) \<and>
    (\<not> writes line k \<longrightarrow> db_lookup (ex_database ex) k = db_lookup db k \<or>
       db_lookup (ex_database ex) k = None \<and> db_maxMemoryBytes db \<noteq> 0)"
  proof (cases "parse line")
    case (Inl err)
    with assms show ?thesis by (auto simp: execute_def CommandExecutor_def)
  next
    case (Inr c)
    have "ex_database ex =
        (case cmd_type c of Cmd_Set \<Rightarrow> snd (run_set env c db) | Cmd_Get \<Rightarrow> snd (db_get (en_now env) (cmd_key c) db)
         | Cmd_Del \<Rightarrow> snd (db_del (en_now env) (cmd_key c) db) | _ \<Rightarrow> db)"
      using assms(1,3) Inr
      by (cases "cmd_type c") (auto simp: execute_def CommandExecutor_def visits_shards_def split: prod.splits option.splits)
    moreover have "\<not> writes line k \<Longrightarrow> cmd_type c = Cmd_Set \<or> cmd_type c = Cmd_Del \<Longrightarrow> k \<noteq> cmd_key c"
      using Inr by (auto simp: writes_def)
    ultimately show ?thesis
      using run_set_frame [OF assms(2), where env = env and c = c] db_get_correct(2,3) [OF assms(2)]
        db_del_correct(2,3) [OF assms(2)] assms(2)
      by (cases "cmd_type c") simp_all
  qed
  then show "db_inv (ex_database ex)" "same_layout db (ex_database ex)"
    "\<not> writes line k \<Longrightarrow> db_lookup (ex_database ex) k = db_lookup db k \<or>
       db_lookup (ex_database ex) k = None \<and> db_maxMemoryBytes db \<noteq> 0" by blast+
qed

lemma same_layout_trans: "same_layout a b \<Longrightarrow> same_layout b c \<Longrightarrow> same_layout a c"
  by (simp add: same_layout_def)

lemma sys_step_keeps:
  assumes "sys_step s ev s'" "db_inv (sy_database s)"
  shows "db_inv (sy_database s')" "same_layout (sy_database s) (sy_database s')" "sy_now s \<le> sy_now s'"
  using assms(1)
  by (cases rule: sys_step_database;
      use assms(2) execute_section(1,2) [OF _ assms(2)] sweep_at_correct(1,2) [OF assms(2)] in simp)+

lemma sys_run_keeps:
  assumes "sys_run s0 evs s" "db_inv (sy_database s0)"
  shows "db_inv (sy_database s)" "same_layout (sy_database s0) (sy_database s)" "sy_now s0 \<le> sy_now s"
proof -
  have "db_inv (sy_database s) \<and> same_layout (sy_database s0) (sy_database s) \<and> sy_now s0 \<le> sy_now s"
    by (rule sys_runs.invariant [where I = "\<lambda>_ s. db_inv (sy_database s) \<and> same_layout (sy_database s0) (sy_database s) \<and>
          sy_now s0 \<le> sy_now s", OF assms(1)])
      (use assms(2) sys_step_keeps in \<open>auto intro: same_layout_trans order_trans\<close>)
  then show "db_inv (sy_database s)" "same_layout (sy_database s0) (sy_database s)" "sy_now s0 \<le> sy_now s" by blast+
qed

lemma write_snapshot_path:
  "write_snapshot strerror io n enc st = Some (outcome, st', evs) \<Longrightarrow> ss_path st' = ss_path st"
  by (auto simp: write_snapshot_def Let_def split: option.splits Option.bind_splits transfer.splits)

lemma sys_step_store:
  assumes "sys_step s ev s'"
  shows "map_option ss_path (sy_store s') = map_option ss_path (sy_store s)"
proof -
  have "map_option ss_path (sy_store s2) = map_option ss_path (sy_store s)"
    if "save_collected env entries s = Some (outcome, evs, s2)" for env entries outcome evs s2
    using that write_snapshot_path by (fastforce simp: save_collected_def Let_def split: option.splits)
  with assms show ?thesis
    by cases (auto simp: worker_defs thread_defs Let_def conn_request_def split: prod.splits option.splits)
qed

lemma sys_run_store:
  assumes "sys_run s0 evs s"
  shows "map_option ss_path (sy_store s) = map_option ss_path (sy_store s0)"
  by (rule sys_runs.invariant [where I = "\<lambda>_ s. map_option ss_path (sy_store s) = map_option ss_path (sy_store s0)", OF assms])
    (simp_all add: sys_step_store)

section \<open>Requests take effect one after the other\<close>

text \<open>
  The requests of a history on a map, in the order of the history, with their replies. \<open>map_step\<close> gives the
  reply and the next map of one request.
\<close>

inductive served :: "bool \<Rightarrow> (string \<Rightarrow> entry option) \<Rightarrow> sys_event list \<Rightarrow> (string \<Rightarrow> entry option) \<Rightarrow> bool"
  for persistent m0 where
  none: "served persistent m0 [] m0"
| request: "served persistent m0 evs m \<Longrightarrow> map_step env persistent (parse line) m reply m' \<Longrightarrow>
    served persistent m0 (evs @ [Requested i env line reply]) m'"
| other: "served persistent m0 evs m \<Longrightarrow> (\<And>i env line reply. ev \<noteq> Requested i env line reply) \<Longrightarrow>
    served persistent m0 (evs @ [ev]) m"

text \<open>From \<open>now\<close> on, the database and the map cannot be told apart: they differ in expired entries only.\<close>

definition reads_as :: "time_point \<Rightarrow> (string \<Rightarrow> entry option) \<Rightarrow> database \<Rightarrow> bool" where
  "reads_as now m db \<longleftrightarrow>
     (\<forall>k. db_lookup db k = m k \<or> db_lookup db k = None \<and> (\<exists>e. m k = Some e \<and> isExpiredAt now e))"

lemma reads_as_live:
  "reads_as now m db \<Longrightarrow> now \<le> t \<Longrightarrow> live_at t (db_lookup db) k = live_at t m k"
  using isExpiredAt_mono unfolding reads_as_def live_at_def
  by (metis (mono_tags, lifting) option.simps(4,5))

lemma reads_as_later: "reads_as now m db \<Longrightarrow> now \<le> t \<Longrightarrow> reads_as t m db"
  using isExpiredAt_mono unfolding reads_as_def by blast

lemma execute_other_io:
  assumes "\<not> visits_shards line (ex_store ex)"
  shows "execute (env\<lparr>en_io := io\<rparr>) line ex = execute env line ex"
  using assms
  by (auto simp: execute_def visits_shards_def run_set_def split: sum.splits CommandType.splits option.splits)

lemma map_step_other_io: "map_step (env\<lparr>en_io := io\<rparr>) = map_step env"
  by (intro ext) (simp add: map_step_def split: sum.split CommandType.split)

text \<open>
  A request on the database is the same request on the map.
\<close>

lemma map_step_reads_as:
  assumes "map_step env persistent r (db_lookup db) reply (db_lookup db')" "reads_as (en_now env) m db"
    and "\<And>c. r = Inr c \<Longrightarrow> cmd_type c \<noteq> Cmd_Keys"
  shows "\<exists>m'. map_step env persistent r m reply m' \<and> reads_as (en_now env) m' db'"
proof -
  have live: "live_at (en_now env) (db_lookup db) k = live_at (en_now env) m k" for k
    using reads_as_live [OF assms(2)] by simp
  show ?thesis
  proof (cases r)
    case (Inl err)
    with assms(1,2) show ?thesis by (auto simp: map_step_def reads_as_def)
  next
    case (Inr c)
    show ?thesis
    proof (cases "cmd_type c")
      case Cmd_Set
      with Inr assms(1,2) show ?thesis
        by (intro exI [of _ "m(cmd_key c \<mapsto> written_entry (en_now env) c)"]) (auto simp: map_step_def reads_as_def)
    next
      case Cmd_Del
      with Inr assms(1,2) live show ?thesis
        by (intro exI [of _ "m(cmd_key c := None)"]) (auto simp: map_step_def reads_as_def)
    qed (use Inr assms live in \<open>auto simp: map_step_def reads_as_def\<close>)
  qed
qed

lemma request_reads_as:
  assumes "execute env line (CommandExecutor db st) = Some (reply, ex, evs)" "\<not> visits_shards line st"
    and "db_inv db" "db_maxMemoryBytes db = 0" "reads_as (en_now env) m db"
  shows "\<exists>m'. map_step env (st \<noteq> None) (parse line) m reply m' \<and> reads_as (en_now env) m' (ex_database ex)"
proof -
  let ?env = "env\<lparr>en_io := io_example\<rparr>"
  have "execute ?env line (CommandExecutor db st) = Some (reply, ex, evs)"
    using assms(1) execute_other_io [of line "CommandExecutor db st"] assms(2) by (simp add: CommandExecutor_def)
  with execute_map_step [of "CommandExecutor db st" ?env line] assms(3,4) io_example_write
  have "map_step env (st \<noteq> None) (parse line) (db_lookup db) reply (db_lookup (ex_database ex))"
    by (auto simp: CommandExecutor_def map_step_other_io)
  moreover have "\<And>c. parse line = Inr c \<Longrightarrow> cmd_type c \<noteq> Cmd_Keys"
    using assms(2) by (auto simp: visits_shards_def)
  ultimately show ?thesis by (rule map_step_reads_as [OF _ assms(5)])
qed

lemma sys_run_served:
  assumes "sys_run s0 evs s" "db_inv (sy_database s0)" "db_maxMemoryBytes (sy_database s0) = 0"
  shows "\<exists>m. served (sy_store s0 \<noteq> None) (db_lookup (sy_database s0)) evs m \<and> reads_as (sy_now s) m (sy_database s)"
proof -
  let ?served = "served (sy_store s0 \<noteq> None) (db_lookup (sy_database s0))"
  let ?I = "\<lambda>evs s. sys_run s0 evs s \<and> (\<exists>m. ?served evs m \<and> reads_as (sy_now s) m (sy_database s))"
  have "?I evs s"
  proof (rule sys_runs.invariant [where I = ?I, OF assms(1)])
    show "?I [] s0" using sys_runs.run_none by (auto simp: reads_as_def intro: served.none)
  next
    fix es s e s'
    assume I: "?I es s" and step: "sys_step s e s'"
    then obtain m where m: "?served es m" "reads_as (sy_now s) m (sy_database s)" by blast
    from I have run: "sys_run s0 es s" ..
    note keeps = sys_run_keeps [OF run assms(2)]
    have unlimited: "db_maxMemoryBytes (sy_database s) = 0" using keeps(2) assms(3) by (simp add: same_layout_def)
    have store: "sy_store s = None \<longleftrightarrow> sy_store s0 = None"
      using sys_run_store [OF run] by (cases "sy_store s"; cases "sy_store s0") simp_all
    from step have "\<exists>m'. ?served (es @ [e]) m' \<and> reads_as (sy_now s') m' (sy_database s')"
    proof (cases rule: sys_step_database)
      case same
      with m reads_as_later show ?thesis by (metis served.other)
    next
      case (request i env line reply ex evs)
      from request_reads_as [OF request(3,2) keeps(1) unlimited reads_as_later [OF m(2) request(5)]]
      obtain m' where "map_step env (sy_store s0 \<noteq> None) (parse line) m reply m'" "reads_as (en_now env) m' (ex_database ex)"
        by (auto simp: store)
      with m(1) request show ?thesis by (auto intro: served.request)
    next
      case (sweep now buckets j)
      have "reads_as now m (sy_database s')"
        using reads_as_later [OF m(2) sweep(4)] sweep_at_correct(3) [OF keeps(1) sweep(2), of now buckets] sweep(3)
        unfolding reads_as_def by metis
      with m(1) sweep show ?thesis by (auto intro: served.other)
    qed
    with run step sys_runs.run_more show "?I (es @ [e]) s'" by blast
  qed
  then show ?thesis by blast
qed

section \<open>Walks over the shards\<close>

text \<open>No request of the history writes the key.\<close>

definition unwritten :: "string \<Rightarrow> sys_event list \<Rightarrow> bool" where
  "unwritten k evs \<longleftrightarrow> (\<forall>i env line reply. Requested i env line reply \<in> set evs \<longrightarrow> \<not> writes line k)"

lemma unwritten_snoc [simp]:
  "unwritten k []"
  "unwritten k (evs @ [ev]) \<longleftrightarrow> unwritten k evs \<and> (\<forall>i env line reply. ev = Requested i env line reply \<longrightarrow> \<not> writes line k)"
  by (auto simp: unwritten_def)

text \<open>An entry that nobody writes stays as it is, is swept once it has expired, or is evicted.\<close>

definition remains :: "sys \<Rightarrow> sys \<Rightarrow> string \<Rightarrow> bool" where
  "remains s1 s k \<longleftrightarrow>
     db_lookup (sy_database s) k = db_lookup (sy_database s1) k \<or>
     db_lookup (sy_database s) k = None \<and>
       (db_maxMemoryBytes (sy_database s1) \<noteq> 0 \<or>
        (\<exists>e. db_lookup (sy_database s1) k = Some e \<and> isExpiredAt (sy_now s) e))"

lemma sys_run_remains:
  assumes "sys_run s1 evs s" "db_inv (sy_database s1)" "unwritten k evs"
  shows "remains s1 s k"
proof -
  let ?I = "\<lambda>evs s. sys_run s1 evs s \<and> (unwritten k evs \<longrightarrow> remains s1 s k)"
  have "?I evs s"
  proof (rule sys_runs.invariant [where I = ?I, OF assms(1)])
    show "?I [] s1" using sys_runs.run_none by (simp add: remains_def)
  next
    fix es s e s'
    assume I: "?I es s" and step: "sys_step s e s'"
    then have run: "sys_run s1 es s" by blast
    note keeps = sys_run_keeps [OF run assms(2)] and later = isExpiredAt_mono [of "sy_now s" _ "sy_now s'"]
    have limit: "db_maxMemoryBytes (sy_database s) = db_maxMemoryBytes (sy_database s1)"
      using keeps(2) by (simp add: same_layout_def)
    have "remains s1 s' k" if u: "unwritten k (es @ [e])"
    proof -
      have r: "remains s1 s k" using I u by simp
      from step show ?thesis
      proof (cases rule: sys_step_database)
        case same
        with r later show ?thesis by (auto simp: remains_def)
      next
        case (request i env line reply ex evs)
        then have "\<not> writes line k" using u by simp
        from execute_section(3) [OF request(2) keeps(1) request(3) this] r request(4-6) limit later
        show ?thesis unfolding remains_def by auto
      next
        case (sweep now buckets j)
        from sweep_at_correct(3) [OF keeps(1) sweep(2), of now buckets k] r sweep(3-5) later
        show ?thesis unfolding remains_def by auto
      qed
    qed
    with run step sys_runs.run_more show "?I (es @ [e]) s'" by blast
  qed
  with assms(3) show ?thesis by blast
qed

lemma shard_entries_iff:
  assumes "db_inv db" "j < length (db_shards db)"
  shows "e \<in> set (shard_entries now j db) \<longleftrightarrow>
      db_lookup db (e_key e) = Some e \<and> shardIndexFor db (e_key e) = j \<and> \<not> isExpiredAt now e"
    and "distinct (map e_key (shard_entries now j db))"
proof -
  have inv: "ht_inv (sh_table (db_shards db ! j))" using db_shard_ok [OF assms] by (simp add: shard_ok_def)
  note c = ht_entriesWhere_correct [OF inv, of "\<lambda>e. \<not> isExpiredAt now e"]
  have "set (shard_entries now j db) = {e \<in> set (ht_abs (sh_table (db_shards db ! j))). \<not> isExpiredAt now e}"
    unfolding shard_entries_def using arg_cong [OF c, of set_mset] by auto
  then show "e \<in> set (shard_entries now j db) \<longleftrightarrow>
      db_lookup db (e_key e) = Some e \<and> shardIndexFor db (e_key e) = j \<and> \<not> isExpiredAt now e"
    using db_lookup_iff [OF assms] by auto
  have "mset (map e_key (shard_entries now j db)) =
      mset (map e_key (filter (\<lambda>e. \<not> isExpiredAt now e) (ht_abs (sh_table (db_shards db ! j)))))"
    unfolding shard_entries_def using c by simp
  moreover have "distinct (map e_key (filter (\<lambda>e. \<not> isExpiredAt now e) (ht_abs (sh_table (db_shards db ! j)))))"
    using ht_abs_distinct [OF inv] by (rule distinct_map_filter)
  ultimately show "distinct (map e_key (shard_entries now j db))" by (rule mset_eq_imp_distinct_iff [THEN iffD2])
qed

lemma shard_keys_entries: "shard_keys now j db = map e_key (shard_entries now j db)"
  by (simp add: shard_keys_def shard_entries_def ht_keysWhere_def ht_entriesWhere_def)

text \<open>
  What a walk that began at \<open>s1\<close> may have found when it has come to shard \<open>j\<close> at \<open>s\<close>: a key that no request
  of the history since then writes is found exactly when it is there. An entry that expires on the way
  may be found or not, and under a memory limit one may be missing because it was evicted.
\<close>

definition consistent ::
  "(entry \<Rightarrow> 'a) \<Rightarrow> ('a \<Rightarrow> string) \<Rightarrow> sys \<Rightarrow> sys_event list \<Rightarrow> sys \<Rightarrow> 'a list \<Rightarrow> nat \<Rightarrow> bool" where
  "consistent item key s1 evs s xs j \<longleftrightarrow>
     distinct (map key xs) \<and> (\<forall>x\<in>set xs. shardIndexFor (sy_database s1) (key x) < j) \<and>
     (\<forall>k. unwritten k evs \<longrightarrow>
        (\<forall>x\<in>set xs. key x = k \<longrightarrow>
           (\<exists>e. x = item e \<and> db_lookup (sy_database s1) k = Some e \<and> \<not> isExpiredAt (sy_now s1) e)) \<and>
        (\<forall>e. db_maxMemoryBytes (sy_database s1) = 0 \<and> db_lookup (sy_database s1) k = Some e \<and>
           \<not> isExpiredAt (sy_now s) e \<and> shardIndexFor (sy_database s1) k < j \<longrightarrow> item e \<in> set xs))"

lemma consistent_visit:
  assumes "consistent item key s1 evs s ys i" "sys_run s1 evs s" "db_inv (sy_database s1)"
    and "\<And>e. key (item e) = e_key e" "i < shards_of s" "sy_database s' = sy_database s" "sy_now s \<le> now" "sy_now s' = now"
  shows "consistent item key s1 (evs @ [ev]) s' (ys @ map item (shard_entries now i (sy_database s))) (Suc i)"
proof -
  let ?new = "shard_entries now i (sy_database s)"
  note keeps = sys_run_keeps [OF assms(2,3)]
  have idx: "shardIndexFor (sy_database s) = shardIndexFor (sy_database s1)" using keeps(2) by (simp add: same_layout_def)
  note new = shard_entries_iff [OF keeps(1) assms(5) [unfolded shards_of_def], where now = now, unfolded idx]
  have "key \<circ> item = e_key" using assms(4) by auto
  moreover have "set (map key ys) \<inter> set (map e_key ?new) = {}"
    using assms(1) new(1) by (fastforce simp: consistent_def)
  ultimately have d: "distinct (map key (ys @ map item ?new))"
    using assms(1,4) new(2) by (simp add: consistent_def image_image)
  have home: "\<forall>x\<in>set (ys @ map item ?new). shardIndexFor (sy_database s1) (key x) < Suc i"
    using assms(1,4) new(1) by (auto simp: consistent_def)
  have found: "\<exists>e. x = item e \<and> db_lookup (sy_database s1) k = Some e \<and> \<not> isExpiredAt (sy_now s1) e"
    if "unwritten k evs" "x \<in> set (ys @ map item ?new)" "key x = k" for k x
  proof (cases "x \<in> set ys")
    case True
    with assms(1) that show ?thesis by (auto simp: consistent_def)
  next
    case False
    with that(2) obtain e where e: "x = item e" "e \<in> set ?new" by auto
    then have "db_lookup (sy_database s) k = Some e" "\<not> isExpiredAt now e" using that(3) assms(4) new(1) by auto
    with e sys_run_remains [OF assms(2,3) that(1)] keeps(3) assms(7) isExpiredAt_mono [of "sy_now s1" e now]
    show ?thesis by (auto simp: remains_def)
  qed
  have complete: "item e \<in> set (ys @ map item ?new)"
    if "unwritten k evs" "db_maxMemoryBytes (sy_database s1) = 0" "db_lookup (sy_database s1) k = Some e"
      "\<not> isExpiredAt now e" "shardIndexFor (sy_database s1) k < Suc i" for k e
  proof (cases "shardIndexFor (sy_database s1) k < i")
    case True
    have "\<not> isExpiredAt (sy_now s) e" using that(4) assms(7) isExpiredAt_mono by blast
    with True assms(1) that show ?thesis by (auto simp: consistent_def)
  next
    case False
    have "db_lookup (sy_database s) k = Some e"
      using sys_run_remains [OF assms(2,3) that(1)] that isExpiredAt_mono [OF _ assms(7)] by (auto simp: remains_def)
    moreover from this have "e_key e = k" by (rule db_lookup_key [OF keeps(1)])
    ultimately have "e \<in> set ?new" using False that new(1) by auto
    then show ?thesis by simp
  qed
  from d home found complete show ?thesis unfolding consistent_def assms(8) unwritten_snoc by blast
qed

locale shard_walk =
  fixes item :: "entry \<Rightarrow> 'a" and key :: "'a \<Rightarrow> string"
    and walking :: "sys \<Rightarrow> 'w \<Rightarrow> 'a list \<Rightarrow> nat \<Rightarrow> bool"
    and acts :: "'w \<Rightarrow> sys_event \<Rightarrow> bool"
  assumes key_item: "key (item e) = e_key e"
    and walk_step: "sys_step s ev s' \<Longrightarrow> walking s' w xs j \<Longrightarrow>
      walking s w xs j \<and> \<not> acts w ev \<or> xs = [] \<and> j = 0 \<or>
      (\<exists>now ys i. walking s w ys i \<and> \<not> acts w ev \<and> i < shards_of s \<and> j = Suc i \<and>
        xs = ys @ map item (shard_entries now i (sy_database s)) \<and> sy_database s' = sy_database s \<and>
        sy_now s \<le> now \<and> sy_now s' = now)"
begin

lemma walk_bounded:
  assumes "sys_run s0 evs s" "db_inv (sy_database s0)" "\<And>xs j. \<not> walking s0 w xs j" "walking s w xs j"
  shows "j \<le> shards_of s"
proof -
  let ?I = "\<lambda>s. db_inv (sy_database s) \<and> (\<forall>xs j. walking s w xs j \<longrightarrow> j \<le> shards_of s)"
  have "?I s"
  proof (rule sys_runs.invariant [where I = "\<lambda>_. ?I", OF assms(1)])
    fix s e s'
    assume I: "?I s" and step: "sys_step s e s'"
    then have "db_inv (sy_database s')" "shards_of s' = shards_of s"
      using sys_step_keeps(1,2) [OF step] by (simp_all add: shards_of_def same_layout_def)
    with I walk_step [OF step] show "?I s'" by (metis Suc_leI le0)
  qed (use assms(2,3) in blast)
  with assms(4) show ?thesis by blast
qed

lemma walk_consistent:
  assumes "sys_run s0 evs s" "db_inv (sy_database s0)" "\<And>xs j. \<not> walking s0 w xs j" "walking s w xs j"
  shows "\<exists>evs1 evs2 s1. evs = evs1 @ evs2 \<and> sys_run s0 evs1 s1 \<and> sys_run s1 evs2 s \<and> walking s1 w [] 0 \<and>
    list_all (\<lambda>ev. \<not> acts w ev) evs2 \<and> consistent item key s1 evs2 s xs j"
proof -
  let ?found = "\<lambda>evs s xs j. \<exists>evs1 evs2 s1. evs = evs1 @ evs2 \<and> sys_run s0 evs1 s1 \<and> sys_run s1 evs2 s \<and>
    walking s1 w [] 0 \<and> list_all (\<lambda>ev. \<not> acts w ev) evs2 \<and> consistent item key s1 evs2 s xs j"
  let ?I = "\<lambda>evs s. sys_run s0 evs s \<and> (\<forall>xs j. walking s w xs j \<longrightarrow> ?found evs s xs j)"
  have "?I evs s"
  proof (rule sys_runs.invariant [where I = ?I, OF assms(1)])
    show "?I [] s0" using assms(3) sys_runs.run_none by blast
  next
    fix es s e s'
    assume I: "?I es s" and step: "sys_step s e s'"
    then have run: "sys_run s0 (es @ [e]) s'" using sys_runs.run_more by blast
    have "?found (es @ [e]) s' xs j" if "walking s' w xs j" for xs j
      using walk_step [OF step that]
    proof (elim disjE conjE exE)
      assume "xs = []" "j = 0"
      with run that sys_runs.run_none show ?thesis
        by (intro exI [of _ "es @ [e]"] exI [of _ "[]"] exI [of _ s']) (simp add: consistent_def)
    next
      assume w: "walking s w xs j" "\<not> acts w e"
      with I obtain evs1 evs2 s1 where f: "es = evs1 @ evs2" "sys_run s0 evs1 s1" "sys_run s1 evs2 s" "walking s1 w [] 0"
          "list_all (\<lambda>ev. \<not> acts w ev) evs2" "consistent item key s1 evs2 s xs j" by blast
      have "db_inv (sy_database s1)" using sys_run_keeps(1) [OF f(2) assms(2)] .
      with f(3) sys_step_keeps(3) [OF step] sys_run_keeps(1) have "sy_now s \<le> sy_now s'" by blast
      with f(6) have "consistent item key s1 (evs2 @ [e]) s' xs j"
        unfolding consistent_def by (simp del: map_map) (metis isExpiredAt_mono)
      with f w(2) sys_runs.run_more [OF f(3) step] show ?thesis
        by (intro exI [of _ evs1] exI [of _ "evs2 @ [e]"] exI [of _ s1]) simp
    next
      fix now ys i
      assume w: "walking s w ys i" "\<not> acts w e" "i < shards_of s" "j = Suc i"
        "xs = ys @ map item (shard_entries now i (sy_database s))" "sy_database s' = sy_database s"
        "sy_now s \<le> now" "sy_now s' = now"
      with I obtain evs1 evs2 s1 where f: "es = evs1 @ evs2" "sys_run s0 evs1 s1" "sys_run s1 evs2 s" "walking s1 w [] 0"
          "list_all (\<lambda>ev. \<not> acts w ev) evs2" "consistent item key s1 evs2 s ys i" by blast
      have "db_inv (sy_database s1)" using sys_run_keeps(1) [OF f(2) assms(2)] .
      from consistent_visit [OF f(6,3) this key_item w(3,6-8)]
      have "consistent item key s1 (evs2 @ [e]) s' xs j" by (simp add: w(4,5))
      with f w(2) sys_runs.run_more [OF f(3) step] show ?thesis
        by (intro exI [of _ evs1] exI [of _ "evs2 @ [e]"] exI [of _ s1]) simp
    qed
    with run show "?I (es @ [e]) s'" by blast
  qed
  with assms(4) show ?thesis by blast
qed

end

text \<open>The steps of a worker other than visiting a shard.\<close>

fun net_worker :: "net_event \<Rightarrow> nat option" where
  "net_worker (Ev_take i) = Some i"
| "net_worker (Ev_serve i fd) = Some i"
| "net_worker (Ev_close i fd) = Some i"
| "net_worker (Ev_return i) = Some i"
| "net_worker (Ev_throw i fd) = Some i"
| "net_worker _ = None"

fun moves :: "nat \<Rightarrow> sys_event \<Rightarrow> bool" where
  "moves i (Net ev) \<longleftrightarrow> net_worker ev = Some i"
| "moves i (Moved k) \<longleftrightarrow> k = i"
| "moves i (Received k fd res) \<longleftrightarrow> k = i"
| "moves i (Requested k env line reply) \<longleftrightarrow> k = i"
| "moves i (Listed k keys) \<longleftrightarrow> k = i"
| "moves i (Saved who env outcome entries evs) \<longleftrightarrow> who = By_worker i"
| "moves i (Sent k fd bytes) \<longleftrightarrow> k = i"
| "moves i (Visited k now) \<longleftrightarrow> False"
| "moves i (Background now) \<longleftrightarrow> False"

lemma net_step_serving:
  assumes "net_step n ev n'" "holds n' i fd Serving"
  shows "holds n i fd Serving \<and> net_worker ev \<noteq> Some i \<or> ev = Ev_serve i fd \<and> nt_phase n i = Registered"
  using assms
  by cases (auto simp: holds_def stop_def control_defs run_accept_def run_submit_def run_refuse_def close_client_def
      run_stop_pool_def run_join_def run_stop_threads_def worker_next_def worker_turn_def serve_register_def serve_check_def
      serve_handled_def serve_close_def serve_return_def worker_return_def begin_shutdown_def end_shutdown_def trySubmit_def
      nth_list_update may_move_def split: if_splits prod.splits option.splits list.splits accept_result.splits)

lemma net_effect_activity:
  "sy_activity (net_effect ev n s) i = a \<Longrightarrow> sy_activity s i = a \<and> (\<forall>fd. ev \<noteq> Ev_serve i fd \<or> nt_phase (sy_net s) i \<noteq> Registered) \<or>
     a = Testing '''' \<and> (\<exists>fd. ev = Ev_serve i fd)"
  by (auto simp: net_effect_def Let_def split: net_event.splits if_splits)

lemma doing_network:
  assumes "net_step (sy_net s) ev n" "doing (net_effect ev n s) i fd a" "a \<noteq> Testing ''''"
  shows "doing s i fd a \<and> \<not> moves i (Net ev)"
  using net_step_serving [OF assms(1), of i fd] assms(2,3) net_effect_activity [of ev n s i a] by (auto simp: doing_def)

lemma doing_act [simp]:
  "doing (act i a s) k fd b \<longleftrightarrow> (if k = i then holds (sy_net s) k fd Serving \<and> a = b else doing s k fd b)"
  by (auto simp: doing_def)

lemma doing_upd [simp]:
  "doing (s\<lparr>sy_now := now\<rparr>) = doing s" "doing (s\<lparr>sy_saver := x\<rparr>) = doing s" "doing (s\<lparr>sy_database := db\<rparr>) = doing s"
  "doing (s\<lparr>sy_sweep := y\<rparr>) = doing s" "doing (s\<lparr>sy_sweeper := w\<rparr>) = doing s" "doing (s\<lparr>sy_collect := z\<rparr>) = doing s"
  "doing (s\<lparr>sy_scheduler := v\<rparr>) = doing s" "doing (s\<lparr>sy_store := u\<rparr>) = doing s"
  by (simp_all add: doing_def fun_eq_iff)

lemma doing_save: "save_collected env entries s = Some (outcome, evs, s') \<Longrightarrow> doing s' = doing s"
  by (simp add: doing_def fun_eq_iff save_collected_sel)

lemma doing_unique: "doing s i fd a \<Longrightarrow> doing s i fd' b \<Longrightarrow> fd' = fd \<and> b = a"
  by (auto simp: doing_def holds_def)

interpretation listing: shard_walk e_key "\<lambda>k. k" "\<lambda>s i keys j. \<exists>fd rest. doing s i fd (Listing rest keys j)" moves
proof
  fix s s' ev and i j :: nat and xs
  assume step: "sys_step s ev s'" and "\<exists>fd rest. doing s' i fd (Listing rest xs j)"
  then obtain fd rest where d: "doing s' i fd (Listing rest xs j)" by blast
  from step show "(\<exists>fd rest. doing s i fd (Listing rest xs j)) \<and> \<not> moves i ev \<or> xs = [] \<and> j = 0 \<or>
    (\<exists>now ys k. (\<exists>fd rest. doing s i fd (Listing rest ys k)) \<and> \<not> moves i ev \<and> k < shards_of s \<and> j = Suc k \<and>
      xs = ys @ map e_key (shard_entries now k (sy_database s)) \<and> sy_database s' = sy_database s \<and>
      sy_now s \<le> now \<and> sy_now s' = now)"
  proof cases
    case (network ev n)
    with doing_network [OF network(3)] d show ?thesis by blast
  next
    case (list_shard k fd' rest' keys j' now)
    show ?thesis
    proof (cases "k = i")
      case True
      with d list_shard have "j = Suc j'" "xs = keys @ map e_key (shard_entries now j' (sy_database s))"
        by (auto simp: conn_list_def shard_keys_entries)
      with True list_shard show ?thesis by (auto simp: conn_list_def)
    next
      case False
      with d list_shard show ?thesis by (auto simp: conn_list_def)
    qed
  qed (use d in \<open>auto simp: worker_defs thread_defs conn_request_def doing_save Let_def
      split: if_splits option.splits prod.splits recv_result.splits\<close>)
qed simp

text \<open>A save collects entries, on a worker or on the scheduler.\<close>

fun collecting :: "sys \<Rightarrow> saver \<Rightarrow> entry list \<Rightarrow> nat \<Rightarrow> bool" where
  "collecting s (By_worker i) entries j \<longleftrightarrow> (\<exists>fd rest. doing s i fd (Collecting rest entries j))"
| "collecting s By_scheduler entries j \<longleftrightarrow> sy_collect s = Some (entries, j)"

fun saver_moves :: "saver \<Rightarrow> sys_event \<Rightarrow> bool" where
  "saver_moves (By_worker i) ev \<longleftrightarrow> moves i ev"
| "saver_moves By_scheduler ev \<longleftrightarrow> (\<exists>env outcome entries evs. ev = Saved By_scheduler env outcome entries evs)"

lemma worker_collects_step:
  assumes "sys_step s ev s'" "doing s' i fd (Collecting rest xs j)"
  shows "(\<exists>fd rest. doing s i fd (Collecting rest xs j)) \<and> \<not> moves i ev \<or> xs = [] \<and> j = 0 \<or>
    (\<exists>now ys k. (\<exists>fd rest. doing s i fd (Collecting rest ys k)) \<and> \<not> moves i ev \<and> k < shards_of s \<and> j = Suc k \<and>
      xs = ys @ shard_entries now k (sy_database s) \<and> sy_database s' = sy_database s \<and>
      sy_now s \<le> now \<and> sy_now s' = now)"
  using assms(1)
proof cases
  case (network ev n)
  with doing_network [OF network(3)] assms(2) show ?thesis by blast
next
  case (save_shard k fd' rest' entries j' now)
  show ?thesis
  proof (cases "k = i")
    case True
    with assms(2) save_shard have "j = Suc j'" "xs = entries @ shard_entries now j' (sy_database s)"
      by (auto simp: conn_collect_def)
    with True save_shard show ?thesis by (auto simp: conn_collect_def)
  next
    case False
    with assms(2) save_shard show ?thesis by (auto simp: conn_collect_def)
  qed
qed (use assms(2) in \<open>auto simp: worker_defs thread_defs conn_request_def doing_save Let_def
    split: if_splits option.splits prod.splits recv_result.splits\<close>)

lemma scheduler_collects_step:
  assumes "sys_step s ev s'" "sy_collect s' = Some (xs, j)"
  shows "sy_collect s = Some (xs, j) \<and> \<not> saver_moves By_scheduler ev \<or> xs = [] \<and> j = 0 \<or>
    (\<exists>now ys k. sy_collect s = Some (ys, k) \<and> \<not> saver_moves By_scheduler ev \<and> k < shards_of s \<and> j = Suc k \<and>
      xs = ys @ shard_entries now k (sy_database s) \<and> sy_database s' = sy_database s \<and>
      sy_now s \<le> now \<and> sy_now s' = now)"
  using assms
  by cases (auto simp: worker_defs thread_defs conn_request_def save_collected_sel Let_def split: option.splits prod.splits)

interpretation saving: shard_walk "\<lambda>e. e" e_key collecting saver_moves
proof
  fix s s' ev w xs and j :: nat
  assume "sys_step s ev s'" "collecting s' w xs j"
  then show "collecting s w xs j \<and> \<not> saver_moves w ev \<or> xs = [] \<and> j = 0 \<or>
    (\<exists>now ys i. collecting s w ys i \<and> \<not> saver_moves w ev \<and> i < shards_of s \<and> j = Suc i \<and>
      xs = ys @ map (\<lambda>e. e) (shard_entries now i (sy_database s)) \<and> sy_database s' = sy_database s \<and>
      sy_now s \<le> now \<and> sy_now s' = now)"
    using worker_collects_step scheduler_collects_step by (cases w) (simp, blast, simp)
qed simp

section \<open>The mutex of the store\<close>

definition mutex_ok :: "sys \<Rightarrow> bool" where
  "mutex_ok s \<longleftrightarrow> (\<forall>w. sy_saver s = Some w \<longleftrightarrow> (\<exists>entries j. collecting s w entries j))"

text \<open>A worker inside \<open>handleConnection\<close> stays there until it has finished or throws.\<close>

lemma net_step_stays:
  assumes "net_step n ev n'" "holds n i fd Serving"
  shows "holds n' i fd Serving \<or> ev = Ev_serve i fd \<or> ev = Ev_throw i fd"
  using assms
  by cases (auto simp: holds_def stop_def control_defs run_accept_def run_submit_def run_refuse_def close_client_def
      run_stop_pool_def run_join_def run_stop_threads_def worker_next_def worker_turn_def serve_register_def serve_check_def
      serve_handled_def serve_close_def serve_return_def worker_return_def begin_shutdown_def end_shutdown_def trySubmit_def
      nth_list_update may_move_def joined_def list_all_length
      split: if_splits prod.splits option.splits list.splits accept_result.splits)

lemma doing_network_iff:
  assumes "net_step (sy_net s) ev n" "net_allowed s ev" "a \<noteq> Testing ''''" "a \<noteq> Finished"
  shows "doing (net_effect ev n s) i fd a \<longleftrightarrow> doing s i fd a \<and> ev \<noteq> Ev_throw i fd"
proof
  assume d: "doing s i fd a \<and> ev \<noteq> Ev_throw i fd"
  then have h: "holds (sy_net s) i fd Serving" by (simp add: doing_def)
  have "ev \<noteq> Ev_serve i fd'" for fd'
    using assms(2,4) d by (auto simp: net_allowed_def doing_def holds_def)
  then have "sy_activity (net_effect ev n s) i = sy_activity s i"
    by (auto simp: net_effect_def Let_def split: net_event.split)
  with net_step_stays [OF assms(1) h] d \<open>\<And>fd'. ev \<noteq> Ev_serve i fd'\<close> show "doing (net_effect ev n s) i fd a"
    by (auto simp: doing_def)
next
  assume "doing (net_effect ev n s) i fd a"
  with doing_network [OF assms(1) this assms(3)] show "doing s i fd a \<and> ev \<noteq> Ev_throw i fd" by auto
qed

definition gathers :: "sys \<Rightarrow> nat \<Rightarrow> bool" where
  "gathers s i \<longleftrightarrow> (\<exists>fd. holds (sy_net s) i fd Serving) \<and>
     (case sy_activity s i of Collecting rest entries j \<Rightarrow> True | _ \<Rightarrow> False)"

lemma gathers_iff: "gathers s i \<longleftrightarrow> (\<exists>fd rest es j. doing s i fd (Collecting rest es j))"
  by (auto simp: gathers_def doing_def split: activity.splits)

lemma mutex_ok_iff:
  "mutex_ok s \<longleftrightarrow> (\<forall>i. sy_saver s = Some (By_worker i) \<longleftrightarrow> gathers s i) \<and>
     (sy_saver s = Some By_scheduler \<longleftrightarrow> sy_collect s \<noteq> None)"
proof -
  have w: "gathers s i \<longleftrightarrow> (\<exists>entries j. collecting s (By_worker i) entries j)" for i by (auto simp: gathers_iff)
  have b: "sy_collect s \<noteq> None \<longleftrightarrow> (\<exists>entries j. collecting s By_scheduler entries j)" by auto
  show ?thesis unfolding mutex_ok_def w b by (metis saver.exhaust)
qed

lemma gathers_network:
  assumes "net_step (sy_net s) ev n" "net_allowed s ev"
  shows "gathers (net_effect ev n s) i \<longleftrightarrow> gathers s i \<and> (\<forall>fd. ev \<noteq> Ev_throw i fd)"
proof
  assume "gathers (net_effect ev n s) i"
  then obtain fd rest es j where d: "doing (net_effect ev n s) i fd (Collecting rest es j)" unfolding gathers_iff by blast
  with doing_network [OF assms(1) d] show "gathers s i \<and> (\<forall>fd. ev \<noteq> Ev_throw i fd)" unfolding gathers_iff by auto
next
  assume "gathers s i \<and> (\<forall>fd. ev \<noteq> Ev_throw i fd)"
  with doing_network_iff [OF assms] show "gathers (net_effect ev n s) i" unfolding gathers_iff by blast
qed

lemma mutex_ok_step:
  assumes "sys_step s ev s'" "mutex_ok s"
  shows "mutex_ok s'"
proof -
  have w: "sy_saver s = Some (By_worker i) \<longleftrightarrow> gathers s i" for i using assms(2) by (simp add: mutex_ok_iff)
  have b: "sy_saver s = Some By_scheduler \<longleftrightarrow> sy_collect s \<noteq> None" using assms(2) by (simp add: mutex_ok_iff)
  have "(sy_saver s' = Some (By_worker i) \<longleftrightarrow> gathers s' i) \<and>
      (sy_saver s' = Some By_scheduler \<longleftrightarrow> sy_collect s' \<noteq> None)" for i
    using assms(1)
  proof cases
    case (network ev n)
    have "sy_saver s' = Some (By_worker i) \<longleftrightarrow> sy_saver s = Some (By_worker i) \<and> (\<forall>fd. ev \<noteq> Ev_throw i fd)"
      "sy_saver s' = Some By_scheduler \<longleftrightarrow> sy_saver s = Some By_scheduler"
      using network(2) by (auto simp: net_effect_def Let_def split: net_event.splits)
    with w b network(2) gathers_network [OF network(3,4)] show ?thesis by simp
  next
    case (save_end k fd rest entries j env outcome evs s2)
    then have "gathers s k" by (auto simp: gathers_iff)
    then have "sy_saver s = Some (By_worker k)" using w by simp
    with w [of i] b save_end show ?thesis
      by (auto simp: conn_saved_def save_collected_sel gathers_def)
  next
    case (sched_end sd entries j env outcome evs s2)
    then have "sy_saver s = Some By_scheduler" using b by simp
    with w [of i] b sched_end show ?thesis
      by (auto simp: sched_end_def save_collected_sel gathers_def Let_def)
  qed (use w [of i] b in \<open>auto simp: worker_defs thread_defs conn_request_def Let_def gathers_def doing_def
      split: prod.splits recv_result.splits if_splits option.splits\<close>)
  then show ?thesis by (simp add: mutex_ok_iff)
qed

end
