(* ===== verification/VC_System_Progress.thy ===== *)
theory VC_System_Progress
  imports VC_System_Correct
begin

text \<open>
  Lemmas on runs of the whole server from its start: what is at rest once \<open>run\<close> has returned, that a save can
  always be finished by the thread that has begun it and a worker can always move unless it waits for one,
  what the saves leave in the snapshot file, and which step determined the reply a worker is sending.
\<close>

section \<open>From the start of the server\<close>

lemma system_sel [simp]:
  "sy_database (system srv db now) = db" "sy_store (system srv db now) = sr_store srv" "sy_now (system srv db now) = now"
  "sy_collect (system srv db now) = None" "sy_sweep (system srv db now) = None" "sy_saver (system srv db now) = None"
  "sy_sweeper (system srv db now) = sr_sweeper srv" "sy_scheduler (system srv db now) = sr_scheduler srv"
  by (simp_all add: system_def)

text \<open>A server as \<open>start\<close> leaves it.\<close>

definition started_server :: "server \<Rightarrow> bool" where
  "started_server srv \<longleftrightarrow> (\<exists>k m. sr_pool srv = Some (ThreadPool k m))"

lemma system_net:
  assumes "started_server srv"
  obtains k m where "sy_net (system srv db now) = network srv (ThreadPool k m)"
  using assms by (auto simp: started_server_def system_def)

lemma system_idle:
  assumes "started_server srv"
  shows "\<not> doing (system srv db now) i fd a" "mutex_ok (system srv db now)"
proof -
  have "\<not> holds (sy_net (system srv db now)) i fd ph" for i fd ph
    using assms by (auto simp: started_server_def system_def network_def holds_def ThreadPool_def Let_def)
  then show "\<not> doing (system srv db now) i fd a" "mutex_ok (system srv db now)"
    by (simp_all add: doing_def mutex_ok_iff gathers_def)
qed

lemma sys_run_mutex:
  assumes "sys_run (system srv db now) evs s" "started_server srv"
  shows "mutex_ok s"
  by (rule sys_runs.invariant [where I = "\<lambda>_. mutex_ok", OF assms(1) system_idle(2) [OF assms(2)]]) (rule mutex_ok_step)

text \<open>The steps on the network are a run of VC_Server.\<close>

lemma sys_step_net:
  assumes "sys_step s ev s'"
  shows "(\<exists>nev. ev = Net nev \<and> net_step (sy_net s) nev (sy_net s')) \<or> sy_net s' = sy_net s \<and> (\<nexists>nev. ev = Net nev)"
  using assms
  by cases (auto simp: worker_defs thread_defs conn_request_def save_collected_sel Let_def split: option.splits prod.splits)

lemma sys_run_net:
  assumes "sys_run s0 evs s"
  shows "\<exists>nevs. net_run (sy_net s0) nevs (sy_net s)"
proof (rule sys_runs.invariant [where I = "\<lambda>_ s. \<exists>nevs. net_run (sy_net s0) nevs (sy_net s)", OF assms])
  show "\<exists>nevs. net_run (sy_net s0) nevs (sy_net s0)" using net_run.none by blast
next
  fix es s e s'
  assume "\<exists>nevs. net_run (sy_net s0) nevs (sy_net s)" "sys_step s e s'"
  with sys_step_net [OF this(2)] net_run.more show "\<exists>nevs. net_run (sy_net s0) nevs (sy_net s')" by metis
qed

lemma sys_run_stage:
  assumes "sys_run (system srv db now) evs s" "started_server srv"
  shows "stage_ok (sy_net s)"
proof -
  obtain k m where "sy_net (system srv db now) = network srv (ThreadPool k m)" by (rule system_net [OF assms(2)])
  with sys_run_net [OF assms(1)] net_run_ok show ?thesis by fastforce
qed

section \<open>When run has returned\<close>

definition halted :: "sys \<Rightarrow> bool" where
  "halted s \<longleftrightarrow> sy_sweep s = None \<and> sy_collect s = None \<and>
     (\<forall>sw. sy_sweeper s = Some sw \<longrightarrow> \<not> sw_thread sw \<and> \<not> sw_running sw) \<and>
     (\<forall>sd. sy_scheduler s = Some sd \<longrightarrow> \<not> sd_thread sd \<and> \<not> sd_running sd)"

lemma net_step_returned:
  assumes "net_step n ev n'" "nt_pc n' = Returned"
  shows "nt_pc n = Returned \<or> nt_pc n = Stopping_threads \<and> ev = Ev_run"
  using assms
  by cases (auto simp: stop_def control_defs run_accept_def run_submit_def run_refuse_def close_client_def
      run_stop_pool_def run_join_def worker_next_def serve_register_def serve_check_def
      serve_handled_def serve_close_def serve_return_def
      split: if_splits prod.splits option.splits poll_result.splits accept_result.splits)

lemma halted_step:
  assumes "sys_step s ev s'" "nt_pc (sy_net s) = Returned \<longrightarrow> halted s" "nt_pc (sy_net s') = Returned"
  shows "halted s'"
proof (cases "nt_pc (sy_net s) = Returned")
  case True
  with assms(2) have "halted s" by blast
  with assms(1) show ?thesis
    by cases (auto simp: halted_def worker_defs thread_defs conn_request_def save_collected_sel Let_def net_effect_def
        sweeper_stop_def scheduler_stop_def split: option.splits prod.splits)
next
  case False
  with sys_step_net [OF assms(1)] assms(3) obtain nev where
    n: "ev = Net nev" "net_step (sy_net s) nev (sy_net s')" by auto
  with net_step_returned [OF n(2) assms(3)] False have pc: "nt_pc (sy_net s) = Stopping_threads" "nev = Ev_run" by auto
  from assms(1) n(1) show ?thesis
    by cases (use pc in \<open>auto simp: halted_def net_allowed_def net_effect_def sweeper_stop_def scheduler_stop_def Let_def\<close>)
qed

lemma sys_run_halted:
  assumes "sys_run (system srv db now) evs s" "started_server srv" "nt_pc (sy_net s) = Returned"
  shows "halted s"
proof -
  have "nt_pc (sy_net s) = Returned \<longrightarrow> halted s"
    by (rule sys_runs.invariant [where I = "\<lambda>_ s. nt_pc (sy_net s) = Returned \<longrightarrow> halted s", OF assms(1)])
      (use assms(2) halted_step in \<open>auto simp: started_server_def system_def network_def\<close>)
  with assms(3) show ?thesis by blast
qed

lemma returned_step:
  assumes "sys_step s ev s'" "nt_pc (sy_net s) = Returned" "halted s" "tp_workers (nt_pool (sy_net s)) = []"
  shows "sy_database s' = sy_database s" "sy_store s' = sy_store s" "server_after s' = server_after s"
    "nt_pc (sy_net s') = Returned" "tp_workers (nt_pool (sy_net s')) = []" "halted s'"
proof -
  have idle: "\<not> doing s i fd a" for i fd a using assms(4) by (simp add: doing_def holds_def)
  obtain written where e: "ev = Net (Ev_stop written)" "s' = net_effect (Ev_stop written) (stop written (sy_net s)) s"
    using assms(1)
  proof cases
    case (network nev n)
    from network(3) assms(2,4) that network(1,2) show ?thesis
      by cases (auto simp: may_move_def holds_def)
  qed (use idle assms(3) in \<open>auto simp: halted_def\<close>)
  show "sy_database s' = sy_database s" "sy_store s' = sy_store s" "server_after s' = server_after s"
    "nt_pc (sy_net s') = Returned" "tp_workers (nt_pool (sy_net s')) = []" "halted s'"
    using assms(2-4) by (simp_all add: e(2) server_after_def halted_def net_effect_def stop_def)
qed

lemma returned_run:
  assumes "sys_run s evs s'" "nt_pc (sy_net s) = Returned" "halted s" "tp_workers (nt_pool (sy_net s)) = []"
  shows "sy_database s' = sy_database s \<and> sy_store s' = sy_store s \<and> server_after s' = server_after s"
proof -
  let ?I = "\<lambda>s'. sy_database s' = sy_database s \<and> sy_store s' = sy_store s \<and> server_after s' = server_after s \<and>
    nt_pc (sy_net s') = Returned \<and> tp_workers (nt_pool (sy_net s')) = [] \<and> halted s'"
  have "?I s'"
    by (rule sys_runs.invariant [where I = "\<lambda>_. ?I", OF assms(1)]) (use assms returned_step in auto)
  then show ?thesis by blast
qed

section \<open>Saves can end\<close>

definition saving_ok :: "sys \<Rightarrow> bool" where
  "saving_ok s \<longleftrightarrow> (sy_saver s \<noteq> None \<longrightarrow> sy_store s \<noteq> None) \<and> (sy_collect s \<noteq> None \<longrightarrow> sy_scheduler s \<noteq> None)"

lemma saving_ok_step:
  assumes "sys_step s ev s'" "saving_ok s"
  shows "saving_ok s'"
  using assms
proof cases
  case (network nev n)
  with assms(2) show ?thesis
    by (auto simp: saving_ok_def net_effect_def Let_def split: net_event.splits if_splits)
next
  case (save_end i fd rest entries j env outcome evs s2)
  with assms(2) show ?thesis
    by (auto simp: saving_ok_def conn_saved_def save_collected_sel)
qed (use assms(2) in \<open>auto simp: saving_ok_def worker_defs thread_defs conn_request_def save_collected_sel Let_def
    split: prod.splits option.splits\<close>)

lemma sys_run_saving:
  assumes "sys_run (system srv db now) evs s"
  shows "saving_ok s"
  by (rule sys_runs.invariant [where I = "\<lambda>_. saving_ok", OF assms]) (simp add: saving_ok_def, rule saving_ok_step)

text \<open>The steps a save consists of.\<close>

fun saver_works :: "saver \<Rightarrow> sys_event \<Rightarrow> bool" where
  "saver_works (By_worker i) ev \<longleftrightarrow> (\<exists>now. ev = Visited i now) \<or> (\<exists>env outcome entries evs. ev = Saved (By_worker i) env outcome entries evs)"
| "saver_works By_scheduler ev \<longleftrightarrow> (\<exists>now. ev = Background now) \<or> (\<exists>env outcome entries evs. ev = Saved By_scheduler env outcome entries evs)"

lemma save_collected_returns:
  assumes "posix_write (si_write (en_io env))" "sy_store s \<noteq> None"
  obtains outcome evs s' where "save_collected env entries s = Some (outcome, evs, s')"
proof -
  obtain st where st: "sy_store s = Some st" using assms(2) by blast
  obtain outcome st' evs where
    "write_snapshot (en_strerror env) (en_io env) (length entries) (collected_text env entries) st = Some (outcome, st', evs)"
    using write_snapshot_result [OF assms(1)] by (metis prod_cases3)
  with st that show thesis by (simp add: save_collected_def)
qed

lemma saver_finishes:
  assumes "collecting s w entries j" "j = shards_of s" "saving_ok s" "sy_saver s = Some w" "posix_write (si_write (en_io env))"
  shows "\<exists>outcome evs s'. sys_step s (Saved w env outcome entries evs) s' \<and> sy_saver s' = None"
proof -
  have "sy_store s \<noteq> None" using assms(3,4) by (simp add: saving_ok_def)
  then obtain outcome evs s' where c: "save_collected env entries s = Some (outcome, evs, s')"
    using save_collected_returns [OF assms(5)] by metis
  show ?thesis
  proof (cases w)
    case (By_worker i)
    with assms(1) obtain fd rest where "doing s i fd (Collecting rest entries j)" by auto
    from sys_step.save_end [OF this assms(2,5) c] c By_worker save_collected_sel(9) [OF c]
    show ?thesis by (fastforce simp: conn_saved_def)
  next
    case By_scheduler
    with assms(1,3) obtain sd where "sy_scheduler s = Some sd" "sy_collect s = Some (entries, j)" by (auto simp: saving_ok_def)
    from sys_step.sched_end [OF this assms(2,5) c] By_scheduler save_collected_sel(9) [OF c]
    show ?thesis by (fastforce simp: sched_end_def Let_def)
  qed
qed

lemma saver_visits:
  assumes "collecting s w entries j" "j < shards_of s"
  shows "\<exists>ev s' entries'. sys_step s ev s' \<and> saver_works w ev \<and> collecting s' w entries' (Suc j) \<and>
    shards_of s' = shards_of s \<and> sy_saver s' = sy_saver s \<and> saving_ok s' = saving_ok s"
proof (cases w)
  case (By_worker i)
  with assms(1) obtain fd rest where d: "doing s i fd (Collecting rest entries j)" by auto
  let ?s = "conn_collect i (sy_now s) rest entries j s"
  from d have "collecting ?s w (entries @ shard_entries (sy_now s) j (sy_database s)) (Suc j)"
    by (auto simp: By_worker conn_collect_def doing_def)
  with sys_step.save_shard [OF d assms(2) order_refl] By_worker show ?thesis
    by (intro exI [of _ "Visited i (sy_now s)"] exI [of _ ?s]) (auto simp: conn_collect_def shards_of_def saving_ok_def)
next
  case By_scheduler
  with assms(1) have c: "sy_collect s = Some (entries, j)" by simp
  let ?s = "sched_next (sy_now s) entries j s"
  from sys_step.sched_shard [OF c assms(2) order_refl] By_scheduler c show ?thesis
    by (intro exI [of _ "Background (sy_now s)"] exI [of _ ?s]) (auto simp: sched_next_def shards_of_def saving_ok_def)
qed

lemma saver_can_end:
  fixes env :: request_env
  assumes "collecting s w entries j" "j \<le> shards_of s" "saving_ok s" "sy_saver s = Some w" "posix_write (si_write (en_io env))"
  shows "\<exists>evs s'. sys_run s evs s' \<and> list_all (saver_works w) evs \<and> length evs = Suc (shards_of s - j) \<and> sy_saver s' = None"
  using assms(1-4)
proof (induction "shards_of s - j" arbitrary: s entries j)
  case 0
  then have "j = shards_of s" by simp
  from saver_finishes [OF "0.prems"(1) this "0.prems"(3,4) assms(5)] obtain outcome evs s' where
    "sys_step s (Saved w env outcome entries evs) s'" "sy_saver s' = None" by blast
  with sys_runs.run_more [OF sys_runs.run_none] 0 show ?case
    by (intro exI [of _ "[Saved w env outcome entries evs]"] exI [of _ s']) (cases w; fastforce)
next
  case (Suc m)
  then have "j < shards_of s" by simp
  from saver_visits [OF Suc.prems(1) this] obtain ev s1 entries' where
    s1: "sys_step s ev s1" "saver_works w ev" "collecting s1 w entries' (Suc j)" "shards_of s1 = shards_of s"
      "sy_saver s1 = sy_saver s" "saving_ok s1 = saving_ok s" by blast
  have "m = shards_of s1 - Suc j" "Suc j \<le> shards_of s1" "saving_ok s1" "sy_saver s1 = Some w"
    using Suc s1 by simp_all
  from Suc.hyps(1) [OF this(1) s1(3) this(2-4)] obtain evs s' where
    r: "sys_run s1 evs s'" "list_all (saver_works w) evs" "length evs = Suc (shards_of s1 - Suc j)" "sy_saver s' = None" by blast
  have "sys_run s ([ev] @ evs) s'"
    by (rule sys_runs.append [OF _ r(1)]) (use sys_runs.run_more [OF sys_runs.run_none s1(1)] in simp)
  with r(2-4) s1(2,4) Suc.hyps(2) show ?case by (intro exI [of _ "ev # evs"] exI [of _ s']) auto
qed

text \<open>A worker inside \<open>handleConnection\<close> can go on unless it needs the mutex of the store.\<close>

lemma request_returns:
  assumes "\<not> visits_shards line (sy_store s)"
  obtains reply s' where "conn_request i env line rest s = Some (reply, s')"
proof -
  have "execute env line (CommandExecutor (sy_database s) (sy_store s)) \<noteq> None"
    using assms by (auto simp: execute_def visits_shards_def CommandExecutor_def split: sum.split CommandType.split prod.split)
  with that show thesis by (auto simp: conn_request_def)
qed

definition works :: "nat \<Rightarrow> sys_event \<Rightarrow> bool" where
  "works i ev \<longleftrightarrow> moves i ev \<or> (\<exists>now. ev = Visited i now)"

lemma sendLine_returns: "\<exists>ok bytes sends. sendLine slow_kernel i line = Some (ok, bytes, sends)"
proof -
  obtain t chunks i' where "server_sendAll slow_kernel i (line @ [LF]) 0 [] = Some (t, chunks, i')"
    using snd_srv.transfer_returns [OF slow_kernel_posix(1,2)] by metis
  then show ?thesis by (simp add: sendLine_def)
qed

lemma cutting_moves:
  assumes "doing s i fd (Cutting pending)" "sy_saver s = None"
  shows "\<exists>ev s'. sys_step s ev s' \<and> works i ev"
proof (cases "cut_line pending")
  case None
  with sys_step.rest [OF assms(1)] show ?thesis by (fastforce simp: works_def)
next
  case (Some p)
  obtain line rest where c: "cut_line pending = Some (line, rest)" using Some by (cases p) auto
  show ?thesis
  proof (cases "visits_shards line (sy_store s)")
    case True
    then obtain cmd where "parse line = Inr cmd" "cmd_type cmd = Cmd_Keys \<or> cmd_type cmd = Cmd_Save \<and> sy_store s \<noteq> None"
      by (auto simp: visits_shards_def split: sum.splits)
    with sys_step.list_begin [OF assms(1) c] sys_step.save_begin [OF assms(1) c _ _ _ assms(2)]
    show ?thesis by (fastforce simp: works_def)
  next
    case False
    obtain reply s' where "conn_request i (env_example\<lparr>en_now := sy_now s\<rparr>) line rest s = Some (reply, s')"
      by (rule request_returns [OF False])
    from sys_step.request [OF assms(1) c False _ this] show ?thesis by (fastforce simp: works_def)
  qed
qed

lemma walks_bounded:
  assumes "sys_run (system srv db now) evs s" "started_server srv" "db_inv db"
  shows "doing s i fd (Listing rest keys j) \<Longrightarrow> j \<le> shards_of s"
    and "collecting s w entries j \<Longrightarrow> j \<le> shards_of s"
proof -
  have "\<not> collecting (system srv db now) w entries j" for entries j
    using system_idle(1) [OF assms(2)] by (cases w) auto
  with saving.walk_bounded [OF assms(1), of w] assms(3) show "collecting s w entries j \<Longrightarrow> j \<le> shards_of s" by simp
  show "doing s i fd (Listing rest keys j) \<Longrightarrow> j \<le> shards_of s"
    using listing.walk_bounded [OF assms(1), of i] assms(3) system_idle(1) [OF assms(2)] by auto
qed

lemma worker_moves:
  assumes "sys_run (system srv db now) evs s" "started_server srv" "db_inv db" "holds (sy_net s) i fd Serving"
  shows "(\<exists>ev s'. sys_step s ev s' \<and> works i ev) \<or> sy_saver s \<noteq> None \<and> sy_saver s \<noteq> Some (By_worker i)"
proof -
  note mutex = sys_run_mutex [OF assms(1,2)] and bounds = walks_bounded [OF assms(1-3)]
  have d: "doing s i fd (sy_activity s i)" using assms(4) by (simp add: doing_def)
  show ?thesis
  proof (cases "sy_activity s i")
    case (Testing pending)
    with d sys_step.test [of s i fd pending] show ?thesis by (fastforce simp: works_def)
  next
    case (Receiving pending)
    with d sys_step.receive [of s i fd pending] show ?thesis by (fastforce simp: works_def)
  next
    case (Cutting pending)
    have "\<not> gathers s i" using Cutting by (simp add: gathers_def)
    then have "sy_saver s \<noteq> Some (By_worker i)" using mutex by (simp add: mutex_ok_iff)
    with cutting_moves [of s i fd pending] d Cutting show ?thesis by auto
  next
    case (Listing rest keys j)
    with d bounds(1) [of i fd rest keys j] sys_step.list_shard [of s i fd rest keys j "sy_now s"]
      sys_step.list_end [of s i fd rest keys j]
    show ?thesis by (cases "j = shards_of s") (fastforce simp: works_def)+
  next
    case (Collecting rest entries j)
    with d have c: "collecting s (By_worker i) entries j" by auto
    then have "sy_saver s = Some (By_worker i)" using mutex by (auto simp: mutex_ok_def)
    with saver_finishes [OF c _ sys_run_saving [OF assms(1)], of env_example] saver_visits [OF c] bounds(2) [OF c]
    show ?thesis by (cases "j = shards_of s") (fastforce simp: works_def env_example_def)+
  next
    case (Replying rest r go)
    obtain ok bytes sends where "sendLine slow_kernel 0 r = Some (ok, bytes, sends)" using sendLine_returns by blast
    with d Replying sys_step.reply [of s i fd rest r go slow_kernel] show ?thesis
      by (fastforce simp: works_def posix_write_def slow_kernel_posix)
  next
    case Finished
    then have "net_allowed s (Ev_serve i fd)" by (simp add: net_allowed_def)
    with sys_step.network [OF net_step.handled [OF assms(4)]] show ?thesis by (fastforce simp: works_def)
  qed
qed

section \<open>The snapshot file\<close>

fun disk_effects :: "sys_event \<Rightarrow> disk_event list" where
  "disk_effects (Saved w env outcome entries evs) = evs"
| "disk_effects _ = []"

text \<open>What the saves of a history did to the disk, in order.\<close>

definition disk_history :: "sys_event list \<Rightarrow> disk_event list" where
  "disk_history evs = concat (map disk_effects evs)"

text \<open>The complete snapshots that the successful saves of a history produced.\<close>

fun produced :: "sys_event \<Rightarrow> disk_file option set" where
  "produced (Saved w env outcome entries evs) =
     (if so_ok outcome then {Some \<lparr>f_data = collected_text env entries, f_synced = True\<rparr>} else {})"
| "produced _ = {}"

definition snapshots :: "sys_event list \<Rightarrow> disk_file option set" where
  "snapshots evs = (\<Union>ev\<in>set evs. produced ev)"

lemma disk_history_snoc [simp]:
  "disk_history [] = []" "disk_history (evs @ [ev]) = disk_history evs @ disk_effects ev" "snapshots [] = {}"
  by (simp_all add: disk_history_def snapshots_def)

lemma snapshots_mono: "snapshots evs \<subseteq> snapshots (evs @ [ev])"
  by (auto simp: snapshots_def)

lemma saved_step:
  assumes "sys_step s (Saved w env outcome entries devs) s'"
  obtains st st' j where "sy_store s = Some st" "save_result (collected_text env entries) (length entries) st (outcome, st', devs)"
    "collecting s w entries j" "j = shards_of s"
proof -
  obtain s2 j where c: "save_collected env entries s = Some (outcome, devs, s2)" "posix_write (si_write (en_io env))"
      "collecting s w entries j" "j = shards_of s"
    using assms by cases fastforce+
  then obtain st st' where st: "sy_store s = Some st"
      "write_snapshot (en_strerror env) (en_io env) (length entries) (collected_text env entries) st = Some (outcome, st', devs)"
    by (auto simp: save_collected_def split: option.splits)
  with write_snapshot_result [OF c(2), of "en_strerror env" "length entries" "collected_text env entries" st]
  have "save_result (collected_text env entries) (length entries) st (outcome, st', devs)" by auto
  with that st(1) c(3,4) show thesis by blast
qed

text \<open>One more save, on a disk where the file is the first one or a snapshot.\<close>

lemma saved_disk_safe:
  assumes "save_result (collected_text env entries) n st (outcome, st', devs)"
    and "d (ss_path st) \<in> insert x (snapshots es)"
  shows "disk_after (take m devs) d (ss_path st) \<in> insert x (snapshots (es @ [Saved w env outcome entries devs]))"
    (is "_ \<in> insert x (snapshots (es @ [?e]))")
proof (cases "so_ok outcome")
  case True
  then have "Some \<lparr>f_data = collected_text env entries, f_synced = True\<rparr> \<in> snapshots (es @ [?e])"
    by (auto simp: snapshots_def)
  with save_result_path(1) [OF assms(1), where d = d and m = m] assms(2) snapshots_mono [of es ?e] show ?thesis by auto
next
  case False
  then have "save_result (collected_text env entries) n st (outcome, st', take m devs)"
    using assms(1) by (auto simp: save_result_def only_temp_def list_all_iff dest: in_set_takeD)
  from save_result_path(2) [OF this, of d] False assms(2) snapshots_mono [of es ?e] show ?thesis by auto
qed

lemma disk_history_step:
  assumes "sys_step s e s'" "map_option ss_path (sy_store s) = Some path"
    and "\<And>m. disk_after (take m (disk_history es)) d path \<in> insert x (snapshots es)"
  shows "disk_after (take m (disk_history (es @ [e]))) d path \<in> insert x (snapshots (es @ [e]))"
proof (cases "\<exists>w env outcome entries devs. e = Saved w env outcome entries devs")
  case True
  then obtain w env outcome entries devs where e: "e = Saved w env outcome entries devs" by blast
  obtain st st' where s: "sy_store s = Some st"
      "save_result (collected_text env entries) (length entries) st (outcome, st', devs)"
    by (rule saved_step [OF assms(1) [unfolded e]])
  have path: "ss_path st = path" using s(1) assms(2) by simp
  have old: "disk_after (disk_history es) d (ss_path st) \<in> insert x (snapshots es)"
    unfolding path by (metis assms(3) order_refl take_all)
  show ?thesis
  proof (cases "m \<le> length (disk_history es)")
    case True
    with assms(3) [of m] snapshots_mono [of es e] show ?thesis by (auto simp: e)
  next
    case False
    with saved_disk_safe [where d = "disk_after (disk_history es) d", OF s(2) old, of "m - length (disk_history es)"] path show ?thesis by (simp add: e disk_after_append)
  qed
next
  case False
  then have "disk_effects e = []" by (cases e) auto
  with assms(3) [of m] snapshots_mono [of es e] show ?thesis by auto
qed

lemma disk_history_safe:
  assumes "sys_run (system srv db now) evs s" "sr_store srv = Some st"
  shows "disk_after (take m (disk_history evs)) d (ss_path st) \<in> insert (d (ss_path st)) (snapshots evs)"
proof -
  let ?ok = "\<lambda>evs. \<forall>m. disk_after (take m (disk_history evs)) d (ss_path st) \<in> insert (d (ss_path st)) (snapshots evs)"
  have "sys_run (system srv db now) evs s \<and> ?ok evs"
  proof (rule sys_runs.invariant [where I = "\<lambda>evs s. sys_run (system srv db now) evs s \<and> ?ok evs", OF assms(1)])
    show "sys_run (system srv db now) [] (system srv db now) \<and> ?ok []"
      using sys_runs.run_none by (simp add: disk_after_def)
  next
    fix es s e s'
    assume I: "sys_run (system srv db now) es s \<and> ?ok es" and step: "sys_step s e s'"
    have "map_option ss_path (sy_store s) = Some (ss_path st)" using sys_run_store [OF conjunct1 [OF I]] assms(2) by simp
    from disk_history_step [OF step this] I sys_runs.run_more step
    show "sys_run (system srv db now) (es @ [e]) s' \<and> ?ok (es @ [e])" by blast
  qed
  then show ?thesis by blast
qed

section \<open>Replies\<close>

text \<open>The step that determines a reply of worker \<open>i\<close>.\<close>

fun answers :: "nat \<Rightarrow> sys_event \<Rightarrow> string \<Rightarrow> bool" where
  "answers i (Requested k env line reply) r \<longleftrightarrow> k = i \<and> reply = Some r"
| "answers i (Listed k keys) r \<longleftrightarrow> k = i \<and> r = keys_reply keys"
| "answers i (Saved w env outcome entries evs) r \<longleftrightarrow> w = By_worker i \<and>
     r = (if \<not> so_ok outcome then proto_error (''ERR '' @ so_error outcome) else proto_status ''OK'')"
| "answers i (Moved k) r \<longleftrightarrow> k = i \<and> r = proto_error err_too_large"
| "answers i _ r \<longleftrightarrow> False"

lemma replying_step:
  assumes "sys_step s ev s'" "doing s' i fd (Replying rest r go)"
  shows "(\<exists>fd rest go. doing s i fd (Replying rest r go)) \<and> \<not> works i ev \<or> answers i ev r"
  using assms(1)
proof cases
  case (network nev n)
  with doing_network [OF network(3)] assms(2) show ?thesis by (fastforce simp: works_def)
next
  case (request k fd' pending line rest' env reply)
  from request(6) obtain db' where
    "s' = act k (case reply of None \<Rightarrow> Cutting rest' | Some x \<Rightarrow> Replying rest' x True) (s\<lparr>sy_database := db', sy_now := en_now env\<rparr>)"
    by (auto simp: conn_request_def split: option.splits prod.splits)
  with assms(2) request(1) show ?thesis by (cases "k = i") (auto simp: works_def split: option.splits)
qed (use assms(2) in \<open>auto simp: works_def worker_defs thread_defs doing_save Let_def
    split: if_splits prod.splits recv_result.splits\<close>)

lemma replying_answered:
  assumes "sys_run (system srv db now) evs s" "started_server srv" "doing s i fd (Replying rest r go)"
  shows "\<exists>evs1 ev evs2. evs = evs1 @ ev # evs2 \<and> answers i ev r \<and> list_all (\<lambda>ev. \<not> works i ev) evs2"
proof -
  let ?I = "\<lambda>evs s. \<forall>r. (\<exists>fd rest go. doing s i fd (Replying rest r go)) \<longrightarrow>
    (\<exists>evs1 ev evs2. evs = evs1 @ ev # evs2 \<and> answers i ev r \<and> list_all (\<lambda>ev. \<not> works i ev) evs2)"
  have "?I evs s"
  proof (rule sys_runs.invariant [where I = ?I, OF assms(1)])
    fix es s e s'
    assume I: "?I es s" and step: "sys_step s e s'"
    show "?I (es @ [e]) s'"
    proof (intro allI impI)
      fix r
      assume "\<exists>fd rest go. doing s' i fd (Replying rest r go)"
      then consider "\<exists>fd rest go. doing s i fd (Replying rest r go)" "\<not> works i e" | "answers i e r"
        using replying_step [OF step] by blast
      then show "\<exists>evs1 ev evs2. es @ [e] = evs1 @ ev # evs2 \<and> answers i ev r \<and> list_all (\<lambda>ev. \<not> works i ev) evs2"
      proof cases
        case 1
        with I obtain evs1 ev evs2 where "es = evs1 @ ev # evs2" "answers i ev r" "list_all (\<lambda>ev. \<not> works i ev) evs2" by blast
        with 1 show ?thesis by (intro exI [of _ evs1] exI [of _ ev] exI [of _ "evs2 @ [e]"]) simp
      next
        case 2
        then show ?thesis by (intro exI [of _ es] exI [of _ e] exI [of _ "[]"]) simp
      qed
    qed
  qed (simp add: system_idle(1) [OF assms(2)])
  with assms(3) show ?thesis by blast
qed

lemma sendLine_prefix:
  assumes "posix_write k" "sendLine k i line = Some (ok, bytes, sends)"
  shows "\<exists>m. bytes = take m (line @ [LF])"
proof -
  obtain t chunks i' where t: "server_sendAll k i (line @ [LF]) 0 [] = Some (t, chunks, i')"
      "t = Transfer_done \<Longrightarrow> concat chunks = line @ [LF]"
      "t \<noteq> Transfer_done \<Longrightarrow> \<exists>m<length (line @ [LF]). concat chunks = take m (line @ [LF])"
    using snd_srv.transfer_returns [of k i "line @ [LF]"] assms(1) unfolding posix_write_def by metis
  from t(1) assms(2) have "bytes = concat chunks" by (auto simp: sendLine_def)
  with t(2,3) show ?thesis by (metis order_refl take_all)
qed

end
