(* ===== verification/VC_System_Example.thy ===== *)
theory VC_System_Example
  imports VC_System_Progress
begin

text \<open>
  A run of the whole server from its start to the return of \<open>run\<close>, on which the examples of the properties
  rest: one client connects, sends SET, KEYS and SAVE in one packet, and the server is then stopped.
\<close>

section \<open>Lifting a run of the network\<close>

fun is_serve :: "net_event \<Rightarrow> bool" where
  "is_serve (Ev_serve i fd) \<longleftrightarrow> True"
| "is_serve _ \<longleftrightarrow> False"

text \<open>Without background threads and outside \<open>handleConnection\<close>, the network runs by itself.\<close>

lemma sys_run_lift:
  assumes "net_run (sy_net s) nevs n" "list_all (\<lambda>ev. \<not> is_serve ev) nevs"
    and "sy_sweeper s = None" "sy_scheduler s = None" "sy_sweep s = None" "sy_collect s = None" "sy_saver s = None"
  shows "sys_run s (map Net nevs) (s\<lparr>sy_net := n\<rparr>)"
  using assms(1,2)
proof (induction rule: net_run.induct)
  case none
  then show ?case using sys_run.none [of s] by simp
next
  case (more nevs n1 ev n2)
  let ?s = "s\<lparr>sy_net := n1\<rparr>"
  have "net_allowed ?s ev" using more.prems assms(5,6) by (cases ev) (simp_all add: net_allowed_def)
  with more.hyps(2) have "sys_step ?s (Net ev) (net_effect ev n2 ?s)" by (intro sys_step.network) simp_all
  moreover have "net_effect ev n2 ?s = s\<lparr>sy_net := n2\<rparr>"
    using more.prems assms(3-7) by (cases s; cases ev) (simp_all add: net_effect_def Let_def)
  ultimately show ?case using more sys_run.more by fastforce
qed

section \<open>The run\<close>

definition db1 :: database where
  "db1 = the (Database 1 1)"

lemma db1_Database: "Database 1 1 = Some db1"
  using Database_returns [of 1 1] by (auto simp: db1_def)

lemmas db1_inv = Database_inv(1) [OF db1_Database, simplified]
lemmas db1_limit = Database_inv(3) [OF db1_Database, simplified]

lemma db1_shards: "length (db_shards db1) = 1"
proof -
  obtain k where "max 1 (1::nat) \<le> 2 ^ k" "0 < k \<longrightarrow> 2 ^ (k - 1) < max 1 (1::nat)"
      "db_shards db1 = replicate (2 ^ k) (Shard (max (1 div 2 ^ k) 1))"
    using Database_returns [of 1 1] db1_Database by auto
  then show ?thesis by (cases k) auto
qed

definition serving_net :: net where
  "serving_net = example_net (example_start\<lparr>xe_pc := Loop_head, xe_running := True, xe_worker := Busy 5, xe_phase := Serving,
     xe_active := [5], xe_open := [5]\<rparr>)"

lemma serving_net_sel [simp]:
  "holds serving_net 0 5 Serving" "nt_running serving_net" "nt_server serving_net = example_server"
  by (simp_all add: serving_net_def example_net_def holds_def)

definition example_system :: sys where
  "example_system = system example_server db1 5"

text \<open>The worker is in \<open>handleConnection\<close>; its activity, the mutex, the database and the store.\<close>

definition example_sys :: "activity \<Rightarrow> saver option \<Rightarrow> database \<Rightarrow> store \<Rightarrow> sys" where
  "example_sys a w db st = example_system\<lparr>sy_net := serving_net, sy_activity := (\<lambda>_. Finished)(0 := a), sy_saver := w,
     sy_database := db, sy_store := Some st\<rparr>"

lemma example_sys_sel [simp]:
  "sy_net (example_sys a w db st) = serving_net" "sy_activity (example_sys a w db st) 0 = a" "sy_saver (example_sys a w db st) = w"
  "sy_database (example_sys a w db st) = db" "sy_store (example_sys a w db st) = Some st" "sy_now (example_sys a w db st) = 5"
  "doing (example_sys a w db st) 0 5 b \<longleftrightarrow> a = b" "shards_of (example_sys a w db st) = length (db_shards db)"
  by (simp_all add: example_sys_def example_system_def doing_def shards_of_def)

lemma example_sys_act [simp]: "act 0 b (example_sys a w db st) = example_sys b w db st"
  by (simp add: example_sys_def act_def)

lemma example_sys_upd [simp]:
  "(example_sys a w db st)\<lparr>sy_now := 5\<rparr> = example_sys a w db st" "(example_sys a w db st)\<lparr>sy_saver := w'\<rparr> = example_sys a w' db st"
  "(example_sys a w db st)\<lparr>sy_database := db', sy_now := 5\<rparr> = example_sys a w db' st"
  "(example_sys a w db st)\<lparr>sy_store := Some st', sy_saver := w'\<rparr> = example_sys a w' db st'"
  by (simp_all add: example_sys_def example_system_def system_def)

lemma example_accepted:
  "sys_run example_system
     (map Net [Ev_run, Ev_run, Ev_poll (Poll_ready True False), Ev_accept (Accept_fd 5), Ev_submit 5 True, Ev_take 0, Ev_serve 0 5,
        Ev_serve 0 5]) (example_sys (Testing '''') None db1 (SnapshotStore ''f''))"
proof -
  let ?n6 = "example_net (example_start\<lparr>xe_pc := Loop_head, xe_running := True, xe_worker := Busy 5, xe_open := [5]\<rparr>)"
  let ?n7 = "serve_register 0 5 ?n6"
  let ?s6 = "example_system\<lparr>sy_net := ?n6\<rparr>" and ?s7 = "example_system\<lparr>sy_net := ?n7\<rparr>"
  have held: "holds ?n6 0 5 Entered" "holds ?n7 0 5 Registered" by (simp_all add: holds_def example_simps)
  have "sys_run example_system (map Net [Ev_run, Ev_run, Ev_poll (Poll_ready True False), Ev_accept (Accept_fd 5),
      Ev_submit 5 True, Ev_take 0]) ?s6"
    by (rule sys_run_lift) (use example_taken in \<open>simp_all add: example_system_def system_def example_server_def\<close>)
  moreover have "sys_step ?s6 (Net (Ev_serve 0 5)) (net_effect (Ev_serve 0 5) ?n7 ?s6)"
    using sys_step.network [of ?s6, simplified, OF net_step.register [OF held(1)]] by (simp add: net_allowed_def example_simps)
  moreover have "net_effect (Ev_serve 0 5) ?n7 ?s6 = ?s7"
    by (simp add: net_effect_def example_simps example_system_def system_def)
  moreover have "sys_step ?s7 (Net (Ev_serve 0 5)) (net_effect (Ev_serve 0 5) (serve_check 0 ?n7) ?s7)"
    using sys_step.network [of ?s7, simplified, OF net_step.check [OF held(2)]] by (simp add: net_allowed_def example_simps)
  moreover have "net_effect (Ev_serve 0 5) (serve_check 0 ?n7) ?s7 = example_sys (Testing '''') None db1 (SnapshotStore ''f'')"
    by (simp add: net_effect_def example_simps example_sys_def example_system_def system_def serving_net_def example_server_def)
  ultimately show ?thesis using sys_run.more [OF sys_run.more] by fastforce
qed

definition example_packet :: string where
  "example_packet = ''SET k v'' @ LF # ''KEYS'' @ LF # ''SAVE'' @ [LF]"

lemma example_lines:
  "cut_line example_packet = Some (''SET k v'', ''KEYS'' @ LF # ''SAVE'' @ [LF])"
  "cut_line (''KEYS'' @ LF # ''SAVE'' @ [LF]) = Some (''KEYS'', ''SAVE'' @ [LF])"
  "cut_line (''SAVE'' @ [LF]) = Some (''SAVE'', '''')" "cut_line '''' = None"
  by code_simp+

lemma example_parse:
  "parse ''SET k v'' = Inr (set_command ''k'' ''v'' None)"
  "parse ''KEYS'' = Inr (default_Command\<lparr>cmd_type := Cmd_Keys\<rparr>)" "parse ''SAVE'' = Inr (default_Command\<lparr>cmd_type := Cmd_Save\<rparr>)"
  by code_simp+

lemma example_sent:
  "\<exists>bytes. sys_step (example_sys (Replying rest r True) None db st) (Sent 0 5 bytes) (example_sys (Cutting rest) None db st)"
proof -
  obtain chunks i' where "server_sendAll slow_kernel 0 (r @ [LF]) 0 [] = Some (Transfer_done, chunks, i')"
    using snd_srv.transfer_completes [OF slow_kernel_posix(1-3)] by metis
  then have "sendLine slow_kernel 0 r = Some (True, concat chunks, i')" by (simp add: sendLine_def)
  from sys_step.reply [OF _ _ this, of "example_sys (Replying rest r True) None db st" 0 5 rest True] show ?thesis
    by (auto simp: conn_replied_def posix_write_def slow_kernel_posix)
qed

definition db2 :: database where
  "db2 = snd (db_set ''k'' ''v'' db1)"

lemma db2_sel: "db_inv db2" "db_maxMemoryBytes db2 = 0" "length (db_shards db2) = 1"
  "db_lookup db2 = [''k'' \<mapsto> Entry ''k'' ''v'']"
  using db_set_inv [OF db1_inv, of "''k''" "''v''"] same_layout_ops(1) [of db1 "''k''" "''v''"] db1_shards db1_limit
    db_set_plain [OF db1_inv db1_limit, of "''k''" "''v''"] Database_inv(2) [OF db1_Database]
  by (auto simp: db2_def same_layout_def fun_eq_iff)

lemma example_request:
  "\<exists>bytes. sys_run (example_sys (Testing '''') None db1 st)
     [Moved 0, Received 0 5 (Recv_bytes example_packet), Requested 0 env_example ''SET k v'' (Some ''+OK''), Sent 0 5 bytes]
     (example_sys (Cutting (''KEYS'' @ LF # ''SAVE'' @ [LF])) None db2 st)"
proof -
  let ?rest = "''KEYS'' @ LF # ''SAVE'' @ [LF]"
  let ?s = "\<lambda>a db. example_sys a None db st"
  have "sys_step (?s (Testing '''') db1) (Moved 0) (?s (Receiving '''') db1)"
    using sys_step.test [of "?s (Testing '''') db1" 0 5 "''''"] by (simp add: conn_test_def)
  moreover have "sys_step (?s (Receiving '''') db1) (Received 0 5 (Recv_bytes example_packet)) (?s (Cutting example_packet) db1)"
    using sys_step.receive [of "?s (Receiving '''') db1" 0 5 "''''" "Recv_bytes example_packet"]
    by (simp add: conn_recv_def example_packet_def)
  moreover have "sys_step (?s (Cutting example_packet) db1) (Requested 0 env_example ''SET k v'' (Some ''+OK''))
      (?s (Replying ?rest ''+OK'' True) db2)"
  proof (rule sys_step.request [where fd = 5, OF _ example_lines(1)])
    have "fst (db_set ''k'' ''v'' db1) \<noteq> Rejected"
      using db_set_plain [OF db1_inv db1_limit, of "''k''" "''v''"] by auto
    then have "execute env_example ''SET k v'' (CommandExecutor db1 (Some st)) = Some (Some ''+OK'', CommandExecutor db2 (Some st), [])"
      by (cases "db_set ''k'' ''v'' db1")
        (simp add: execute_def example_parse set_command_def run_set_def CommandExecutor_def proto_status_def db2_def)
    then show "conn_request 0 env_example ''SET k v'' ?rest (?s (Cutting example_packet) db1) =
        Some (Some ''+OK'', ?s (Replying ?rest ''+OK'' True) db2)"
      by (simp add: conn_request_def CommandExecutor_def env_example_def)
  qed (simp_all add: visits_shards_def example_parse set_command_def env_example_def)
  moreover obtain bytes where "sys_step (?s (Replying ?rest ''+OK'' True) db2) (Sent 0 5 bytes) (?s (Cutting ?rest) db2)"
    using example_sent by blast
  ultimately have "sys_run (?s (Testing '''') db1) (((([] @ [Moved 0]) @ [Received 0 5 (Recv_bytes example_packet)]) @
      [Requested 0 env_example ''SET k v'' (Some ''+OK'')]) @ [Sent 0 5 bytes]) (?s (Cutting ?rest) db2)"
    using sys_run.none by (intro sys_run.more)
  then show ?thesis by auto
qed

lemma example_listed:
  "\<exists>bytes. sys_run (example_sys (Cutting (''KEYS'' @ LF # ''SAVE'' @ [LF])) None db2 st)
     [Moved 0, Visited 0 5, Listed 0 (shard_keys 5 0 db2), Sent 0 5 bytes] (example_sys (Cutting (''SAVE'' @ [LF])) None db2 st)"
proof -
  let ?p = "''KEYS'' @ LF # ''SAVE'' @ [LF]" and ?rest = "''SAVE'' @ [LF]" and ?keys = "shard_keys 5 0 db2"
  let ?s = "\<lambda>a. example_sys a None db2 st"
  have "sys_step (?s (Cutting ?p)) (Moved 0) (?s (Listing ?rest [] 0))"
    using sys_step.list_begin [OF _ example_lines(2) example_parse(2), of "?s (Cutting ?p)" 0 5] by simp
  moreover have "sys_step (?s (Listing ?rest [] 0)) (Visited 0 5) (?s (Listing ?rest ?keys 1))"
    using sys_step.list_shard [of "?s (Listing ?rest [] 0)" 0 5 ?rest "[]" 0 5] by (simp add: conn_list_def db2_sel)
  moreover have "sys_step (?s (Listing ?rest ?keys 1)) (Listed 0 ?keys) (?s (Replying ?rest (keys_reply ?keys) True))"
    using sys_step.list_end [of "?s (Listing ?rest ?keys 1)" 0 5 ?rest ?keys 1] by (simp add: conn_listed_def db2_sel)
  moreover obtain bytes where "sys_step (?s (Replying ?rest (keys_reply ?keys) True)) (Sent 0 5 bytes) (?s (Cutting ?rest))"
    using example_sent by blast
  ultimately have "sys_run (?s (Cutting ?p)) (((([] @ [Moved 0]) @ [Visited 0 5]) @ [Listed 0 ?keys]) @ [Sent 0 5 bytes]) (?s (Cutting ?rest))"
    using sys_run.none by (intro sys_run.more)
  then show ?thesis by auto
qed

lemma example_saved:
  "\<exists>outcome devs bytes st'. so_ok outcome \<and> ss_path st' = ss_path st \<and>
     sys_run (example_sys (Cutting (''SAVE'' @ [LF])) None db2 st)
       [Moved 0, Visited 0 5, Saved (By_worker 0) env_example outcome (shard_entries 5 0 db2) devs, Sent 0 5 bytes, Moved 0]
       (example_sys (Testing '''') None db2 st')"
proof -
  let ?p = "''SAVE'' @ [LF]" and ?es = "shard_entries 5 0 db2" and ?w = "Some (By_worker 0)"
  obtain outcome st' devs where w: "write_snapshot (en_strerror env_example) (en_io env_example) (length ?es)
      (collected_text env_example ?es) st = Some (outcome, st', devs)" "so_ok outcome"
  proof -
    obtain chunks i' where "writeAll slow_kernel 0 (collected_text env_example ?es) 0 [] = Some (Transfer_done, chunks, i')"
      using wr.transfer_completes [OF slow_kernel_posix(1-3)] by metis
    with that show thesis by (simp add: write_snapshot_def env_example_def io_example_def Let_def)
  qed
  have "sys_step (example_sys (Cutting ?p) None db2 st) (Moved 0) (example_sys (Collecting '''' [] 0) ?w db2 st)"
    using sys_step.save_begin [OF _ example_lines(3) example_parse(3), of "example_sys (Cutting ?p) None db2 st" 0 5]
    by (simp add: conn_save_def)
  moreover have "sys_step (example_sys (Collecting '''' [] 0) ?w db2 st) (Visited 0 5) (example_sys (Collecting '''' ?es 1) ?w db2 st)"
    using sys_step.save_shard [of "example_sys (Collecting '''' [] 0) ?w db2 st" 0 5 "''''" "[]" 0 5]
    by (simp add: conn_collect_def db2_sel)
  moreover have "sys_step (example_sys (Collecting '''' ?es 1) ?w db2 st) (Saved (By_worker 0) env_example outcome ?es devs)
      (example_sys (Replying '''' ''+OK'' True) None db2 st')"
    using sys_step.save_end [of "example_sys (Collecting '''' ?es 1) ?w db2 st" 0 5 "''''" ?es 1 env_example outcome devs
        "example_sys (Collecting '''' ?es 1) None db2 st'"] w
    by (simp add: conn_saved_def db2_sel save_collected_def proto_status_def) (simp add: env_example_def)
  moreover obtain bytes where "sys_step (example_sys (Replying '''' ''+OK'' True) None db2 st') (Sent 0 5 bytes)
      (example_sys (Cutting '''') None db2 st')" using example_sent by blast
  moreover have "sys_step (example_sys (Cutting '''') None db2 st') (Moved 0) (example_sys (Testing '''') None db2 st')"
    using sys_step.rest [OF _ example_lines(4), of "example_sys (Cutting '''') None db2 st'" 0 5] by (simp add: conn_rest_def)
  ultimately have "sys_run (example_sys (Cutting ?p) None db2 st) ((((([] @ [Moved 0]) @ [Visited 0 5]) @
      [Saved (By_worker 0) env_example outcome ?es devs]) @ [Sent 0 5 bytes]) @ [Moved 0]) (example_sys (Testing '''') None db2 st')"
    using sys_run.none by (intro sys_run.more)
  with w(2) write_snapshot_path [OF w(1)] show ?thesis by auto
qed

definition example_finish :: "net_event list" where
  "example_finish = [Ev_close 0 5, Ev_return 0, Ev_run, Ev_run, Ev_interrupt [], Ev_run, Ev_take 0, Ev_join, Ev_run]"

lemma example_finished:
  "\<exists>n. net_run (serve_handled 0 (stop True serving_net)) example_finish n \<and> nt_pc n = Returned"
proof -
  let ?n0 = "serve_handled 0 (stop True serving_net)"
  let ?n2 = "serve_return 0 False (serve_close 0 5 ?n0)"
  let ?n4 = "run_leave (run_test ?n2)"
  let ?n6 = "run_stop_pool (shutdownActiveConnections ?n4)"
  let ?n8 = "run_join (worker_next 0 ?n6)"
  note simps = serving_net_def example_simps stop_def serve_handled_def serve_close_def close_client_def holds_def may_move_def joined_def
  have "net_step ?n0 (Ev_close 0 5) (serve_close 0 5 ?n0)" by (rule net_step.close) (simp add: simps)
  moreover have "net_step (serve_close 0 5 ?n0) (Ev_return 0) ?n2" by (rule net_step.return [where fd = 5]) (simp add: simps)
  moreover have "net_step ?n2 Ev_run (run_test ?n2)" by (rule net_step.test) (simp add: simps)
  moreover have "net_step (run_test ?n2) Ev_run ?n4" by (rule net_step.leave) (simp add: simps)
  moreover have "net_step ?n4 (Ev_interrupt []) (shutdownActiveConnections ?n4)"
    using net_step.interrupt [of ?n4] by (simp add: simps)
  moreover have "net_step (shutdownActiveConnections ?n4) Ev_run ?n6" by (rule net_step.stop_pool) (simp add: simps)
  moreover have "net_step ?n6 (Ev_take 0) (worker_next 0 ?n6)" by (rule net_step.take) (simp add: simps)
  moreover have "net_step (worker_next 0 ?n6) Ev_join ?n8" by (rule net_step.join) (simp_all add: simps)
  moreover have "net_step ?n8 Ev_run (run_stop_threads ?n8)" by (rule net_step.stop_threads) (simp add: simps)
  ultimately have "net_run ?n0 (((((((((([] @ [Ev_close 0 5]) @ [Ev_return 0]) @ [Ev_run]) @ [Ev_run]) @ [Ev_interrupt []]) @ [Ev_run]) @
      [Ev_take 0]) @ [Ev_join]) @ [Ev_run])) (run_stop_threads ?n8)"
    using net_run.none by (intro net_run.more)
  moreover have "nt_pc (run_stop_threads ?n8) = Returned" by (simp add: run_stop_threads_def)
  ultimately show ?thesis by (auto simp: example_finish_def)
qed

lemma example_stopped:
  "\<exists>n. nt_pc n = Returned \<and>
     sys_run (example_sys (Testing '''') None db2 st) ([Net (Ev_stop True), Moved 0, Net (Ev_serve 0 5)] @ map Net example_finish)
       ((example_sys Finished None db2 st)\<lparr>sy_net := n\<rparr>)"
proof -
  obtain n where n: "net_run (serve_handled 0 (stop True serving_net)) example_finish n" "nt_pc n = Returned"
    using example_finished by blast
  let ?t = "(example_sys (Testing '''') None db2 st)\<lparr>sy_net := stop True serving_net\<rparr>"
  let ?f = "(example_sys Finished None db2 st)\<lparr>sy_net := stop True serving_net\<rparr>"
  let ?h = "(example_sys Finished None db2 st)\<lparr>sy_net := serve_handled 0 (stop True serving_net)\<rparr>"
  have held: "holds (stop True serving_net) 0 5 Serving" by (simp add: serving_net_def example_simps stop_def holds_def)
  have "sys_step (example_sys (Testing '''') None db2 st) (Net (Ev_stop True)) ?t"
  proof -
    have "net_effect (Ev_stop True) (stop True serving_net) (example_sys (Testing '''') None db2 st) = ?t"
      by (simp add: net_effect_def)
    with sys_step.network [of "example_sys (Testing '''') None db2 st", simplified, OF net_step.stop [of _ True]]
    show ?thesis by (simp add: net_allowed_def)
  qed
  moreover have "sys_step ?t (Moved 0) ?f"
  proof -
    have "conn_test 0 '''' ?t = ?f"
      by (simp add: conn_test_def stop_def act_def) (simp add: example_sys_def example_system_def system_def)
    with sys_step.test [of ?t 0 5 "''''"] held show ?thesis by (simp add: doing_def)
  qed
  moreover have "sys_step ?f (Net (Ev_serve 0 5)) ?h"
  proof -
    have "net_effect (Ev_serve 0 5) (serve_handled 0 (stop True serving_net)) ?f = ?h"
      using held by (simp add: net_effect_def holds_def)
    with sys_step.network [of ?f, simplified, OF net_step.handled [OF held]] show ?thesis by (simp add: net_allowed_def)
  qed
  ultimately have "sys_run (example_sys (Testing '''') None db2 st) ((([] @ [Net (Ev_stop True)]) @ [Moved 0]) @ [Net (Ev_serve 0 5)]) ?h"
    using sys_run.none by (intro sys_run.more)
  moreover have "sys_run ?h (map Net example_finish) (?h\<lparr>sy_net := n\<rparr>)"
    by (rule sys_run_lift)
      (use n(1) in \<open>simp_all add: example_finish_def example_sys_def example_system_def system_def example_server_def\<close>)
  ultimately have "sys_run (example_sys (Testing '''') None db2 st)
      (((([] @ [Net (Ev_stop True)]) @ [Moved 0]) @ [Net (Ev_serve 0 5)]) @ map Net example_finish) (?h\<lparr>sy_net := n\<rparr>)"
    by (rule sys_runs.append)
  with n(2) show ?thesis by auto
qed

text \<open>The whole run, with the request, the list of keys and the save in it.\<close>

lemma example_whole_run:
  obtains evs1 evs2 evs3 outcome devs st s evs4 where
    "sys_run example_system (evs1 @ Requested 0 env_example ''SET k v'' (Some ''+OK'') # evs2 @ Listed 0 (shard_keys 5 0 db2) # evs3 @
       Saved (By_worker 0) env_example outcome (shard_entries 5 0 db2) devs # evs4) s"
    "so_ok outcome" "nt_pc (sy_net s) = Returned" "sy_database s = db2" "sy_store s = Some st" "ss_path st = ''f''"
proof -
  let ?evs0 = "map Net [Ev_run, Ev_run, Ev_poll (Poll_ready True False), Ev_accept (Accept_fd 5), Ev_submit 5 True, Ev_take 0, Ev_serve 0 5,
        Ev_serve 0 5]"
  let ?finish = "[Net (Ev_stop True), Moved 0, Net (Ev_serve 0 5)] @ map Net example_finish"
  obtain b1 where r1: "sys_run (example_sys (Testing '''') None db1 (SnapshotStore ''f''))
     [Moved 0, Received 0 5 (Recv_bytes example_packet), Requested 0 env_example ''SET k v'' (Some ''+OK''), Sent 0 5 b1]
     (example_sys (Cutting (''KEYS'' @ LF # ''SAVE'' @ [LF])) None db2 (SnapshotStore ''f''))" using example_request by blast
  obtain b2 where r2: "sys_run (example_sys (Cutting (''KEYS'' @ LF # ''SAVE'' @ [LF])) None db2 (SnapshotStore ''f''))
     [Moved 0, Visited 0 5, Listed 0 (shard_keys 5 0 db2), Sent 0 5 b2]
     (example_sys (Cutting (''SAVE'' @ [LF])) None db2 (SnapshotStore ''f''))" using example_listed by blast
  obtain outcome devs b3 st where r3: "so_ok outcome" "ss_path st = ''f''"
    "sys_run (example_sys (Cutting (''SAVE'' @ [LF])) None db2 (SnapshotStore ''f''))
       [Moved 0, Visited 0 5, Saved (By_worker 0) env_example outcome (shard_entries 5 0 db2) devs, Sent 0 5 b3, Moved 0]
       (example_sys (Testing '''') None db2 st)" using example_saved [of "SnapshotStore ''f''"] by (auto simp: SnapshotStore_def)
  obtain n where r4: "nt_pc n = Returned" "sys_run (example_sys (Testing '''') None db2 st) ?finish
      ((example_sys Finished None db2 st)\<lparr>sy_net := n\<rparr>)" using example_stopped by blast
  note run = sys_runs.append [OF sys_runs.append [OF sys_runs.append [OF sys_runs.append [OF example_accepted r1] r2] r3(3)] r4(2)]
  show thesis
    by (rule that [of "?evs0 @ [Moved 0, Received 0 5 (Recv_bytes example_packet)]" "[Sent 0 5 b1, Moved 0, Visited 0 5]"
          "[Sent 0 5 b2, Moved 0, Visited 0 5]" outcome devs "[Sent 0 5 b3, Moved 0] @ ?finish"
          "(example_sys Finished None db2 st)\<lparr>sy_net := n\<rparr>" st])
      (use run r3 r4(1) in simp_all)
qed

end
