(* ===== verification/VC_System_Props.thy ===== *)
theory VC_System_Props
  imports VC_System_Example
begin

text \<open>
  The properties of the running server as a whole, under every interleaving of its accept loop, workers,
  sweeper and scheduler.
\<close>

lemma example_started: "started_server example_server" "sr_store example_server = Some (SnapshotStore ''f'')"
  by (auto simp: started_server_def example_server_def)

text \<open>What a walk over all shards has found when it is complete.\<close>

lemma consistent_complete:
  assumes "consistent item key s1 evs s2 xs (shards_of s2)" "sys_run (system srv db now) evs1 s1" "sys_run s1 evs s2" "db_inv db"
  shows "distinct (map key xs)"
    and "unwritten k evs \<Longrightarrow> x \<in> set xs \<Longrightarrow> key x = k \<Longrightarrow> \<exists>e. x = item e \<and> db_live (sy_now s1) (sy_database s1) k = Some e"
    and "unwritten k evs \<Longrightarrow> db_maxMemoryBytes db = 0 \<Longrightarrow> db_live (sy_now s2) (sy_database s1) k = Some e \<Longrightarrow>
      item e \<in> set xs \<and> e_key e = k"
proof -
  note k1 = sys_run_keeps [OF assms(2), simplified, OF assms(4)]
  have less: "shardIndexFor (sy_database s1) k < shards_of s2" for k
    using shardFor_less [OF k1(1), of k] sys_run_keeps(2) [OF assms(3) k1(1)] by (simp add: shards_of_def same_layout_def)
  have limit: "db_maxMemoryBytes (sy_database s1) = db_maxMemoryBytes db" using k1(2) by (simp add: same_layout_def)
  show "distinct (map key xs)" using assms(1) by (simp add: consistent_def)
  show "unwritten k evs \<Longrightarrow> x \<in> set xs \<Longrightarrow> key x = k \<Longrightarrow> \<exists>e. x = item e \<and> db_live (sy_now s1) (sy_database s1) k = Some e"
    using assms(1) unfolding consistent_def db_live_Some by blast
  show "unwritten k evs \<Longrightarrow> db_maxMemoryBytes db = 0 \<Longrightarrow> db_live (sy_now s2) (sy_database s1) k = Some e \<Longrightarrow>
      item e \<in> set xs \<and> e_key e = k"
    using assms(1) less [of k] db_lookup_key [OF k1(1), of k e] unfolding consistent_def db_live_Some limit by blast
qed



text \<open>
  C9. What KEYS reports while other clients write: the keys are distinct, and there is a moment, after the request
  was read, such that every key that no request writes from then on until the reply is built is reported
  exactly when it is there at that moment. A key that expires meanwhile may be reported or not; only under
  a memory limit, keys that are evicted meanwhile may be missing too.
\<close>

theorem server_keys_consistent:
  assumes "sys_run (system srv db now) (evs @ Listed i keys # rest) s" "started_server srv" "db_inv db"
  shows "\<exists>evs1 evs2 s1 s2. evs = evs1 @ evs2 \<and> sys_run (system srv db now) evs1 s1 \<and> sys_run s1 evs2 s2 \<and>
    list_all (\<lambda>ev. \<not> moves i ev) evs2 \<and> (\<exists>fd pending. doing s1 i fd (Listing pending [] 0)) \<and> distinct keys \<and>
    (\<forall>k. unwritten k evs2 \<longrightarrow>
       (k \<in> set keys \<longrightarrow> db_live (sy_now s1) (sy_database s1) k \<noteq> None) \<and>
       (db_maxMemoryBytes db = 0 \<and> db_live (sy_now s2) (sy_database s1) k \<noteq> None \<longrightarrow> k \<in> set keys))"
proof -
  obtain s2 where run: "sys_run (system srv db now) evs s2" and "sys_run s2 ([Listed i keys] @ rest) s"
    using sys_runs.cut [OF assms(1)] by auto
  then obtain s3 where "sys_run s2 [Listed i keys] s3" using sys_runs.cut by blast
  then have "sys_step s2 (Listed i keys) s3" by (cases rule: sys_run.cases) (auto elim: sys_run.cases)
  then obtain fd pending j where d: "doing s2 i fd (Listing pending keys j)" "j = shards_of s2" by cases auto
  have "db_inv (sy_database (system srv db now))" "\<And>xs j. \<not> (\<exists>fd rest. doing (system srv db now) i fd (Listing rest xs j))"
    "\<exists>fd rest. doing s2 i fd (Listing rest keys j)" using d(1) assms(3) system_idle(1) [OF assms(2)] by auto
  from listing.walk_consistent [OF run this] obtain evs1 evs2 s1 where w: "evs = evs1 @ evs2" "sys_run (system srv db now) evs1 s1" "sys_run s1 evs2 s2"
      "\<exists>fd pending. doing s1 i fd (Listing pending [] 0)" "list_all (\<lambda>ev. \<not> moves i ev) evs2"
      "consistent e_key (\<lambda>k. k) s1 evs2 s2 keys j" by blast
  note c = consistent_complete [OF w(6) [unfolded d(2)] w(2,3) assms(3)]
  have "distinct keys" using c(1) by simp
  moreover have "k \<in> set keys \<Longrightarrow> db_live (sy_now s1) (sy_database s1) k \<noteq> None" if "unwritten k evs2" for k
    using c(2) [OF that] by auto
  moreover have "k \<in> set keys" if "unwritten k evs2" "db_maxMemoryBytes db = 0" "db_live (sy_now s2) (sy_database s1) k \<noteq> None" for k
    using c(3) [OF that(1,2)] that(3) by auto
  ultimately show ?thesis using w(1-5) by blast
qed

theorem server_keys_consistent_witness:
  "\<exists>evs s. sys_run example_system (evs @ [Listed 0 (shard_keys 5 0 db2)]) s \<and> distinct (shard_keys 5 0 db2)"
proof -
  obtain evs1 evs2 evs3 outcome devs st s evs4 where
    r: "sys_run example_system (evs1 @ Requested 0 env_example ''SET k v'' (Some ''+OK'') # evs2 @ Listed 0 (shard_keys 5 0 db2) # evs3 @
       Saved (By_worker 0) env_example outcome (shard_entries 5 0 db2) devs # evs4) s"
    by (rule example_whole_run)
  let ?evs = "evs1 @ Requested 0 env_example ''SET k v'' (Some ''+OK'') # evs2"
  let ?rest = "evs3 @ Saved (By_worker 0) env_example outcome (shard_entries 5 0 db2) devs # evs4"
  have run: "sys_run (system example_server db1 5) (?evs @ Listed 0 (shard_keys 5 0 db2) # ?rest) s"
    using r by (simp add: example_system_def)
  have "sys_run example_system ((?evs @ [Listed 0 (shard_keys 5 0 db2)]) @ ?rest) s" using r by simp
  from sys_runs.cut [OF this] obtain s' where "sys_run example_system (?evs @ [Listed 0 (shard_keys 5 0 db2)]) s'" by blast
  with server_keys_consistent [OF run example_started(1) db1_inv] show ?thesis by blast
qed

text \<open>
  C8. The snapshot file while the server runs, saved by clients and by the scheduler: at every moment, also in
  the middle of a save, it is the file from before the server was started or a complete and flushed snapshot
  that a successful save produced. And what a save collected is consistent: there is a moment
  after it took the store such that every key that no request writes until it has collected everything is in the
  snapshot exactly with its entry of that moment, up to entries that expire or, under a memory limit, are
  evicted meanwhile.
\<close>

theorem server_snapshots_consistent:
  assumes "sys_run (system srv db now) (evs @ Saved w env outcome entries devs # rest) s" "started_server srv" "db_inv db"
    and "sr_store srv = Some st"
  shows "(\<forall>m. disk_after (take m (disk_history (evs @ Saved w env outcome entries devs # rest))) d (ss_path st) \<in>
      insert (d (ss_path st)) (snapshots (evs @ Saved w env outcome entries devs # rest))) \<and>
    (\<exists>evs1 evs2 s1 s2. evs = evs1 @ evs2 \<and> sys_run (system srv db now) evs1 s1 \<and> sys_run s1 evs2 s2 \<and>
      sy_saver s1 = Some w \<and> distinct (map e_key entries) \<and>
      (\<forall>k. unwritten k evs2 \<longrightarrow>
         (\<forall>e\<in>set entries. e_key e = k \<longrightarrow> db_live (sy_now s1) (sy_database s1) k = Some e) \<and>
         (\<forall>e. db_maxMemoryBytes db = 0 \<and> db_live (sy_now s2) (sy_database s1) k = Some e \<longrightarrow> e \<in> set entries)))"
proof -
  obtain s2 where run: "sys_run (system srv db now) evs s2" and "sys_run s2 ([Saved w env outcome entries devs] @ rest) s"
    using sys_runs.cut [OF assms(1)] by auto
  then obtain s3 where "sys_run s2 [Saved w env outcome entries devs] s3" using sys_runs.cut by blast
  then have "sys_step s2 (Saved w env outcome entries devs) s3" by (cases rule: sys_run.cases) (auto elim: sys_run.cases)
  then obtain j where d: "collecting s2 w entries j" "j = shards_of s2" by (rule saved_step)
  have "\<not> collecting (system srv db now) w xs i" for xs i
    using system_idle(1) [OF assms(2)] by (cases w) auto
  from saving.walk_consistent [OF run _ this d(1)] assms(3)
  obtain evs1 evs2 s1 where w: "evs = evs1 @ evs2" "sys_run (system srv db now) evs1 s1" "sys_run s1 evs2 s2"
      "collecting s1 w [] 0" "consistent (\<lambda>e. e) e_key s1 evs2 s2 entries j" by auto
  have saver: "sy_saver s1 = Some w" using sys_run_mutex [OF w(2) assms(2)] w(4) by (auto simp: mutex_ok_def)
  note c = consistent_complete [OF w(5) [unfolded d(2)] w(2,3) assms(3)]
  have "db_live (sy_now s1) (sy_database s1) k = Some e" if "unwritten k evs2" "e \<in> set entries" "e_key e = k" for k e
    using c(2) [OF that] by blast
  with c(1,3) w(1-3) saver disk_history_safe [OF assms(1,4)] show ?thesis by blast
qed

theorem server_snapshots_consistent_witness:
  "\<exists>evs s. sys_run example_system evs s \<and> snapshots evs \<noteq> {} \<and>
     disk_after (disk_history evs) Map.empty ''f'' \<in> insert None (snapshots evs)"
proof -
  obtain evs1 evs2 evs3 outcome devs st s evs4 where
    r: "sys_run example_system (evs1 @ Requested 0 env_example ''SET k v'' (Some ''+OK'') # evs2 @ Listed 0 (shard_keys 5 0 db2) # evs3 @
       Saved (By_worker 0) env_example outcome (shard_entries 5 0 db2) devs # evs4) s" "so_ok outcome"
    by (rule example_whole_run)
  let ?evs = "evs1 @ Requested 0 env_example ''SET k v'' (Some ''+OK'') # evs2 @ Listed 0 (shard_keys 5 0 db2) # evs3"
  let ?all = "?evs @ Saved (By_worker 0) env_example outcome (shard_entries 5 0 db2) devs # evs4"
  have run: "sys_run (system example_server db1 5) ?all s" using r(1) by (simp add: example_system_def)
  have path: "ss_path (SnapshotStore ''f'') = ''f''" by (simp add: SnapshotStore_def)
  from server_snapshots_consistent [OF run example_started(1) db1_inv example_started(2), of Map.empty, unfolded path]
  have "disk_after (take (length (disk_history ?all)) (disk_history ?all)) Map.empty ''f'' \<in>
      insert (Map.empty ''f'') (snapshots ?all)" by blast
  then have "disk_after (disk_history ?all) Map.empty ''f'' \<in> insert None (snapshots ?all)" by simp
  moreover have "snapshots ?all \<noteq> {}" using r(2) by (simp add: snapshots_def)
  ultimately show ?thesis using run unfolding example_system_def by blast
qed





text \<open>
  C11. When \<open>run\<close> has returned, everything is at rest: the database is valid, nobody is saving, no worker and no
  background thread is left, and whatever happens afterwards changes neither the database nor the store nor
  anything else of the server; the store is still the one the server was started with. So the snapshot
  taken when the program ends is one of a keyspace that does not change.
\<close>

theorem run_leaves_nothing_running:
  assumes "sys_run (system srv db now) evs s" "started_server srv" "db_inv db" "nt_pc (sy_net s) = Returned"
  shows "db_inv (sy_database s) \<and> sy_saver s = None \<and> tp_workers (nt_pool (sy_net s)) = [] \<and>
    (\<forall>sw. sr_sweeper (server_after s) = Some sw \<longrightarrow> \<not> sw_thread sw \<and> \<not> sw_running sw) \<and>
    (\<forall>sd. sr_scheduler (server_after s) = Some sd \<longrightarrow> \<not> sd_thread sd \<and> \<not> sd_running sd) \<and>
    map_option ss_path (sr_store (server_after s)) = map_option ss_path (sr_store srv) \<and>
    (\<forall>evs' s'. sys_run s evs' s' \<longrightarrow> sy_database s' = sy_database s \<and> server_after s' = server_after s)"
proof -
  note h = sys_run_halted [OF assms(1,2,4)]
  have w: "tp_workers (nt_pool (sy_net s)) = []" using sys_run_stage [OF assms(1,2)] assms(4) by (simp add: stage_ok_def)
  have "sy_saver s = None"
  proof (rule ccontr)
    assume "sy_saver s \<noteq> None"
    then obtain v where "sy_saver s = Some v" by blast
    with sys_run_mutex [OF assms(1,2)] h w show False
      by (cases v) (auto simp: mutex_ok_iff halted_def gathers_def holds_def)
  qed
  moreover have "sr_sweeper (server_after s) = sy_sweeper s" "sr_scheduler (server_after s) = sy_scheduler s"
    "map_option ss_path (sr_store (server_after s)) = map_option ss_path (sr_store srv)"
    using sys_run_store [OF assms(1)] by (simp_all add: server_after_def)
  moreover have "db_inv (sy_database s)" using sys_run_keeps(1) [OF assms(1)] assms(3) by simp
  ultimately show ?thesis using h w returned_run [OF _ assms(4) h w] by (simp add: halted_def)
qed

theorem run_leaves_nothing_running_witness:
  "\<exists>evs s. sys_run example_system evs s \<and> nt_pc (sy_net s) = Returned \<and> sy_saver s = None \<and>
     (\<forall>evs' s'. sys_run s evs' s' \<longrightarrow> sy_database s' = db2)"
proof -
  obtain evs1 evs2 evs3 outcome devs st s evs4 where
    r: "sys_run example_system (evs1 @ Requested 0 env_example ''SET k v'' (Some ''+OK'') # evs2 @ Listed 0 (shard_keys 5 0 db2) # evs3 @
       Saved (By_worker 0) env_example outcome (shard_entries 5 0 db2) devs # evs4) s" "nt_pc (sy_net s) = Returned" "sy_database s = db2"
    by (rule example_whole_run)
  from run_leaves_nothing_running [OF r(1) [unfolded example_system_def] example_started(1) db1_inv r(2), unfolded r(3)]
  have "sy_saver s = None" "\<forall>evs' s'. sys_run s evs' s' \<longrightarrow> sy_database s' = db2" by blast+
  with r(1,2) show ?thesis by blast
qed

end
