(* ===== verification/Spec2Isabelle.thy ===== *)
theory Spec2Isabelle
  imports VC_HashTable_Props VC_Database_Props VC_Client_Props VC_Main_Props VC_System_Props
begin

text \<open>
  VCache, an in-memory key-value server with expiry, LRU eviction under a memory limit and snapshots on
  disk, together with its client. This is the verification development of the sources under src/: the
  header files are in src/include/, the implementation in src/src/, the two programs in src/server/main.cpp
  and src/client/main.cpp. Paths below leave out the leading src/.

  \<^bold>\<open>The program and its parts.\<close> A client program reads a command line or a prompt and sends one request line per
  command over TCP; the server answers with tagged reply lines. \<open>Server::run\<close> accepts connections and hands
  each to a worker of a \<open>ThreadPool\<close>; a worker cuts the bytes it receives into lines and gives each line to a
  \<open>CommandExecutor\<close>, which parses it and works on the \<open>Database\<close>. The database splits the keys over shards, each a
  \<open>HashTable\<close> with its own lock, memory slice and recency list. Two background threads share the database
  with the workers: \<open>ExpirationSweeper\<close> removes expired entries, \<open>SnapshotScheduler\<close> writes snapshots through the
  \<open>SnapshotStore\<close>, which the command SAVE and the end of the program use as well, and from which the server
  restores its keyspace when it starts.

  \<^bold>\<open>Theories and sources.\<close> Each component has a theory with its data and operations, and theories with its lemmas
  and properties. Definitions have the names of the source, with a prefix where two classes share one
  (\<open>ht_\<close> for \<open>HashTable\<close>, \<open>db_\<close> for \<open>Database\<close>, \<open>proto_\<close> for the protocol, \<open>server_\<close>, \<open>client_\<close>).
  \<^item> VC_Prelude (types and shared lemmas), VC_Text (decimal numbers), VC_Sys (what the kernel answers and
    the loop around \<open>write\<close> and \<open>send\<close>), VC_Runs (runs of a step relation), VC_CommandLine (output streams and
    number readers of the standard library).
  \<^item> VC_Entry: include/Entry.h.
  \<^item> VC_Recency, VC_Rounding, VC_HashTable, VC_HashTable_Inv, VC_HashTable_Ops, VC_HashTable_Correct,
    VC_HashTable_Props: include/HashTable.h and src/HashTable.cpp, with the recency list as assignments to
    pointers and the chains as lists of nodes that carry their address.
  \<^item> VC_Database, VC_Database_Inv, VC_Database_Correct, VC_Database_Keyspace, VC_Database_Props: include/Database.h
    and src/Database.cpp.
  \<^item> VC_Protocol: include/Protocol.h. VC_CommandParser, VC_CommandParser_Props: include/CommandParser.h and
    src/CommandParser.cpp. VC_Executor, VC_Executor_Props: src/CommandExecutor.cpp.
  \<^item> VC_Snapshot, VC_Snapshot_Correct (the format), VC_Persistence, VC_Persistence_Correct, VC_Persistence_Props
    (the files): include/Persistence.h and src/Persistence.cpp.
  \<^item> VC_ThreadPool, VC_ThreadPool_Props: src/ThreadPool.cpp. VC_Background, VC_Background_Props:
    src/ExpirationSweeper.cpp and src/SnapshotScheduler.cpp.
  \<^item> VC_Connection, VC_Connection_Props: \<open>handleConnection\<close>, \<open>sendLine\<close> and \<open>sendAll\<close> of src/Server.cpp. VC_Server,
    VC_Server_Props, VC_Server_Threads: the rest of it, \<open>start\<close> as a function and \<open>run\<close>, \<open>stop\<close> and
    \<open>serveConnection\<close> as steps of threads.
  \<^item> VC_System, VC_System_Correct, VC_System_Progress, VC_System_Example, VC_System_Props: the server while it
    runs, with all its threads on one database and one store.
  \<^item> VC_Client, VC_Client_Props: src/VCacheClient.cpp. VC_ServerMain, VC_ClientMain, VC_Main_Props: the two
    programs.
  \<^item> This theory: one run of the server and the next.

  \<^bold>\<open>State and effects.\<close> An object is a record, and an operation returns it updated with its result. Machine words are
  64-bit words where they wrap (hashes, masks, checksums, sizes read from files and arguments); counts of what is
  in memory are natural numbers. Strings are lists of bytes. Clock readings, the answers of the kernel and
  \<open>strerror\<close> are arguments of the operations that ask for them. Operations on the disk are lists of effects in their
  order, and a crash keeps a prefix of them. Threads are step relations, \<open>pool_step\<close>, \<open>net_step\<close> and \<open>sys_step\<close>: a
  step is one critical section or one access to an atomic variable, and steps of different threads follow
  each other in any order. An exception that reaches the source's callers, and an error, is a value.

  \<^bold>\<open>Loops.\<close> No definition has fuel. Loops that are not structural are partial functions to an option type, where
  None means that the loop goes on for ever, and each has lemmas that say when it returns: rounding of
  sizes up to 2 ^ 63, reading and writing when the kernel is interrupted only finitely often in a
  row, a connection when bytes come to an end or the server stops, background threads when they are told to
  stop. The properties state that a result exists, under those hypotheses. For threads the
  corresponding statements bound the number of steps and say that a thread can take one.

  \<^bold>\<open>Interfaces.\<close> The contract that one component promises another is a locale, interpreted on the model: \<open>recency_list\<close>
  (pointers implement consing and removal), \<open>lru_table\<close> (the hash table implements an LRU cache), \<open>sharded\<close>
  (an update of one shard is an update of the keyspace), \<open>transfer_loop\<close> (partial writes, for files and for both ends
  of a connection), \<open>codec\<close> (integers of two, four and eight bytes in a file), \<open>background_loop\<close> (sweeper and scheduler),
  \<open>traced_runs\<close> (the three step relations) and \<open>shard_walk\<close> (KEYS and snapshots, which visit the shards
  one after the other while others write).

  \<^bold>\<open>What is shown.\<close>
  \<^item> Hash table: every sequence of operations returns and implements an LRU cache, read by following the
    pointers; growing keeps the entries; the bit operations compute powers of two and remainders.
  \<^item> Database: every operation keeps the invariant and has its effect on the map from keys to entries; expiry;
    an accepted SET evicts the least recently used keys of its shard, never its own; bounds on the memory;
    sweeps remove expired entries only; a snapshot restores exactly the live entries.
  \<^item> Protocol, parser and executor: replies and escaped requests are read back as they were written; replies are
    framed by their header; a request has the reply and the effect it has on a map with expiry.
  \<^item> Snapshots: a file decodes to what was encoded, a changed byte is detected, a crash at any point of a
    save leaves the old or the complete new file, a load that fails changes nothing, and a save and a load keep
    values exactly and expiries to within a millisecond and two ticks of the clock.
  \<^item> Connections and client: however packets are cut, complete lines are executed once and in order, and
    the client returns the complete reply; together they answer as the map does.
  \<^item> Threads: the pool runs every accepted task exactly once, in order, and drains its queue on shutdown; each
    client descriptor has one owner and is closed once; \<open>run\<close> returns after a request to stop.
  \<^item> The running server: requests of all connections are linearizable on a map with expiry; KEYS and snapshots
    contain every key that nobody writes meanwhile; replies reach the connection of their request; saves exclude
    each other and nobody waits for ever for one; after \<open>run\<close> nothing changes any more.
  \<^item> The programs: arguments arrive as given, an exit code of 0 means that the last keyspace is on disk,
    and the next server starts with it (\<open>restart_restores_keyspace\<close> below).

  \<^bold>\<open>Hypotheses on code outside the sources.\<close> \<open>never_more\<close> (a call transfers at most the bytes
  offered), \<open>responsive\<close> (from every call on, some call makes progress or fails for good) and \<open>no_hard_errors\<close> (calls fail
  by interruption only); \<open>posix_write\<close> is the first two of them, \<open>posix_send\<close> all three, and \<open>posix_socket\<close> adds that a
  call that succeeds sends something; \<open>reads_file\<close> (reads make progress until the end of the file, and
  interruptions come to an end), \<open>posix_descriptors\<close> (descriptors are not negative), and \<open>clocks_agree\<close> (the two clocks run at
  the same rate during a save or a load). Each property with such a hypothesis is followed by an example
  with a concrete kernel for which it holds. Linearizability is stated without a memory limit: with one, keys may
  disappear by eviction, whose rule \<open>db_set_limited\<close> states for each request.

  \<^bold>\<open>Not modelled.\<close>
  \<^item> bench/ and tests/: they measure and exercise the server and are no part of it; the benchmarks are timing
    loops over random numbers whose result is a printed measurement.
  \<^item> Destructors, \<open>destroyChain\<close> and memory reclamation, and exhaustion of memory as such; that an exception may leave
    \<open>handleConnection\<close> is a step of the server.
  \<^item> Data races inside a critical section: that \<open>std::mutex\<close> and \<open>std::shared_mutex\<close> exclude what they should is taken from
    the language. Two GETs that hold the lock of a shard together are ordered like their clock readings.
    The file work of a save is one step of the running server, as the store is locked; crashes
    in its midst are those of its list of effects. The stops of the two background threads at the end of \<open>run\<close> are
    one step.
  \<^item> Waiting itself: how long \<open>wait_for\<close> sleeps, spurious wakeups, and that the scheduler of the operating system is fair.
  \<^item> The signal handler (it calls \<open>stop\<close>, which may come at any moment in the model) and its installation, and
    options of sockets without effect on what is sent.
  \<^item> Overflow of 64-bit durations and of counters that would take centuries to reach; the time points are integers.
  \<^item> Accessors that return a field.
\<close>

section \<open>From one start of the server to the next\<close>

lemma load_inv: "load strerror io tick clk content st db = Some (outcome, db') \<Longrightarrow> db_inv db \<Longrightarrow> db_inv db'"
  using db_restore_correct(1) [of db]
  by (auto simp: load_def split: option.splits Option.bind_splits sum.splits prod.splits if_splits) (metis snd_conv)

lemma server_start_inv:
  assumes "server_start env (Server config) db = Some (ok, s, db', fds)" "db_inv db"
  shows "db_inv db'"
proof -
  have "db_inv (db_setMaxMemory (cfg_maxMemoryBytes config) db)" by (rule db_setMaxMemory_correct(1) [OF assms(2)])
  with assms(1) show ?thesis
    by (auto simp: server_start_def restore_snapshot_def Let_def dest: load_inv
        split: option.splits bool.splits sum.splits prod.splits if_splits)
qed

lemma server_start_loaded:
  assumes "cfg_snapshotPath config \<noteq> ''''" "cfg_restoreOnStart config"
    and "load (se_strerror env) (se_load_io env) (se_tick env) (se_load_clock env) (se_content env)
        (SnapshotStore (cfg_snapshotPath config)) (db_setMaxMemory (cfg_maxMemoryBytes config) db) = Some (outcome, db')"
    and "lo_status outcome \<noteq> Load_Failed"
  shows "\<exists>ok s fds. server_start env (Server config) db = Some (ok, s, db', fds)"
  using assms by (auto simp: server_start_def restore_snapshot_def Let_def split: sum.split prod.split)

lemma final_save_file:
  assumes "final_save env srv db = Some (0, printed, evs)" "sr_store srv = Some st" "posix_write (si_write (me_io env))"
  shows "disk_after evs d (ss_path st) = Some \<lparr>f_data = save_encoded (se_tick (me_start env)) (me_clock env) db, f_synced = True\<rparr>"
proof -
  obtain outcome st' where s: "save (se_strerror (me_start env)) (me_io env) (se_tick (me_start env)) (me_clock env) db st = Some (outcome, st', evs)"
      "so_ok outcome"
    using assms(1,2) by (auto simp: final_save_def split: option.splits if_splits)
  with save_returns_result [OF assms(3), of "se_strerror (me_start env)" "se_tick (me_start env)" "me_clock env" db st]
    save_result_path(2) [of _ _ st outcome st' evs d] show ?thesis by auto
qed


text \<open>
  For the example: a server with one worker and no background threads, which is told to stop at once.
\<close>

definition restart_config :: ServerConfig where
  "restart_config = default_ServerConfig\<lparr>cfg_threadCount := 1, cfg_sweeper := \<lparr>swc_interval = 0, swc_bucketsPerPass = 1\<rparr>,
     cfg_snapshotPath := ''f''\<rparr>"

lemma stopped_at_once:
  assumes "0 \<le> snd (sr_shutdownPipe srv)"
  shows "\<exists>evs n. net_run (network srv (ThreadPool 1 m)) evs n \<and> list_all (\<lambda>ev. \<not> is_serve ev) evs \<and> nt_pc n = Returned"
proof -
  let ?n0 = "network srv (ThreadPool 1 m)"
  let ?n2 = "run_begin (stop True ?n0)"
  let ?n4 = "run_poll (Poll_ready False True) (run_test ?n2)"
  let ?n6 = "shutdownActiveConnections (run_leave ?n4)"
  let ?n8 = "worker_next 0 (run_stop_pool ?n6)"
  note simps = network_def ThreadPool_def stop_def control_defs run_stop_pool_def begin_shutdown_def worker_next_def worker_turn_def
    may_move_def joined_def run_join_def run_stop_threads_def
  have "net_step ?n0 (Ev_stop True) (stop True ?n0)" by (rule net_step.stop)
  moreover have "net_step (stop True ?n0) Ev_run ?n2" by (rule net_step.begin_run) (simp add: simps)
  moreover have "net_step ?n2 Ev_run (run_test ?n2)" by (rule net_step.test) (simp add: simps)
  moreover have "net_step (run_test ?n2) (Ev_poll (Poll_ready False True)) ?n4"
    by (rule net_step.poll) (use assms in \<open>simp_all add: simps\<close>)
  moreover have "net_step ?n4 Ev_run (run_leave ?n4)" by (rule net_step.leave) (simp add: simps)
  moreover have "net_step (run_leave ?n4) (Ev_interrupt []) ?n6"
    using net_step.interrupt [of "run_leave ?n4"] by (simp add: simps)
  moreover have "net_step ?n6 Ev_run (run_stop_pool ?n6)" by (rule net_step.stop_pool) (simp add: simps)
  moreover have "net_step (run_stop_pool ?n6) (Ev_take 0) ?n8" by (rule net_step.take) (simp add: simps)
  moreover have "net_step ?n8 Ev_join (run_join ?n8)" by (rule net_step.join) (simp_all add: simps)
  moreover have "net_step (run_join ?n8) Ev_run (run_stop_threads (run_join ?n8))"
    by (rule net_step.stop_threads) (simp add: simps)
  ultimately have "net_run ?n0 (((((((((([] @ [Ev_stop True]) @ [Ev_run]) @ [Ev_run]) @ [Ev_poll (Poll_ready False True)]) @ [Ev_run]) @
      [Ev_interrupt []]) @ [Ev_run]) @ [Ev_take 0]) @ [Ev_join]) @ [Ev_run]) (run_stop_threads (run_join ?n8))"
    using net_run.none by (intro net_run.more)
  then show ?thesis
    by (intro exI [of _ "[Ev_stop True, Ev_run, Ev_run, Ev_poll (Poll_ready False True), Ev_run, Ev_interrupt [], Ev_run, Ev_take 0, Ev_join, Ev_run]"]
        exI [of _ "run_stop_threads (run_join ?n8)"]) (simp add: run_stop_threads_def)
qed

lemma restart_first:
  "\<exists>srv fds. server_start (me_start main_example) (Server restart_config) saved_example =
      Some (True, srv, db_setMaxMemory 0 saved_example, fds) \<and> sr_pool srv = Some (ThreadPool 1 128) \<and>
    sr_store srv = Some (SnapshotStore ''f'') \<and> sr_sweeper srv = None \<and> sr_scheduler srv = None \<and> snd (sr_shutdownPipe srv) = 5"
  by (simp add: server_start_def restore_snapshot_def load_def main_example_def start_example_def restart_config_def
      default_ServerConfig_def default_LoadOutcome_def listen_socket_def start_threads_def Let_def)

definition restart_env :: "database \<Rightarrow> start_env" where
  "restart_env db = start_example\<lparr>se_load_clock := \<lparr>lc_now = 50, lc_entries = (\<lambda>_. (50, 9000050)), lc_restore = 51\<rparr>,
     se_content := save_encoded 1 clock_example db\<rparr>"


end
